(* ===== verification/Prelude.thy ===== *)
theory Prelude
  imports Main "HOL-Library.Word" "HOL-Library.Multiset"
begin

text \<open>
  Shared ground of the development: the machine integer types of the code, the exceptions
  its handlers tell apart, transition systems with their reachable states, and the generic
  lemmas on lists, multisets and words that several components use.

  The two locales are the contracts that every concurrent component meets: a state
  predicate that holds initially and is kept by every step is an \<^emph>\<open>invariant system\<close>; a
  map of states under which every concrete step is an abstract step or a stutter is a
  \<^emph>\<open>forward simulation\<close>.
\<close>

section \<open>Types\<close>

text \<open>\<open>unsigned\<close> and \<open>uint32_t\<close> are 32 bits, \<open>std::size_t\<close> 64, \<open>uint16_t\<close> 16.\<close>

type_synonym u16 = "16 word"
type_synonym u32 = "32 word"
type_synonym u64 = "64 word"

text \<open>
  What a C++ handler can tell of an exception: \<open>catch(std::exception& e)\<close> sees \<open>e.what()\<close>,
  \<open>catch(...)\<close> sees nothing.
\<close>

datatype exn = StdException string | OtherException

section \<open>Collections of facts\<close>

named_theorems frame_simps \<open>what an operation leaves unchanged\<close>

section \<open>Transition systems\<close>

inductive reach :: "('s \<Rightarrow> bool) \<Rightarrow> ('s \<Rightarrow> 's \<Rightarrow> bool) \<Rightarrow> 's \<Rightarrow> bool"
  for init :: "'s \<Rightarrow> bool" and step :: "'s \<Rightarrow> 's \<Rightarrow> bool" where
  reach_init: "init s \<Longrightarrow> reach init step s"
| reach_step: "reach init step s \<Longrightarrow> step s t \<Longrightarrow> reach init step t"

text \<open>A deterministic action function gives a step relation, and runs of action lists.\<close>

definition step_of :: "('act \<Rightarrow> 's \<Rightarrow> 's option) \<Rightarrow> 's \<Rightarrow> 's \<Rightarrow> bool" where
  "step_of act s t \<longleftrightarrow> (\<exists>a. act a s = Some t)"

fun run_acts :: "('act \<Rightarrow> 's \<Rightarrow> 's option) \<Rightarrow> 'act list \<Rightarrow> 's \<Rightarrow> 's option" where
  "run_acts act [] s = Some s"
| "run_acts act (a # as) s = (case act a s of None \<Rightarrow> None | Some t \<Rightarrow> run_acts act as t)"

lemma run_acts_reach:
  "run_acts act as s = Some t \<Longrightarrow> reach init (step_of act) s \<Longrightarrow> reach init (step_of act) t"
proof (induction as arbitrary: s)
  case Nil
  then show ?case by simp
next
  case (Cons a as)
  then obtain u where u: "act a s = Some u" "run_acts act as u = Some t"
    by (auto split: option.splits)
  have "reach init (step_of act) u"
    by (rule reach_step [OF Cons.prems(2)]) (use u(1) in \<open>auto simp: step_of_def\<close>)
  with u(2) show ?case by (rule Cons.IH)
qed

lemma run_acts_append:
  "run_acts act (as @ bs) s =
     (case run_acts act as s of None \<Rightarrow> None | Some t \<Rightarrow> run_acts act bs t)"
  by (induction as arbitrary: s) (auto split: option.splits)

text \<open>Where a predicate begins to hold.\<close>

lemma reach_crossing:
  assumes "reach init step s" and "P s" and start: "\<And>i. init i \<Longrightarrow> \<not> P i"
  shows "\<exists>u v. reach init step u \<and> step u v \<and> \<not> P u \<and> P v \<and> step\<^sup>*\<^sup>* v s"
  using assms(1,2)
proof (induction rule: reach.induct)
  case (reach_init s)
  with start show ?case by simp
next
  case (reach_step s t)
  show ?case
  proof (cases "P s")
    case True
    with reach_step.IH obtain u v where "reach init step u" "step u v" "\<not> P u" "P v" "step\<^sup>*\<^sup>* v s" by blast
    with reach_step.hyps(2) show ?thesis by (intro exI [of _ u] exI [of _ v]) (simp add: rtranclp.rtrancl_into_rtrancl)
  next
    case False
    with reach_step.hyps reach_step.prems show ?thesis by (intro exI [of _ s] exI [of _ t]) simp
  qed
qed

locale invariant_system =
  fixes init :: "'s \<Rightarrow> bool"
    and step :: "'s \<Rightarrow> 's \<Rightarrow> bool"
    and inv :: "'s \<Rightarrow> bool"
  assumes inv_init: "init s \<Longrightarrow> inv s"
    and inv_step: "reach init step s \<Longrightarrow> inv s \<Longrightarrow> step s t \<Longrightarrow> inv t"
begin

lemma inv_reach: "reach init step s \<Longrightarrow> inv s"
  by (induction rule: reach.induct) (auto intro: inv_init inv_step)

lemma inv_reach_weaken:
  assumes "reach init step s" and "\<And>u. inv u \<Longrightarrow> P u"
  shows "P s"
  using assms inv_reach by blast

end

locale forward_simulation =
  fixes cinit :: "'c \<Rightarrow> bool"
    and cstep :: "'c \<Rightarrow> 'c \<Rightarrow> bool"
    and ainit :: "'a \<Rightarrow> bool"
    and astep :: "'a \<Rightarrow> 'a \<Rightarrow> bool"
    and abs :: "'c \<Rightarrow> 'a"
  assumes sim_init: "cinit s \<Longrightarrow> ainit (abs s)"
    and sim_step: "reach cinit cstep s \<Longrightarrow> cstep s t \<Longrightarrow>
      abs t = abs s \<or> astep (abs s) (abs t)"
begin

lemma reach_abs: "reach cinit cstep s \<Longrightarrow> reach ainit astep (abs s)"
proof (induction rule: reach.induct)
  case (reach_init s)
  then show ?case by (intro reach.reach_init sim_init)
next
  case (reach_step s t)
  from sim_step [OF reach_step.hyps(1,2)] reach_step.IH show ?case
    by (auto intro: reach.reach_step)
qed

lemma sim_steps:
  assumes "reach cinit cstep s" and "cstep\<^sup>*\<^sup>* s t"
  shows "reach cinit cstep t \<and> astep\<^sup>*\<^sup>* (abs s) (abs t)"
  using assms(2)
proof (induction rule: rtranclp_induct)
  case base
  then show ?case using assms(1) by simp
next
  case (step t u)
  then have "reach cinit cstep u" by (blast intro: reach_step)
  with sim_step [of t u] step show ?case by (auto intro: rtranclp.rtrancl_into_rtrancl)
qed

lemma abs_invariant:
  assumes "reach cinit cstep s" and "\<And>a. reach ainit astep a \<Longrightarrow> P a"
  shows "P (abs s)"
  using assms reach_abs by blast

end

section \<open>Lists and multisets\<close>

lemma mset_concat_update:
  assumes "i < length qs"
  shows "mset (concat (qs[i := q])) + mset (qs ! i) = mset (concat qs) + mset q"
  using assms
proof (induction qs arbitrary: i)
  case Nil
  then show ?case by simp
next
  case (Cons x qs)
  then show ?case by (cases i) (auto simp: ac_simps)
qed

lemma sum_list_update_thread:
  fixes f :: "'b \<Rightarrow> 'c::cancel_comm_monoid_add"
  assumes "t < length xs"
  shows "sum_list (map f (xs[t := y])) + f (xs ! t) = sum_list (map f xs) + f y"
  using assms
proof (induction xs arbitrary: t)
  case Nil
  then show ?case by simp
next
  case (Cons x xs)
  then show ?case by (cases t) (auto simp: ac_simps)
qed

text \<open>Counting round from \<open>m\<close>: \<open>n\<close> consecutive numbers modulo \<open>n\<close>.\<close>

lemma map_mod_rotate: "map (\<lambda>k. (m + k) mod n) [0..<n] = rotate m [0..<n]"
  by (rule nth_equalityI) (simp_all add: nth_rotate)

lemma filter_update:
  "t < length xs \<Longrightarrow> length (filter P (xs[t := y])) + (if P (xs ! t) then 1 else 0) =
     length (filter P xs) + (if P y then 1 else 0)"
proof (induction xs arbitrary: t)
  case Nil
  then show ?case by simp
next
  case (Cons x xs)
  then show ?case by (cases t) auto
qed

lemma list_all_update: "list_all P xs \<Longrightarrow> P y \<Longrightarrow> list_all P (xs[t := y])"
  by (auto simp: list_all_iff dest: subsetD [OF set_update_subset_insert])

section \<open>Words\<close>

lemma unat_mod_word: "unat (a mod b :: 'w::len word) = unat a mod unat b"
  by (simp add: unat_mod_distrib)

lemma unat_lt_length: "unat (w :: 'w::len word) < 2 ^ LENGTH('w)"
  by (rule unsigned_less)

lemma unat_u32_lt: "unat (w :: u32) < 2 ^ 32"
  using unat_lt_length [of w] by simp

lemma unat_add_small:
  fixes a b :: "'w::len word"
  assumes "unat a + unat b < 2 ^ LENGTH('w)"
  shows "unat (a + b) = unat a + unat b"
  using assms by (simp add: unat_word_ariths)

lemma unat_diff_Suc_less:
  fixes i n :: "'w::len word"
  assumes "i \<noteq> n"
  shows "unat (n - (i + 1)) < unat (n - i)"
proof -
  have "n - i \<noteq> 0" using assms by simp
  then have "unat (n - i - 1) < unat (n - i)" by (rule measure_unat)
  then show ?thesis by (simp add: diff_diff_eq)
qed

end
