(* ===== verification/Rpc_Status.thy ===== *)
theory Rpc_Status
  imports Prelude
begin

text \<open>
  The error vocabulary of the library: the enumeration \<open>RpcStatusCode\<close>
  (\<open>sgrpc/rpc_status_code.hpp\<close>), its translation from and to \<open>grpc::StatusCode\<close>
  (\<open>sgrpc/detail/utils.hpp\<close>), the error category that names the codes
  (\<open>sgrpc/detail/rpc_status_code_category.hpp\<close>) and the value class \<open>RpcStatus\<close>
  (\<open>sgrpc/rpc_status.hpp\<close>), with the lifetime of the category object it points to.
\<close>

section \<open>The enumerations\<close>

text \<open>
  Both enumerations have \<open>int\<close> as their underlying type, so a value outside the
  enumerators is possible (a \<open>static_cast\<close> produces one); \<open>RawCode\<close> and \<open>RAW\<close> stand
  for those.
\<close>

datatype rpc_status_code =
    Ok | Cancelled | Unknown | InvalidArgument | DeadlineExceeded | NotFound
  | AlreadyExists | PermissionDenied | ResourceExhausted | FailedPrecondition
  | Aborted | OutOfRange | Unimplemented | Internal | Unavailable | DataLoss
  | Unauthenticated | Unspecified | RawCode int

datatype grpc_status_code =
    OK | CANCELLED | UNKNOWN | INVALID_ARGUMENT | DEADLINE_EXCEEDED | NOT_FOUND
  | ALREADY_EXISTS | PERMISSION_DENIED | UNAUTHENTICATED | RESOURCE_EXHAUSTED
  | FAILED_PRECONDITION | ABORTED | OUT_OF_RANGE | UNIMPLEMENTED | INTERNAL
  | UNAVAILABLE | DATA_LOSS | DO_NOT_USE | RAW int

text \<open>The enumerators in declaration order; the first is 0 and each is one more.\<close>

definition rpc_enumerators :: "rpc_status_code list" where
  "rpc_enumerators =
     [Ok, Cancelled, Unknown, InvalidArgument, DeadlineExceeded, NotFound,
      AlreadyExists, PermissionDenied, ResourceExhausted, FailedPrecondition,
      Aborted, OutOfRange, Unimplemented, Internal, Unavailable, DataLoss,
      Unauthenticated, Unspecified]"

text \<open>\<open>static_cast<RpcStatusCode>(int)\<close> and \<open>static_cast<int>(RpcStatusCode)\<close>.\<close>

definition code_of_int :: "int \<Rightarrow> rpc_status_code" where
  "code_of_int e =
     (if 0 \<le> e \<and> e < int (length rpc_enumerators) then rpc_enumerators ! nat e else RawCode e)"

fun int_of_code :: "rpc_status_code \<Rightarrow> int" where
  "int_of_code Ok = 0"
| "int_of_code Cancelled = 1"
| "int_of_code Unknown = 2"
| "int_of_code InvalidArgument = 3"
| "int_of_code DeadlineExceeded = 4"
| "int_of_code NotFound = 5"
| "int_of_code AlreadyExists = 6"
| "int_of_code PermissionDenied = 7"
| "int_of_code ResourceExhausted = 8"
| "int_of_code FailedPrecondition = 9"
| "int_of_code Aborted = 10"
| "int_of_code OutOfRange = 11"
| "int_of_code Unimplemented = 12"
| "int_of_code Internal = 13"
| "int_of_code Unavailable = 14"
| "int_of_code DataLoss = 15"
| "int_of_code Unauthenticated = 16"
| "int_of_code Unspecified = 17"
| "int_of_code (RawCode i) = i"

text \<open>A code is well formed when a raw value is not the number of an enumerator.\<close>

fun code_wf :: "rpc_status_code \<Rightarrow> bool" where
  "code_wf (RawCode i) = (i < 0 \<or> 18 \<le> i)"
| "code_wf _ = True"

section \<open>Translation from and to the codes of grpc\<close>

fun to_rpc_status_code :: "grpc_status_code \<Rightarrow> rpc_status_code" where
  "to_rpc_status_code OK = Ok"
| "to_rpc_status_code CANCELLED = Cancelled"
| "to_rpc_status_code UNKNOWN = Unknown"
| "to_rpc_status_code INVALID_ARGUMENT = InvalidArgument"
| "to_rpc_status_code DEADLINE_EXCEEDED = DeadlineExceeded"
| "to_rpc_status_code NOT_FOUND = NotFound"
| "to_rpc_status_code ALREADY_EXISTS = AlreadyExists"
| "to_rpc_status_code PERMISSION_DENIED = PermissionDenied"
| "to_rpc_status_code UNAUTHENTICATED = Unauthenticated"
| "to_rpc_status_code RESOURCE_EXHAUSTED = ResourceExhausted"
| "to_rpc_status_code FAILED_PRECONDITION = FailedPrecondition"
| "to_rpc_status_code ABORTED = Aborted"
| "to_rpc_status_code OUT_OF_RANGE = OutOfRange"
| "to_rpc_status_code UNIMPLEMENTED = Unimplemented"
| "to_rpc_status_code INTERNAL = Internal"
| "to_rpc_status_code UNAVAILABLE = Unavailable"
| "to_rpc_status_code DATA_LOSS = DataLoss"
| "to_rpc_status_code DO_NOT_USE = Unspecified"
| "to_rpc_status_code (RAW _) = Unspecified"

fun to_grpc_status_code :: "rpc_status_code \<Rightarrow> grpc_status_code" where
  "to_grpc_status_code Ok = OK"
| "to_grpc_status_code Cancelled = CANCELLED"
| "to_grpc_status_code Unknown = UNKNOWN"
| "to_grpc_status_code InvalidArgument = INVALID_ARGUMENT"
| "to_grpc_status_code DeadlineExceeded = DEADLINE_EXCEEDED"
| "to_grpc_status_code NotFound = NOT_FOUND"
| "to_grpc_status_code AlreadyExists = ALREADY_EXISTS"
| "to_grpc_status_code PermissionDenied = PERMISSION_DENIED"
| "to_grpc_status_code Unauthenticated = UNAUTHENTICATED"
| "to_grpc_status_code ResourceExhausted = RESOURCE_EXHAUSTED"
| "to_grpc_status_code FailedPrecondition = FAILED_PRECONDITION"
| "to_grpc_status_code Aborted = ABORTED"
| "to_grpc_status_code OutOfRange = OUT_OF_RANGE"
| "to_grpc_status_code Unimplemented = UNIMPLEMENTED"
| "to_grpc_status_code Internal = INTERNAL"
| "to_grpc_status_code Unavailable = UNAVAILABLE"
| "to_grpc_status_code DataLoss = DATA_LOSS"
| "to_grpc_status_code Unspecified = DO_NOT_USE"
| "to_grpc_status_code (RawCode _) = UNKNOWN"

section \<open>The error category\<close>

definition category_name :: string where
  "category_name = ''rpc-status-code''"

fun code_message :: "rpc_status_code \<Rightarrow> string" where
  "code_message Ok = ''Success''"
| "code_message Cancelled = ''The operation was cancelled, typically by the caller''"
| "code_message Unknown = ''Unknown error''"
| "code_message InvalidArgument = ''The client specified an invalid argument''"
| "code_message DeadlineExceeded =
     ''The deadline expired before the operation could complete''"
| "code_message NotFound =
     ''Some requested entity (e.g., file or directory) was not found''"
| "code_message AlreadyExists =
     ''The entity that a client attempted to create (e.g., file or directory) already '' @
     ''exists''"
| "code_message PermissionDenied = ''Permission denied''"
| "code_message ResourceExhausted =
     ''Some resource has been exhausted, perhaps a per-user quota, or perhaps the entire '' @
     ''file system is out of space''"
| "code_message FailedPrecondition =
     ''The operation was rejected because the system is not in a state required for the '' @
     ''operation's execution''"
| "code_message Aborted = ''The operation was aborted''"
| "code_message OutOfRange =
     ''The operation was attempted past a valid range of some kind -- e.g., reading past '' @
     ''the end of a file''"
| "code_message Unimplemented =
     ''The operation is not implemented or is not supported/enabled in this service''"
| "code_message Internal =
     ''Internal error; some invariants expected by the underlying system have been '' @
     ''broken''"
| "code_message Unavailable = ''The service is currently unavailable''"
| "code_message DataLoss = ''Unrecoverable data loss or corruption''"
| "code_message Unauthenticated = ''Unauthenticated access''"
| "code_message Unspecified = ''Some unspecified error''"
| "code_message (RawCode _) = ''(unknown error)''"

definition category_message :: "int \<Rightarrow> string" where
  "category_message e = code_message (code_of_int e)"

section \<open>The value class RpcStatus\<close>

text \<open>
  A \<open>std::error_code\<close> is a number and a \<^emph>\<open>pointer\<close> to a category object. Which category
  objects are alive is the state \<open>lifetimes\<close>: every object has an identity of its own, and
  identities are never reused. \<open>to_error_code\<close> creates a temporary
  \<open>RpcStatusCodeCategory{}\<close>, stores its address in the code, and the temporary ends with
  the \<open>return\<close> statement.
\<close>

record lifetimes =
  next_object :: nat
  live_objects :: "nat set"

record error_code =
  ec_value :: int
  ec_category :: nat

record rpc_status =
  rs_details :: string
  rs_error_code :: error_code

datatype lifetime_error = DanglingCategory

definition lifetimes_wf :: "lifetimes \<Rightarrow> bool" where
  "lifetimes_wf h \<longleftrightarrow> (\<forall>a \<in> live_objects h. a < next_object h)"

definition create_object :: "lifetimes \<Rightarrow> nat \<times> lifetimes" where
  "create_object h =
     (next_object h,
      h\<lparr>next_object := Suc (next_object h),
        live_objects := insert (next_object h) (live_objects h)\<rparr>)"

definition destroy_object :: "nat \<Rightarrow> lifetimes \<Rightarrow> lifetimes" where
  "destroy_object a h = h\<lparr>live_objects := live_objects h - {a}\<rparr>"

definition to_error_code :: "rpc_status_code \<Rightarrow> lifetimes \<Rightarrow> error_code \<times> lifetimes" where
  "to_error_code code h =
     (let (category, h1) = create_object h;
          result = \<lparr>ec_value = int_of_code code, ec_category = category\<rparr>;
          h2 = destroy_object category h1
      in (result, h2))"

text \<open>The two constructors; the first has \<open>Ok\<close> as its default argument.\<close>

definition RpcStatus_code :: "rpc_status_code \<Rightarrow> lifetimes \<Rightarrow> rpc_status \<times> lifetimes" where
  "RpcStatus_code code h =
     (let (ec, h1) = to_error_code code h in (\<lparr>rs_details = [], rs_error_code = ec\<rparr>, h1))"

definition RpcStatus_details ::
  "rpc_status_code \<Rightarrow> string \<Rightarrow> lifetimes \<Rightarrow> rpc_status \<times> lifetimes" where
  "RpcStatus_details code det h =
     (let (ec, h1) = to_error_code code h in (\<lparr>rs_details = det, rs_error_code = ec\<rparr>, h1))"

definition status_ec :: "rpc_status \<Rightarrow> error_code" where
  "status_ec st = rs_error_code st"

definition status_error_code :: "rpc_status \<Rightarrow> rpc_status_code" where
  "status_error_code st = code_of_int (ec_value (status_ec st))"

definition status_ok :: "rpc_status \<Rightarrow> bool" where
  "status_ok st \<longleftrightarrow> status_error_code st = Ok"

definition status_details :: "rpc_status \<Rightarrow> string" where
  "status_details st = rs_details st"

text \<open>\<open>error_code::message\<close> is a virtual call on the category object the code points to.\<close>

definition status_error_message :: "rpc_status \<Rightarrow> lifetimes \<Rightarrow> lifetime_error + string" where
  "status_error_message st h =
     (if ec_category (rs_error_code st) \<in> live_objects h
      then Inr (category_message (ec_value (rs_error_code st)))
      else Inl DanglingCategory)"

text \<open>\<open>h'\<close> is a state of the objects at some time after \<open>h\<close>: dead objects stay dead.\<close>

definition later :: "lifetimes \<Rightarrow> lifetimes \<Rightarrow> bool" where
  "later h h' \<longleftrightarrow> next_object h \<le> next_object h' \<and>
     (\<forall>a \<in> live_objects h'. a < next_object h \<longrightarrow> a \<in> live_objects h)"

section \<open>Lemmas\<close>

lemma code_of_int_enumerator:
  "i < length rpc_enumerators \<Longrightarrow> code_of_int (int i) = rpc_enumerators ! i"
  by (simp add: code_of_int_def)

lemma code_of_int_of_code [simp]: "code_wf c \<Longrightarrow> code_of_int (int_of_code c) = c"
  by (cases c) (auto simp: code_of_int_def rpc_enumerators_def)

lemma code_of_int_raw: "e < 0 \<or> 18 \<le> e \<Longrightarrow> code_of_int e = RawCode e"
  by (auto simp: code_of_int_def rpc_enumerators_def)

lemma int_interval_18:
  "0 \<le> (e::int) \<Longrightarrow> e < 18 \<Longrightarrow>
   e = 0 \<or> e = 1 \<or> e = 2 \<or> e = 3 \<or> e = 4 \<or> e = 5 \<or> e = 6 \<or> e = 7 \<or> e = 8 \<or> e = 9 \<or>
   e = 10 \<or> e = 11 \<or> e = 12 \<or> e = 13 \<or> e = 14 \<or> e = 15 \<or> e = 16 \<or> e = 17"
  by presburger

lemma int_of_code_of_int [simp]: "int_of_code (code_of_int e) = e"
proof (cases "0 \<le> e \<and> e < 18")
  case True
  then show ?thesis
    using int_interval_18 [of e] by (auto simp: code_of_int_def rpc_enumerators_def)
next
  case False
  then show ?thesis by (auto simp: code_of_int_raw)
qed

lemma code_wf_code_of_int [simp]: "code_wf (code_of_int e)"
proof (cases "0 \<le> e \<and> e < 18")
  case True
  then show ?thesis
    using int_interval_18 [of e] by (auto simp: code_of_int_def rpc_enumerators_def)
next
  case False
  then show ?thesis by (auto simp: code_of_int_raw)
qed

lemma to_rpc_to_grpc: "c \<in> set rpc_enumerators \<Longrightarrow> to_rpc_status_code (to_grpc_status_code c) = c"
  by (auto simp: rpc_enumerators_def)

lemma to_grpc_to_rpc: "(\<And>i. g \<noteq> RAW i) \<Longrightarrow> to_grpc_status_code (to_rpc_status_code g) = g"
  by (cases g) auto

lemma enumerator_wf: "c \<in> set rpc_enumerators \<Longrightarrow> code_wf c"
  by (auto simp: rpc_enumerators_def)

lemmas status_defs =
  RpcStatus_code_def RpcStatus_details_def to_error_code_def create_object_def
  destroy_object_def status_ec_def status_error_code_def status_ok_def status_details_def

lemma RpcStatus_details_category:
  "RpcStatus_details c det h = (st, h') \<Longrightarrow>
     ec_category (rs_error_code st) < next_object h' \<and> ec_category (rs_error_code st) \<notin> live_objects h'"
  by (auto simp: status_defs)

lemma RpcStatus_lifetimes_wf:
  "lifetimes_wf h \<Longrightarrow> RpcStatus_details c det h = (st, h') \<Longrightarrow> lifetimes_wf h'"
  by (force simp: status_defs lifetimes_wf_def)

lemma later_refl [simp]: "later h h"
  by (simp add: later_def)

lemma later_dead: "later h h' \<Longrightarrow> a < next_object h \<Longrightarrow> a \<notin> live_objects h \<Longrightarrow> a \<notin> live_objects h'"
  by (auto simp: later_def)

section \<open>Properties\<close>

text \<open>
  The translations between the two code enumerations are inverse to each other on the
  enumerators, \<open>Ok\<close> and \<open>OK\<close> are translated to each other only, and a raw value
  of either side falls to \<open>Unspecified\<close> resp. \<open>UNKNOWN\<close>, never to success.
\<close>

theorem status_code_translation:
  "(\<forall>c. to_rpc_status_code (to_grpc_status_code c) =
        (case c of RawCode _ \<Rightarrow> Unknown | _ \<Rightarrow> c)) \<and>
   (\<forall>g. to_grpc_status_code (to_rpc_status_code g) =
        (case g of RAW _ \<Rightarrow> DO_NOT_USE | _ \<Rightarrow> g)) \<and>
   (\<forall>g. to_rpc_status_code g = Ok \<longleftrightarrow> g = OK) \<and>
   (\<forall>c. to_grpc_status_code c = OK \<longleftrightarrow> c = Ok)"
proof (intro conjI allI)
  fix c show "to_rpc_status_code (to_grpc_status_code c) = (case c of RawCode _ \<Rightarrow> Unknown | _ \<Rightarrow> c)"
    by (cases c) auto
next
  fix g show "to_grpc_status_code (to_rpc_status_code g) = (case g of RAW _ \<Rightarrow> DO_NOT_USE | _ \<Rightarrow> g)"
    by (cases g) auto
next
  fix g show "to_rpc_status_code g = Ok \<longleftrightarrow> g = OK"
    by (cases g) auto
next
  fix c show "to_grpc_status_code c = OK \<longleftrightarrow> c = Ok"
    by (cases c) auto
qed

text \<open>
  An \<open>RpcStatus\<close> keeps what it was built from: for every well-formed code,
  \<open>error_code()\<close> returns it, \<open>details()\<close> returns the details, and \<open>ok()\<close> holds exactly
  for \<open>Ok\<close>, although the code is stored as the number of a \<open>std::error_code\<close>.
\<close>

theorem RpcStatus_roundtrip:
  assumes "code_wf c" and "RpcStatus_details c det h = (st, h')"
  shows "status_error_code st = c \<and> status_details st = det \<and> (status_ok st \<longleftrightarrow> c = Ok)"
proof -
  from assms(2) have st: "st = \<lparr>rs_details = det,
      rs_error_code = \<lparr>ec_value = int_of_code c, ec_category = next_object h\<rparr>\<rparr>"
    by (simp add: status_defs)
  have "status_error_code st = c"
    using assms(1) by (simp add: st status_error_code_def status_ec_def)
  then show ?thesis by (simp add: status_ok_def status_details_def st)
qed

lemma RpcStatus_roundtrip_witness:
  "let h = \<lparr>next_object = 3, live_objects = {1}\<rparr>;
       st = fst (RpcStatus_details DataLoss ''disk'' h)
   in status_error_code st = DataLoss \<and> status_details st = ''disk'' \<and> \<not> status_ok st"
  using RpcStatus_roundtrip [of DataLoss "''disk''" "\<lparr>next_object = 3, live_objects = {1}\<rparr>"
      "fst (RpcStatus_details DataLoss ''disk'' \<lparr>next_object = 3, live_objects = {1}\<rparr>)"
      "snd (RpcStatus_details DataLoss ''disk'' \<lparr>next_object = 3, live_objects = {1}\<rparr>)"]
  by (simp add: Let_def)

text \<open>
  The category gives every number a message: the 18 enumerators have 18 different
  messages, none of them the fallback, and the fallback is given for exactly the numbers
  outside the enumeration.
\<close>

theorem category_message_distinct:
  "distinct (map category_message (map int_of_code rpc_enumerators)) \<and>
   (\<forall>e. category_message e = ''(unknown error)'' \<longleftrightarrow> e < 0 \<or> 18 \<le> e)"
proof (intro conjI allI)
  show "distinct (map category_message (map int_of_code rpc_enumerators))"
    by (simp add: rpc_enumerators_def category_message_def code_of_int_def)
next
  fix e :: int
  show "category_message e = ''(unknown error)'' \<longleftrightarrow> e < 0 \<or> 18 \<le> e"
  proof (cases "0 \<le> e \<and> e < 18")
    case True
    then show ?thesis
      using int_interval_18 [of e]
      by (auto simp: category_message_def code_of_int_def rpc_enumerators_def)
  next
    case False
    then show ?thesis by (auto simp: category_message_def code_of_int_raw)
  qed
qed

text \<open>
  C40. The category an \<open>RpcStatus\<close> refers to is dead as soon as the constructor has
  returned, so \<open>error_message()\<close> calls through a dangling reference at every later time,
  whatever code and details the status was built from, while \<open>error_code()\<close> stays sound.
\<close>

theorem error_message_dangles:
  assumes "RpcStatus_details c det h = (st, h')" and "later h' h''"
  shows "status_error_message st h'' = Inl DanglingCategory"
  using later_dead [OF assms(2)] RpcStatus_details_category [OF assms(1)]
  by (simp add: status_error_message_def)

lemma error_message_dangles_witness:
  "let (st, h') = RpcStatus_details NotFound ''x'' \<lparr>next_object = 5, live_objects = {2, 4}\<rparr>
   in status_error_message st h' = Inl DanglingCategory"
proof -
  obtain st h' where eq: "RpcStatus_details NotFound ''x'' \<lparr>next_object = 5, live_objects = {2, 4}\<rparr> = (st, h')"
    by (cases "RpcStatus_details NotFound ''x'' \<lparr>next_object = 5, live_objects = {2, 4}\<rparr>")
  from error_message_dangles [OF eq later_refl] eq show ?thesis by simp
qed

end
