(* ===== verification/Deadline.thy ===== *)
theory Deadline
  imports Prelude "HOL-Library.Signed_Division"
begin

text \<open>
  The conversion of a \<open>std::chrono::nanoseconds\<close> duration to a \<open>gpr_timespec\<close>
  (\<open>duration_to_grp_timespec\<close> in \<open>sgrpc/detail/utils.hpp\<close>). Durations are counts of a
  64-bit integer; \<open>duration_cast\<close> to whole seconds truncates towards zero, as the integer
  division of the language does.
\<close>

section \<open>Definitions\<close>

datatype gpr_clock_type = GPR_CLOCK_MONOTONIC

record gpr_timespec =
  clock_type :: gpr_clock_type
  tv_sec :: int
  tv_nsec :: int

definition nanos_per_second :: int where
  "nanos_per_second = 1000000000"

definition duration_cast_seconds :: "int \<Rightarrow> int" where
  "duration_cast_seconds delta = delta sdiv nanos_per_second"

definition duration_to_grp_timespec :: "int \<Rightarrow> gpr_timespec" where
  "duration_to_grp_timespec delta =
     (let seconds = duration_cast_seconds delta;
          nanos = delta - seconds * nanos_per_second
      in \<lparr>clock_type = GPR_CLOCK_MONOTONIC, tv_sec = seconds, tv_nsec = nanos\<rparr>)"

text \<open>The values of \<open>std::chrono::nanoseconds\<close>, and of the two fields of the struct.\<close>

definition fits_int :: "nat \<Rightarrow> int \<Rightarrow> bool" where
  "fits_int w x \<longleftrightarrow> - (2 ^ (w - 1)) \<le> x \<and> x < 2 ^ (w - 1)"

section \<open>Lemmas\<close>

lemma timespec_nsec: "tv_nsec (duration_to_grp_timespec delta) = delta smod nanos_per_second"
  by (simp add: duration_to_grp_timespec_def duration_cast_seconds_def Let_def
      minus_sdiv_mult_eq_smod)

lemma smod_nonneg: "0 \<le> delta \<Longrightarrow> delta smod nanos_per_second = delta mod nanos_per_second"
  by (cases "delta = 0")
     (simp_all add: signed_modulo_int_def nanos_per_second_def sgn_if)

lemma smod_neg: "delta < 0 \<Longrightarrow> delta smod nanos_per_second = - ((- delta) mod nanos_per_second)"
  by (simp add: signed_modulo_int_def nanos_per_second_def sgn_if)

lemma nanos_per_second_pos [simp]: "0 < nanos_per_second"
  by (simp add: nanos_per_second_def)

section \<open>Properties\<close>

text \<open>
  The conversion is exact and its parts fit the fields they are stored in (64 and 32
  bits): seconds and nanoseconds add up to the duration, the nanoseconds are less than one
  second in magnitude and never have the sign opposite to the duration's. In particular a
  duration that is not negative gives a normalised time (nanoseconds from 0 to 999999999).
\<close>

theorem timespec_exact:
  assumes "fits_int 64 delta"
  shows "let t = duration_to_grp_timespec delta in
     tv_sec t * nanos_per_second + tv_nsec t = delta \<and>
     \<bar>tv_nsec t\<bar> < nanos_per_second \<and>
     (0 \<le> delta \<longrightarrow> 0 \<le> tv_nsec t \<and> 0 \<le> tv_sec t) \<and> (delta \<le> 0 \<longrightarrow> tv_nsec t \<le> 0 \<and> tv_sec t \<le> 0) \<and>
     fits_int 64 (tv_sec t) \<and> fits_int 32 (tv_nsec t)"
proof -
  let ?t = "duration_to_grp_timespec delta"
  have sum: "tv_sec ?t * nanos_per_second + tv_nsec ?t = delta"
    by (simp add: duration_to_grp_timespec_def Let_def)
  have ns: "(0 \<le> delta \<longrightarrow> 0 \<le> tv_nsec ?t \<and> tv_nsec ?t < nanos_per_second) \<and>
            (delta \<le> 0 \<longrightarrow> tv_nsec ?t \<le> 0 \<and> - nanos_per_second < tv_nsec ?t)"
    by (cases "0 \<le> delta") (auto simp: timespec_nsec smod_nonneg smod_neg)
  show ?thesis
    using sum ns assms by (auto simp: Let_def fits_int_def nanos_per_second_def)
qed

lemma timespec_exact_witness:
  "fits_int 64 (-1500000000) \<and>
   (let t = duration_to_grp_timespec (-1500000000) in
      tv_sec t * nanos_per_second + tv_nsec t = -1500000000 \<and> tv_nsec t \<le> 0)"
proof -
  have "fits_int 64 (-1500000000)" by (simp add: fits_int_def)
  from timespec_exact [OF this] this show ?thesis by (simp add: Let_def)
qed

text \<open>
  A negative duration that is not a whole number of seconds gives a time with negative
  nanoseconds, outside the range a normalised time has.
\<close>

theorem timespec_negative_not_normalised:
  assumes "delta < 0" and "delta mod nanos_per_second \<noteq> 0"
  shows "tv_nsec (duration_to_grp_timespec delta) < 0"
proof -
  have "(- delta) mod nanos_per_second \<noteq> 0"
    using assms(2) by (simp add: mod_eq_0_iff_dvd)
  moreover have "0 \<le> (- delta) mod nanos_per_second"
    by (simp add: nanos_per_second_def)
  ultimately have "0 < (- delta) mod nanos_per_second" by linarith
  then show ?thesis
    using assms(1) by (simp add: timespec_nsec smod_neg)
qed

lemma timespec_negative_witness:
  "tv_nsec (duration_to_grp_timespec (-1)) < 0"
  by (rule timespec_negative_not_normalised) (simp_all add: nanos_per_second_def)

end
