(* ===== verification/Optimistic_Queue.thy ===== *)
theory Optimistic_Queue
  imports Prelude
begin

text \<open>
  The building block of the task queue: \<open>OptimisiticLockingQueue<T>\<close> of
  \<open>sgrpc/detail/atomic_task_stealing_queue.hpp\<close>, a deque with a mutex, whose push and pop
  only \<^emph>\<open>try\<close> to lock. The mutex is the name of the thread that holds it, if any. The
  theory also states the two contracts the library relies on, a bag of tasks and a FIFO
  queue, and shows that the single queue meets both.
\<close>

section \<open>The contracts\<close>

text \<open>
  A queue is used by sequences of pushes and pops. \<open>push\<close> may not return (\<open>None\<close>); it
  says whether it accepted the element. \<open>ok k q\<close> is what the provider needs to hold for
  the next \<open>k\<close> operations.
\<close>

datatype 'a qop = QPush 'a | QPop

fun run_qops ::
  "('a \<Rightarrow> 'q \<Rightarrow> (bool \<times> 'q) option) \<Rightarrow> ('q \<Rightarrow> 'a option \<times> 'q) \<Rightarrow> 'a qop list \<Rightarrow> 'q
     \<Rightarrow> ('a list \<times> 'a list \<times> 'q) option" where
  "run_qops push pop [] q = Some ([], [], q)"
| "run_qops push pop (QPush x # ops) q =
     (case push x q of None \<Rightarrow> None
      | Some (b, q1) \<Rightarrow>
          (case run_qops push pop ops q1 of None \<Rightarrow> None
           | Some (acc, got, q2) \<Rightarrow> Some (if b then x # acc else acc, got, q2)))"
| "run_qops push pop (QPop # ops) q =
     (case pop q of (r, q1) \<Rightarrow>
        (case run_qops push pop ops q1 of None \<Rightarrow> None
         | Some (acc, got, q2) \<Rightarrow>
             Some (acc, (case r of None \<Rightarrow> got | Some v \<Rightarrow> v # got), q2)))"

text \<open>Sequences that never pop more than is there, given how much is there at the start.\<close>

fun pops_served :: "nat \<Rightarrow> 'a qop list \<Rightarrow> bool" where
  "pops_served n [] = True"
| "pops_served n (QPush x # ops) = pops_served (Suc n) ops"
| "pops_served n (QPop # ops) = (0 < n \<and> pops_served (n - 1) ops)"

locale task_bag =
  fixes ok :: "nat \<Rightarrow> 'q \<Rightarrow> bool"
    and bag :: "'q \<Rightarrow> 'a multiset"
    and push :: "'a \<Rightarrow> 'q \<Rightarrow> (bool \<times> 'q) option"
    and pop :: "'q \<Rightarrow> 'a option \<times> 'q"
  assumes push_law: "ok (Suc k) q \<Longrightarrow>
      \<exists>b q'. push x q = Some (b, q') \<and> ok k q' \<and> bag q' = bag q + (if b then {#x#} else {#})"
    and pop_law: "ok (Suc k) q \<Longrightarrow> pop q = (r, q') \<Longrightarrow>
      ok k q' \<and> bag q = bag q' + (case r of None \<Rightarrow> {#} | Some v \<Rightarrow> {#v#})"
begin

text \<open>Nothing is lost, duplicated or invented, and every sequence of operations returns.\<close>

lemma run_conserves:
  "ok (length ops) q \<Longrightarrow>
     \<exists>acc got q'. run_qops push pop ops q = Some (acc, got, q') \<and> ok 0 q' \<and>
       bag q + mset acc = bag q' + mset got"
proof (induction ops arbitrary: q)
  case Nil
  then show ?case by simp
next
  case (Cons op ops)
  then have ok: "ok (Suc (length ops)) q" by simp
  show ?case
  proof (cases op)
    case (QPush x)
    from push_law [OF ok, of x] obtain b q1 where
      q1: "push x q = Some (b, q1)" "ok (length ops) q1"
          "bag q1 = bag q + (if b then {#x#} else {#})" by blast
    from Cons.IH [OF q1(2)] q1 QPush show ?thesis by auto
  next
    case QPop
    obtain r q1 where pop: "pop q = (r, q1)" by fastforce
    from pop_law [OF ok pop] have q1: "ok (length ops) q1"
      "bag q = bag q1 + (case r of None \<Rightarrow> {#} | Some v \<Rightarrow> {#v#})" by auto
    from Cons.IH [OF q1(1)] q1 QPop pop show ?thesis
      by (auto split: option.splits)
  qed
qed

end

text \<open>The elements a sequence of operations pushes.\<close>

fun pushes :: "'a qop list \<Rightarrow> 'a list" where
  "pushes [] = []"
| "pushes (QPush x # ops) = x # pushes ops"
| "pushes (QPop # ops) = pushes ops"

locale fifo_queue =
  fixes ok :: "nat \<Rightarrow> 'q \<Rightarrow> bool"
    and items :: "'q \<Rightarrow> 'a list"
    and push :: "'a \<Rightarrow> 'q \<Rightarrow> (bool \<times> 'q) option"
    and pop :: "'q \<Rightarrow> 'a option \<times> 'q"
  assumes push_items: "ok (Suc k) q \<Longrightarrow>
      \<exists>q'. push x q = Some (True, q') \<and> ok k q' \<and> items q' = items q @ [x]"
    and pop_items: "ok (Suc k) q \<Longrightarrow> items q = v # vs \<Longrightarrow>
      \<exists>q'. pop q = (Some v, q') \<and> ok k q' \<and> items q' = vs"
begin

text \<open>Elements leave in the order they came, whatever the interleaving of pushes and pops.\<close>

lemma run_fifo:
  "ok (length ops) q \<Longrightarrow> pops_served (length (items q)) ops \<Longrightarrow>
     \<exists>got q'. run_qops push pop ops q = Some (pushes ops, got, q') \<and> ok 0 q' \<and>
       got @ items q' = items q @ pushes ops"
proof (induction ops arbitrary: q)
  case Nil
  then show ?case by simp
next
  case (Cons op ops)
  then have ok: "ok (Suc (length ops)) q" by simp
  show ?case
  proof (cases op)
    case (QPush x)
    from push_items [OF ok, of x] obtain q1 where
      q1: "push x q = Some (True, q1)" "ok (length ops) q1" "items q1 = items q @ [x]" by blast
    from Cons.IH [OF q1(2)] Cons.prems(2) q1 QPush show ?thesis by auto
  next
    case QPop
    with Cons.prems(2) obtain v vs where vs: "items q = v # vs" by (cases "items q") auto
    from pop_items [OF ok vs] obtain q1 where
      q1: "pop q = (Some v, q1)" "ok (length ops) q1" "items q1 = vs" by blast
    from Cons.IH [OF q1(2)] Cons.prems(2) q1 QPop vs show ?thesis by auto
  qed
qed

end

section \<open>The queue\<close>

record 'a olq =
  olq_queue :: "'a list"
  olq_padlock :: "nat option"

definition empty_olq :: "'a olq" where
  "empty_olq = \<lparr>olq_queue = [], olq_padlock = None\<rparr>"

text \<open>
  The move assignment of the element type, \<open>x = std::move(v)\<close>: it throws, leaving some
  values in target and source, or the target has the value. \<open>T\<close> is a parameter of the
  template; \<open>std::function\<close>, which the library uses, never throws.
\<close>

type_synonym 'a mover = "'a option \<Rightarrow> 'a \<Rightarrow> ('a option \<times> 'a) + 'a"

definition function_move :: "'a mover" where
  "function_move x v = Inr v"

text \<open>
  The bodies of the critical sections, without the lock. The target of a pop is an
  in/out parameter: \<open>None\<close> is an empty \<open>std::function\<close>.
\<close>

definition pop_body :: "'a mover \<Rightarrow> 'a option \<Rightarrow> 'a olq \<Rightarrow> bool \<times> 'a option \<times> 'a olq" where
  "pop_body mv x q =
     (case olq_queue q of
        [] \<Rightarrow> (False, x, q)
      | v # vs \<Rightarrow>
          (case mv x v of
             Inr v' \<Rightarrow> (True, Some v', q\<lparr>olq_queue := vs\<rparr>)
           | Inl (x', v') \<Rightarrow> (False, x', q\<lparr>olq_queue := v' # vs\<rparr>)))"

definition push_body :: "'a \<Rightarrow> 'a olq \<Rightarrow> 'a olq" where
  "push_body f q = q\<lparr>olq_queue := olq_queue q @ [f]\<rparr>"

definition eject_body :: "'a olq \<Rightarrow> 'a list \<times> 'a olq" where
  "eject_body q = (olq_queue q, q\<lparr>olq_queue := []\<rparr>)"

text \<open>
  The operations. \<open>try_push\<close> also returns what its argument holds afterwards. \<open>eject\<close>
  waits for the lock: with nobody to release it, it does not return.
\<close>

definition olq_try_pop :: "'a mover \<Rightarrow> 'a option \<Rightarrow> 'a olq \<Rightarrow> bool \<times> 'a option \<times> 'a olq" where
  "olq_try_pop mv x q =
     (if olq_padlock q \<noteq> None \<or> olq_queue q = [] then (False, x, q) else pop_body mv x q)"

definition olq_try_push :: "'a \<Rightarrow> 'a olq \<Rightarrow> bool \<times> 'a option \<times> 'a olq" where
  "olq_try_push f q =
     (if olq_padlock q \<noteq> None then (False, Some f, q) else (True, None, push_body f q))"

definition olq_eject :: "'a olq \<Rightarrow> ('a list \<times> 'a olq) option" where
  "olq_eject q = (if olq_padlock q \<noteq> None then None else Some (eject_body q))"

section \<open>Lemmas\<close>

lemma empty_olq_simps [simp]: "olq_queue empty_olq = []" "olq_padlock empty_olq = None"
  by (simp_all add: empty_olq_def)

lemma pop_body_function:
  "pop_body function_move x q =
     (case olq_queue q of [] \<Rightarrow> (False, x, q) | v # vs \<Rightarrow> (True, Some v, q\<lparr>olq_queue := vs\<rparr>))"
  by (simp add: pop_body_def function_move_def split: list.split)

lemma try_pop_function:
  "olq_try_pop function_move x q =
     (if olq_padlock q = None \<and> olq_queue q \<noteq> []
      then (True, Some (hd (olq_queue q)), q\<lparr>olq_queue := tl (olq_queue q)\<rparr>)
      else (False, x, q))"
  by (auto simp: olq_try_pop_def pop_body_function split: list.split)

lemma padlock_frame [frame_simps]:
  "olq_padlock (push_body f q) = olq_padlock q"
  "olq_padlock (snd (snd (pop_body mv x q))) = olq_padlock q"
  "olq_padlock (snd (eject_body q)) = olq_padlock q"
  by (simp_all add: push_body_def pop_body_def eject_body_def split: list.split sum.split prod.split)

text \<open>The single queue, its lock free, is a FIFO queue.\<close>

definition olq_push :: "'a \<Rightarrow> 'a olq \<Rightarrow> (bool \<times> 'a olq) option" where
  "olq_push f q = (case olq_try_push f q of (b, _, q') \<Rightarrow> Some (b, q'))"

definition olq_pop :: "'a olq \<Rightarrow> 'a option \<times> 'a olq" where
  "olq_pop q = (case olq_try_pop function_move None q of (b, x, q') \<Rightarrow> (x, q'))"

interpretation olq: fifo_queue "\<lambda>k q. olq_padlock q = None" olq_queue olq_push olq_pop
  by unfold_locales
     (auto simp: olq_push_def olq_try_push_def push_body_def olq_pop_def try_pop_function)

interpretation olq: task_bag
  "\<lambda>k q. olq_padlock q = None" "\<lambda>q. mset (olq_queue q)" olq_push olq_pop
proof (unfold_locales, goal_cases)
  case (1 k q x)
  then show ?case by (auto simp: olq_push_def olq_try_push_def push_body_def)
next
  case (2 k q r q')
  then show ?case
    by (cases "olq_queue q") (auto simp: olq_pop_def try_pop_function)
qed

section \<open>Properties\<close>

text \<open>
  The documented contract of \<open>try_pop\<close>, for any element type: given an empty target,
  the target holds a value afterwards exactly if the call returned true, provided a
  throwing move leaves the target empty. A true result means that the lock was free and
  that the front, and nothing else, left the queue; with the lock held by someone, or on
  an empty queue, nothing changes.
\<close>

theorem try_pop_contract:
  assumes mv: "\<And>v x' v'. mv None v = Inl (x', v') \<Longrightarrow> x' = None"
    and call: "olq_try_pop mv None q = (b, x, q')"
  shows "(b \<longleftrightarrow> x \<noteq> None) \<and>
    (b \<longrightarrow> olq_padlock q = None \<and> (\<exists>v. olq_queue q = v # olq_queue q' \<and> mv None v = Inr (the x))) \<and>
    (olq_padlock q \<noteq> None \<or> olq_queue q = [] \<longrightarrow> \<not> b \<and> q' = q)"
proof (cases "olq_padlock q \<noteq> None \<or> olq_queue q = []")
  case True
  with call show ?thesis by (auto simp: olq_try_pop_def)
next
  case False
  then obtain v vs where vs: "olq_queue q = v # vs" by (auto simp: neq_Nil_conv)
  show ?thesis
  proof (cases "mv None v")
    case (Inl p)
    then show ?thesis using call False vs mv [of v "fst p" "snd p"]
      by (cases p) (auto simp: olq_try_pop_def pop_body_def)
  next
    case (Inr v')
    then show ?thesis using call False vs by (auto simp: olq_try_pop_def pop_body_def)
  qed
qed

lemma try_pop_contract_witness:
  "olq_try_pop function_move None \<lparr>olq_queue = [7, 8 :: nat], olq_padlock = None\<rparr>
     = (True, Some 7, \<lparr>olq_queue = [8], olq_padlock = None\<rparr>) \<and> (True \<longleftrightarrow> Some (7::nat) \<noteq> None)"
  using try_pop_contract [of function_move "\<lparr>olq_queue = [7, 8 :: nat], olq_padlock = None\<rparr>"
      True "Some 7" "\<lparr>olq_queue = [8], olq_padlock = None\<rparr>"]
  by (simp add: olq_try_pop_def pop_body_def function_move_def)

text \<open>
  The single queue is first in, first out: any sequence of pushes and pops on an
  unlocked queue that does not pop from the empty queue returns all it is asked for, and what was popped
  followed by what is left is what was there followed by what was pushed, in order.
\<close>

theorem optimistic_queue_fifo:
  assumes "olq_padlock q = None" and "pops_served (length (olq_queue q)) ops"
  shows "\<exists>got q'. run_qops olq_push olq_pop ops q = Some (pushes ops, got, q') \<and>
           olq_padlock q' = None \<and> got @ olq_queue q' = olq_queue q @ pushes ops"
  using olq.run_fifo [OF assms] .

lemma optimistic_queue_fifo_witness:
  "\<exists>got q'. run_qops olq_push olq_pop [QPush 1, QPush 2, QPop, QPush 3, QPop] (empty_olq :: nat olq)
       = Some ([1, 2, 3], got, q') \<and>
     olq_padlock q' = None \<and> got @ olq_queue q' = [1, 2, 3]"
  using optimistic_queue_fifo [of "empty_olq :: nat olq" "[QPush 1, QPush 2, QPop, QPush 3, QPop]"]
  by simp

end
