(* ===== verification/Task_Queue.thy ===== *)
theory Task_Queue
  imports Optimistic_Queue
begin

text \<open>
  \<open>AtomicTaskStealingQueue<T>\<close> of \<open>sgrpc/detail/atomic_task_stealing_queue.hpp\<close>, as one
  thread runs it while no other thread moves: the state is the vector of optimistic queues
  and the atomic counters at their width of 32 bits. A padlock that another thread holds
  stays held, so \<open>push\<close> and \<open>stop_and_eject\<close>, whose loops wait for other threads, are
  partial functions here; the interleaved execution is the theory \<open>Task_Queue_Threads\<close>.
\<close>

section \<open>Definitions\<close>

record 'a tsq =
  ts_queues :: "'a olq list"
  ts_n_queues :: u32
  ts_push_index :: u32
  ts_pop_index :: u32
  ts_in_push :: u32
  ts_is_done :: bool

definition make_tsq :: "u32 \<Rightarrow> 'a tsq" where
  "make_tsq number_queues =
     \<lparr>ts_queues = replicate (unat number_queues) empty_olq, ts_n_queues = number_queues,
      ts_push_index = 0, ts_pop_index = 0, ts_in_push = 0, ts_is_done = False\<rparr>"

definition signal_done :: "'a tsq \<Rightarrow> 'a tsq" where
  "signal_done s = s\<lparr>ts_is_done := True\<rparr>"

definition done_is_signalled :: "'a tsq \<Rightarrow> bool" where
  "done_is_signalled s = ts_is_done s"

text \<open>\<open>(offset + i) % n_queues_\<close>: unsigned 32-bit arithmetic, so the sum wraps around.\<close>

definition slot :: "u32 \<Rightarrow> u32 \<Rightarrow> u32 \<Rightarrow> nat" where
  "slot offset i n = unat ((offset + i) mod n)"

text \<open>The inner loop of \<open>push\<close>, from \<open>i\<close>: true if the thunk was pushed.\<close>

function push_sweep :: "'a \<Rightarrow> u32 \<Rightarrow> u32 \<Rightarrow> u32 \<Rightarrow> 'a olq list \<Rightarrow> bool \<times> 'a olq list" where
  "push_sweep thunk offset n i qs =
     (if i = n then (False, qs)
      else (case olq_try_push thunk (qs ! slot offset i n) of
              (did_push, _, q') \<Rightarrow>
                (if did_push then (True, qs[slot offset i n := q'])
                 else push_sweep thunk offset n (i + 1) qs)))"
  by pat_completeness auto
termination
  by (relation "measure (\<lambda>(thunk, offset, n, i, qs). unat (n - i))")
     (auto simp: unat_diff_Suc_less)

declare push_sweep.simps [simp del]

text \<open>The outer loop of \<open>push\<close>: sweep again, from the next offset, until pushed.\<close>

partial_function (option) push_loop :: "'a \<Rightarrow> 'a tsq \<Rightarrow> 'a tsq option" where
  "push_loop thunk s =
     (let offset = ts_push_index s; s1 = s\<lparr>ts_push_index := offset + 1\<rparr>
      in case push_sweep thunk offset (ts_n_queues s1) 0 (ts_queues s1) of
           (did_push, qs) \<Rightarrow>
             (if did_push then Some (s1\<lparr>ts_queues := qs\<rparr>) else push_loop thunk s1))"

definition tsq_push :: "'a \<Rightarrow> 'a tsq \<Rightarrow> (bool \<times> 'a tsq) option" where
  "tsq_push thunk s =
     (let s1 = s\<lparr>ts_in_push := ts_in_push s + 1\<rparr>; is_done = done_is_signalled s1
      in case (if is_done then Some s1 else push_loop thunk s1) of
           None \<Rightarrow> None
         | Some s2 \<Rightarrow> Some (\<not> is_done, s2\<lparr>ts_in_push := ts_in_push s2 - 1\<rparr>))"

text \<open>\<open>try_pop\<close>; the thunk is an in/out parameter.\<close>

function pop_sweep ::
  "'a mover \<Rightarrow> 'a option \<Rightarrow> u32 \<Rightarrow> u32 \<Rightarrow> u32 \<Rightarrow> 'a olq list \<Rightarrow> bool \<times> 'a option \<times> 'a olq list" where
  "pop_sweep mv thunk offset n i qs =
     (if i = n then (False, thunk, qs)
      else (case olq_try_pop mv thunk (qs ! slot offset i n) of
              (did_pop, thunk', q') \<Rightarrow>
                (if did_pop then (True, thunk', qs[slot offset i n := q'])
                 else pop_sweep mv thunk' offset n (i + 1) (qs[slot offset i n := q']))))"
  by pat_completeness auto
termination
  by (relation "measure (\<lambda>(mv, thunk, offset, n, i, qs). unat (n - i))")
     (auto simp: unat_diff_Suc_less)

declare pop_sweep.simps [simp del]

definition tsq_try_pop :: "'a mover \<Rightarrow> 'a option \<Rightarrow> 'a tsq \<Rightarrow> bool \<times> 'a option \<times> 'a tsq" where
  "tsq_try_pop mv thunk s =
     (let offset = ts_pop_index s; s1 = s\<lparr>ts_pop_index := offset + 1\<rparr>
      in case pop_sweep mv thunk offset (ts_n_queues s1) 0 (ts_queues s1) of
           (did_pop, thunk', qs) \<Rightarrow> (did_pop, thunk', s1\<lparr>ts_queues := qs\<rparr>))"

text \<open>One round of the loop of \<open>stop_and_eject\<close> over all queues, from queue \<open>i\<close>.\<close>

function eject_sweep :: "u32 \<Rightarrow> u32 \<Rightarrow> 'a list \<Rightarrow> 'a olq list \<Rightarrow> ('a list \<times> 'a olq list) option" where
  "eject_sweep n i thunks qs =
     (if i = n then Some (thunks, qs)
      else (case olq_eject (qs ! unat i) of
              None \<Rightarrow> None
            | Some (queue_thunks, q') \<Rightarrow>
                eject_sweep n (i + 1) (thunks @ queue_thunks) (qs[unat i := q'])))"
  by pat_completeness auto
termination
  by (relation "measure (\<lambda>(n, i, thunks, qs). unat (n - i))")
     (auto simp: unat_diff_Suc_less)

declare eject_sweep.simps [simp del]

partial_function (option) eject_loop :: "'a list \<Rightarrow> 'a tsq \<Rightarrow> ('a list \<times> 'a tsq) option" where
  "eject_loop thunks s =
     (case eject_sweep (ts_n_queues s) 0 thunks (ts_queues s) of
        None \<Rightarrow> None
      | Some (thunks', qs) \<Rightarrow>
          (if 0 < ts_in_push s then eject_loop thunks' (s\<lparr>ts_queues := qs\<rparr>)
           else Some (thunks', s\<lparr>ts_queues := qs\<rparr>)))"

definition stop_and_eject :: "'a tsq \<Rightarrow> ('a list \<times> 'a tsq) option" where
  "stop_and_eject s = eject_loop [] (signal_done s)"

section \<open>Which queues a sweep visits\<close>

text \<open>The slots that a sweep from \<open>i\<close> tries, in order.\<close>

definition slots :: "u32 \<Rightarrow> u32 \<Rightarrow> u32 \<Rightarrow> nat list" where
  "slots offset i n = map (\<lambda>k. slot offset (of_nat k) n) [unat i..<unat n]"

definition tsq_wf :: "'a tsq \<Rightarrow> bool" where
  "tsq_wf s \<longleftrightarrow> length (ts_queues s) = unat (ts_n_queues s) \<and> ts_n_queues s \<noteq> 0"

text \<open>No wrap-around within the sweep, or one that the number of queues divides.\<close>

definition sweep_aligned :: "u32 \<Rightarrow> u32 \<Rightarrow> bool" where
  "sweep_aligned offset n \<longleftrightarrow> unat offset + unat n \<le> 2 ^ 32 \<or> unat n dvd 2 ^ 32"

lemma slot_less: "n \<noteq> 0 \<Longrightarrow> slot offset i n < unat n"
  by (simp add: slot_def unat_mod_word unat_gt_0)

lemma slots_Nil [simp]: "slots offset n n = []"
  by (simp add: slots_def)

lemma unat_Suc_le: "i < (n :: u32) \<Longrightarrow> unat (i + 1) = Suc (unat i)"
  using unat_u32_lt [of n]
  by (subst unat_add_small) (simp_all add: word_less_nat_alt)

lemma slots_Cons: "i < n \<Longrightarrow> slots offset i n = slot offset i n # slots offset (i + 1) n"
  by (simp add: slots_def unat_Suc_le upt_conv_Cons word_less_nat_alt)

lemma slots_bound: "n \<noteq> 0 \<Longrightarrow> j \<in> set (slots offset i n) \<Longrightarrow> j < unat n"
  by (auto simp: slots_def slot_less)

lemma slot_aligned:
  assumes "sweep_aligned offset n" and "k < unat n"
  shows "slot offset (of_nat k) n = (unat offset + k) mod unat n"
proof -
  have k: "k < 2 ^ 32" using assms(2) unat_u32_lt [of n] by simp
  then have unat_k: "unat (of_nat k :: u32) = k" by (simp add: unat_of_nat)
  have "unat (offset + of_nat k) mod unat n = (unat offset + k) mod 2 ^ 32 mod unat n"
    by (simp add: unat_word_ariths unat_k)
  also have "\<dots> = (unat offset + k) mod unat n"
    using assms by (auto simp: sweep_aligned_def mod_mod_cancel)
  finally show ?thesis by (simp add: slot_def unat_mod_word)
qed

lemma slots_rotate:
  assumes "sweep_aligned offset n"
  shows "slots offset 0 n = rotate (unat offset) [0..<unat n]"
proof -
  have "slots offset 0 n = map (\<lambda>k. (unat offset + k) mod unat n) [0..<unat n]"
    by (simp add: slots_def slot_aligned [OF assms])
  then show ?thesis by (simp only: map_mod_rotate)
qed

lemma slots_perm:
  assumes "sweep_aligned offset n"
  shows "distinct (slots offset 0 n)" and "set (slots offset 0 n) = {..<unat n}"
  by (simp_all add: slots_rotate [OF assms] atLeast0LessThan)

section \<open>What a sweep does\<close>

abbreviation unlocked :: "'a olq \<Rightarrow> bool" where
  "unlocked q \<equiv> olq_padlock q = None"

lemma push_sweep_find:
  "i \<le> n \<Longrightarrow> push_sweep f offset n i qs =
     (case find (\<lambda>j. unlocked (qs ! j)) (slots offset i n) of
        None \<Rightarrow> (False, qs) | Some j \<Rightarrow> (True, qs[j := push_body f (qs ! j)]))"
proof (induction f offset n i qs rule: push_sweep.induct)
  case (1 f offset n i qs)
  show ?case
  proof (cases "i = n")
    case True
    then show ?thesis by (simp add: push_sweep.simps)
  next
    case False
    with "1.prems" have lt: "i < n" by simp
    then have le: "i + 1 \<le> n" by (simp add: word_le_nat_alt word_less_nat_alt unat_Suc_le)
    let ?q = "qs ! slot offset i n"
    show ?thesis
    proof (cases "unlocked ?q")
      case True
      with False show ?thesis
        by (simp add: push_sweep.simps [of f offset n i qs] slots_Cons [OF lt] olq_try_push_def)
    next
      case locked: False
      then have busy: "olq_try_push f ?q = (False, Some f, ?q)" by (simp add: olq_try_push_def)
      from "1.IH" [OF False busy [symmetric] refl] le locked False busy show ?thesis
        by (auto simp: push_sweep.simps [of f offset n i qs] slots_Cons [OF lt])
    qed
  qed
qed

lemma pop_sweep_find:
  "i \<le> n \<Longrightarrow> pop_sweep function_move x offset n i qs =
     (case find (\<lambda>j. unlocked (qs ! j) \<and> olq_queue (qs ! j) \<noteq> []) (slots offset i n) of
        None \<Rightarrow> (False, x, qs)
      | Some j \<Rightarrow> (True, Some (hd (olq_queue (qs ! j))),
                  qs[j := (qs ! j)\<lparr>olq_queue := tl (olq_queue (qs ! j))\<rparr>]))"
proof (induction "function_move :: 'a mover" x offset n i qs rule: pop_sweep.induct)
  case (1 x offset n i qs)
  show ?case
  proof (cases "i = n")
    case True
    then show ?thesis by (simp add: pop_sweep.simps)
  next
    case False
    with "1.prems" have lt: "i < n" by simp
    then have le: "i + 1 \<le> n" by (simp add: word_le_nat_alt word_less_nat_alt unat_Suc_le)
    let ?q = "qs ! slot offset i n"
    show ?thesis
    proof (cases "unlocked ?q \<and> olq_queue ?q \<noteq> []")
      case True
      with False show ?thesis
        by (simp add: pop_sweep.simps [of function_move x offset n i qs] slots_Cons [OF lt]
            try_pop_function)
    next
      case miss: False
      then have busy: "olq_try_pop function_move x ?q = (False, x, ?q)"
        by (auto simp: try_pop_function)
      have id: "qs[slot offset i n := ?q] = qs" by simp
      from "1.hyps" [OF False busy [symmetric] refl, unfolded id] le miss False busy show ?thesis
        by (auto simp: pop_sweep.simps [of function_move x offset n i qs] slots_Cons [OF lt])
    qed
  qed
qed

lemma find_slot:
  assumes "n \<noteq> 0" "find P (slots offset i n) = Some j"
  shows "j < unat n \<and> P j"
  using assms slots_bound [of n] by (auto simp: find_Some_iff) (metis nth_mem)

text \<open>The round of \<open>stop_and_eject\<close> over unlocked queues takes everything, queue by queue.\<close>

lemma eject_sweep_all:
  "i \<le> n \<Longrightarrow> length qs = unat n \<Longrightarrow> (\<forall>q \<in> set (drop (unat i) qs). unlocked q) \<Longrightarrow>
   eject_sweep n i acc qs =
     Some (acc @ concat (map olq_queue (drop (unat i) qs)),
           take (unat i) qs @ map (\<lambda>q. q\<lparr>olq_queue := []\<rparr>) (drop (unat i) qs))"
proof (induction n i acc qs rule: eject_sweep.induct)
  case (1 n i acc qs)
  show ?case
  proof (cases "i = n")
    case True
    with "1.prems" show ?thesis by (simp add: eject_sweep.simps)
  next
    case False
    with "1.prems" have lt: "i < n" by simp
    then have le: "i + 1 \<le> n" by (simp add: word_le_nat_alt word_less_nat_alt unat_Suc_le)
    let ?k = "unat i"
    have k: "?k < length qs" using lt "1.prems"(2) by (simp add: word_less_nat_alt)
    have drop: "drop ?k qs = qs ! ?k # drop (Suc ?k) qs" using k by (rule Cons_nth_drop_Suc [symmetric])
    let ?q = "(qs ! ?k)\<lparr>olq_queue := []\<rparr>"
    have ej: "olq_eject (qs ! ?k) = Some (olq_queue (qs ! ?k), ?q)"
      using "1.prems"(3) by (simp add: drop olq_eject_def eject_body_def)
    have rest: "drop (Suc ?k) (qs[?k := ?q]) = drop (Suc ?k) qs" by simp
    have front: "take (Suc ?k) (qs[?k := ?q]) = take ?k qs @ [?q]"
      using k by (simp add: take_Suc_conv_app_nth)
    have "eject_sweep n (i + 1) (acc @ olq_queue (qs ! ?k)) (qs[?k := ?q]) =
        Some ((acc @ olq_queue (qs ! ?k)) @ concat (map olq_queue (drop (Suc ?k) qs)),
              (take ?k qs @ [?q]) @ map (\<lambda>q. q\<lparr>olq_queue := []\<rparr>) (drop (Suc ?k) qs))"
      using "1.IH" [OF False ej refl] le "1.prems"(2,3) drop
      by (simp add: unat_Suc_le [OF lt] rest front)
    with False ej show ?thesis
      by (simp add: eject_sweep.simps [of n i acc qs] drop)
  qed
qed

section \<open>The loop of push ends\<close>

text \<open>
  The first slot of a sweep is the offset modulo the number of queues, and the offset grows
  by one per round, so after at most \<open>2 ^ 32\<close> rounds it is the index of any given queue.
\<close>

lemma first_slot: "j < unat n \<Longrightarrow> slot (of_nat j) 0 n = j"
  using unat_u32_lt [of n] by (simp add: slot_def unat_mod_word unat_of_nat)

lemma push_loop_returns:
  assumes "tsq_wf s" and "j < unat (ts_n_queues s)" and "unlocked (ts_queues s ! j)"
  shows "\<exists>j' index. push_loop f s = Some (s\<lparr>ts_push_index := index,
            ts_queues := (ts_queues s)[j' := push_body f (ts_queues s ! j')]\<rparr>) \<and>
          j' < unat (ts_n_queues s) \<and> unlocked (ts_queues s ! j')"
  using assms
proof (induction "unat (of_nat j - ts_push_index s)" arbitrary: s rule: less_induct)
  case less
  let ?n = "ts_n_queues s" and ?off = "ts_push_index s"
  let ?s1 = "s\<lparr>ts_push_index := ?off + 1\<rparr>"
  have n: "?n \<noteq> 0" using less.prems(1) by (simp add: tsq_wf_def)
  note sweep = push_sweep_find [of 0 ?n f ?off "ts_queues s"]
  show ?case
  proof (cases "find (\<lambda>j. unlocked (ts_queues s ! j)) (slots ?off 0 ?n)")
    case (Some j')
    from find_slot [OF n Some] sweep Some
    show ?thesis by (auto simp: push_loop.simps [of f s] Let_def)
  next
    case None
    have "?off \<noteq> of_nat j"
    proof
      assume "?off = of_nat j"
      moreover have "slot ?off 0 ?n \<in> set (slots ?off 0 ?n)"
        using n by (simp add: slots_Cons word_greater_zero_iff)
      ultimately show False
        using None less.prems(2,3) by (auto simp: find_None_iff first_slot)
    qed
    then have "unat (of_nat j - (?off + 1)) < unat (of_nat j - ?off)"
      by (intro unat_diff_Suc_less) simp
    with less.hyps [of ?s1] less.prems have "\<exists>j' index. push_loop f ?s1 = Some (?s1\<lparr>ts_push_index := index,
            ts_queues := (ts_queues s)[j' := push_body f (ts_queues s ! j')]\<rparr>) \<and>
          j' < unat ?n \<and> unlocked (ts_queues s ! j')"
      by (simp add: tsq_wf_def)
    then show ?thesis
      using sweep None by (simp add: push_loop.simps [of f s] Let_def)
  qed
qed

section \<open>What the operations do\<close>

lemma tsq_push_done: "ts_is_done s \<Longrightarrow> tsq_push f s = Some (False, s)"
  by (simp add: tsq_push_def done_is_signalled_def Let_def)

lemma tsq_push_accepts:
  assumes "tsq_wf s" and "\<not> ts_is_done s" and "\<exists>q \<in> set (ts_queues s). unlocked q"
  shows "\<exists>j index. tsq_push f s = Some (True, s\<lparr>ts_push_index := index,
            ts_queues := (ts_queues s)[j := push_body f (ts_queues s ! j)]\<rparr>) \<and>
          j < length (ts_queues s) \<and> unlocked (ts_queues s ! j)"
proof -
  let ?s1 = "s\<lparr>ts_in_push := ts_in_push s + 1\<rparr>"
  from assms(3) obtain j where "j < length (ts_queues s)" "unlocked (ts_queues s ! j)"
    by (auto simp: in_set_conv_nth)
  with assms(1) push_loop_returns [of ?s1 j f] obtain j' index where
    "push_loop f ?s1 = Some (?s1\<lparr>ts_push_index := index,
        ts_queues := (ts_queues s)[j' := push_body f (ts_queues s ! j')]\<rparr>)"
    "j' < length (ts_queues s)" "unlocked (ts_queues s ! j')"
    by (auto simp: tsq_wf_def)
  with assms(2) show ?thesis
    by (intro exI [of _ j'] exI [of _ index]) (simp add: tsq_push_def done_is_signalled_def Let_def)
qed

lemma tsq_try_pop_cases:
  assumes "tsq_wf s"
  shows "(find (\<lambda>j. unlocked (ts_queues s ! j) \<and> olq_queue (ts_queues s ! j) \<noteq> [])
            (slots (ts_pop_index s) 0 (ts_n_queues s)) = None \<and>
          tsq_try_pop function_move x s = (False, x, s\<lparr>ts_pop_index := ts_pop_index s + 1\<rparr>)) \<or>
         (\<exists>j v vs. find (\<lambda>j. unlocked (ts_queues s ! j) \<and> olq_queue (ts_queues s ! j) \<noteq> [])
              (slots (ts_pop_index s) 0 (ts_n_queues s)) = Some j \<and>
            j < length (ts_queues s) \<and> unlocked (ts_queues s ! j) \<and>
            olq_queue (ts_queues s ! j) = v # vs \<and>
            tsq_try_pop function_move x s =
              (True, Some v, s\<lparr>ts_pop_index := ts_pop_index s + 1,
                 ts_queues := (ts_queues s)[j := (ts_queues s ! j)\<lparr>olq_queue := vs\<rparr>]\<rparr>))"
proof -
  let ?P = "\<lambda>j. unlocked (ts_queues s ! j) \<and> olq_queue (ts_queues s ! j) \<noteq> []"
  let ?sl = "slots (ts_pop_index s) 0 (ts_n_queues s)"
  note sweep = pop_sweep_find [of 0 "ts_n_queues s" x "ts_pop_index s" "ts_queues s"]
  show ?thesis
  proof (cases "find ?P ?sl")
    case None
    with sweep show ?thesis by (simp add: tsq_try_pop_def Let_def)
  next
    case (Some j)
    have "j < length (ts_queues s) \<and> ?P j"
      using find_slot [OF _ Some] assms by (auto simp: tsq_wf_def)
    with sweep Some show ?thesis
      by (cases "olq_queue (ts_queues s ! j)") (auto simp: tsq_try_pop_def Let_def)
  qed
qed

definition tsq_pop :: "'a tsq \<Rightarrow> 'a option \<times> 'a tsq" where
  "tsq_pop s = (case tsq_try_pop function_move None s of (b, x, s') \<Rightarrow> (x, s'))"

definition tsq_bag :: "'a tsq \<Rightarrow> 'a multiset" where
  "tsq_bag s = mset (concat (map olq_queue (ts_queues s)))"

definition tsq_usable :: "'a tsq \<Rightarrow> bool" where
  "tsq_usable s \<longleftrightarrow> tsq_wf s \<and> (\<exists>q \<in> set (ts_queues s). unlocked q)"

lemma mset_queues_update:
  "j < length qs \<Longrightarrow> mset (concat (map olq_queue (qs[j := q]))) + mset (olq_queue (qs ! j))
     = mset (concat (map olq_queue qs)) + mset (olq_queue q)"
  using mset_concat_update [of j "map olq_queue qs" "olq_queue q"] by (simp add: map_update)

lemma usable_update:
  assumes "tsq_usable s" and "j < length (ts_queues s)" and "unlocked q"
    and "ts_queues s' = (ts_queues s)[j := q]" and "ts_n_queues s' = ts_n_queues s"
  shows "tsq_usable s'"
proof -
  have "q \<in> set (ts_queues s')" using assms(2,4) by (simp add: set_update_memI)
  with assms show ?thesis by (auto simp: tsq_usable_def tsq_wf_def)
qed

lemma bag_update:
  assumes "j < length (ts_queues s)" and "ts_queues s' = (ts_queues s)[j := q]"
  shows "tsq_bag s' + mset (olq_queue (ts_queues s ! j)) = tsq_bag s + mset (olq_queue q)"
  using mset_queues_update [OF assms(1)] assms(2) by (simp add: tsq_bag_def)

interpretation tsq: task_bag "\<lambda>k. tsq_usable" tsq_bag tsq_push tsq_pop
proof (unfold_locales, goal_cases)
  case (1 k s x)
  show ?case
  proof (cases "ts_is_done s")
    case True
    with 1 show ?thesis
      by (intro exI [of _ False] exI [of _ s]) (simp add: tsq_push_done)
  next
    case False
    with 1 tsq_push_accepts [of s x] obtain j index where
      push: "tsq_push x s = Some (True, s\<lparr>ts_push_index := index,
        ts_queues := (ts_queues s)[j := push_body x (ts_queues s ! j)]\<rparr>)" (is "_ = Some (_, ?s')") and
      j: "j < length (ts_queues s)" "unlocked (ts_queues s ! j)" by (auto simp: tsq_usable_def)
    have "tsq_usable ?s'"
      by (rule usable_update [OF 1 j(1), of "push_body x (ts_queues s ! j)"])
         (simp_all add: frame_simps j(2))
    moreover have "tsq_bag ?s' = tsq_bag s + {#x#}"
      using bag_update [OF j(1), of ?s' "push_body x (ts_queues s ! j)"] by (simp add: push_body_def)
    ultimately show ?thesis using push by auto
  qed
next
  case (2 k s r s')
  then have wf: "tsq_wf s" by (simp add: tsq_usable_def)
  from tsq_try_pop_cases [OF wf, of None] show ?case
  proof (elim disjE conjE exE)
    assume "tsq_try_pop function_move None s = (False, None, s\<lparr>ts_pop_index := ts_pop_index s + 1\<rparr>)"
    with 2 show ?thesis by (auto simp: tsq_pop_def tsq_usable_def tsq_wf_def tsq_bag_def)
  next
    fix j v vs
    let ?q = "(ts_queues s ! j)\<lparr>olq_queue := vs\<rparr>"
    assume j: "j < length (ts_queues s)" "unlocked (ts_queues s ! j)"
      and q: "olq_queue (ts_queues s ! j) = v # vs"
      and "tsq_try_pop function_move None s =
             (True, Some v, s\<lparr>ts_pop_index := ts_pop_index s + 1, ts_queues := (ts_queues s)[j := ?q]\<rparr>)"
    with 2 have s': "r = Some v" "ts_queues s' = (ts_queues s)[j := ?q]" "ts_n_queues s' = ts_n_queues s"
      by (auto simp: tsq_pop_def)
    have "tsq_usable s'"
      by (rule usable_update [OF 2(1) j(1) _ s'(2,3)]) (simp add: j(2))
    with bag_update [OF j(1) s'(2)] q s'(1) show ?thesis by simp
  qed
qed

lemma push_returns_inserts:
  "tsq_usable s \<Longrightarrow> \<not> ts_is_done s \<Longrightarrow>
     \<exists>s'. tsq_push f s = Some (True, s') \<and> tsq_bag s' = tsq_bag s + {#f#}"
  using tsq.push_law [of s f] tsq_push_accepts [of s f] by (auto simp: tsq_usable_def)

lemma eject_loop_blocked: "ts_in_push s \<noteq> 0 \<Longrightarrow> eject_loop acc s = None"
proof (rule ccontr)
  assume nz: "ts_in_push s \<noteq> 0" and "eject_loop acc s \<noteq> None"
  then obtain r where "eject_loop acc s = Some r" by auto
  then have "ts_in_push s = 0"
    by (rule eject_loop.raw_induct [where P = "\<lambda>acc s r. ts_in_push s = 0", rotated])
       (fastforce split: option.splits prod.splits if_splits simp: word_greater_zero_iff)
  with nz show False by simp
qed

lemma stop_and_eject_unlocked:
  assumes "tsq_wf s" and "\<forall>q \<in> set (ts_queues s). unlocked q" and "ts_in_push s = 0"
  shows "stop_and_eject s = Some (concat (map olq_queue (ts_queues s)),
    s\<lparr>ts_is_done := True, ts_queues := map (\<lambda>q. q\<lparr>olq_queue := []\<rparr>) (ts_queues s)\<rparr>)"
proof -
  have "eject_sweep (ts_n_queues s) 0 [] (ts_queues s) =
      Some (concat (map olq_queue (ts_queues s)), map (\<lambda>q. q\<lparr>olq_queue := []\<rparr>) (ts_queues s))"
    using eject_sweep_all [of 0 "ts_n_queues s" "ts_queues s" "[]"] assms by (simp add: tsq_wf_def)
  with assms(3) show ?thesis
    by (simp add: stop_and_eject_def signal_done_def eject_loop.simps)
qed

section \<open>Properties\<close>

text \<open>
  C25. Pushing works as long as some queue can be locked: the retry loop of \<open>push\<close> ends, the
  call returns true exactly if the queue was not stopped, an accepted thunk is appended to
  exactly one queue, one that was unlocked, and a refused one changes nothing.
\<close>

theorem push_returns_and_inserts_once:
  assumes "tsq_wf s" and "\<exists>q \<in> set (ts_queues s). unlocked q"
  shows "\<exists>s'. tsq_push f s = Some (\<not> ts_is_done s, s') \<and>
    (ts_is_done s \<longrightarrow> s' = s) \<and>
    (\<not> ts_is_done s \<longrightarrow>
       (\<exists>j index. j < length (ts_queues s) \<and> unlocked (ts_queues s ! j) \<and>
          s' = s\<lparr>ts_push_index := index,
                 ts_queues := (ts_queues s)[j := push_body f (ts_queues s ! j)]\<rparr>))"
proof (cases "ts_is_done s")
  case True
  then show ?thesis by (simp add: tsq_push_done)
next
  case False
  with tsq_push_accepts [OF assms(1) _ assms(2), of f] show ?thesis by auto
qed

lemma push_returns_witness:
  "\<exists>s'. tsq_push (5 :: nat) ((make_tsq 3)\<lparr>ts_push_index := 7\<rparr>) = Some (True, s') \<and>
     tsq_bag s' = {#5#}"
proof -
  let ?s = "(make_tsq 3)\<lparr>ts_push_index := 7\<rparr> :: nat tsq"
  have wf: "tsq_wf ?s" "\<exists>q \<in> set (ts_queues ?s). unlocked q"
    by (simp_all add: make_tsq_def tsq_wf_def)
  have nd: "\<not> ts_is_done ?s" by (simp add: make_tsq_def)
  from push_returns_and_inserts_once [OF wf, of 5] nd obtain s' where
    s': "tsq_push 5 ?s = Some (True, s')" by auto
  from wf tsq.push_law [of ?s 5] s' have "tsq_bag s' = tsq_bag ?s + {#5#}"
    by (auto simp: tsq_usable_def)
  with s' show ?thesis by (auto simp: tsq_bag_def make_tsq_def)
qed

text \<open>
  \<open>try_pop\<close> is complete when its sweep does not wrap around at 32 bits (or the number
  of queues divides \<open>2 ^ 32\<close>): it returns true exactly if some queue is unlocked and not empty, the
  thunk returned is the front of such a queue and leaves it, and a failed call leaves every
  queue and the caller's thunk as they were.
\<close>

theorem try_pop_complete:
  assumes "tsq_wf s" and "sweep_aligned (ts_pop_index s) (ts_n_queues s)"
    and "tsq_try_pop function_move x s = (b, x', s')"
  shows "(b \<longleftrightarrow> (\<exists>q \<in> set (ts_queues s). unlocked q \<and> olq_queue q \<noteq> [])) \<and>
    (b \<longrightarrow> (\<exists>j vs v. j < length (ts_queues s) \<and> x' = Some v \<and> olq_queue (ts_queues s ! j) = v # vs \<and>
              ts_queues s' = (ts_queues s)[j := (ts_queues s ! j)\<lparr>olq_queue := vs\<rparr>])) \<and>
    (\<not> b \<longrightarrow> x' = x \<and> ts_queues s' = ts_queues s)"
  using tsq_try_pop_cases [OF assms(1), of x]
proof (elim disjE conjE exE)
  assume none: "find (\<lambda>j. unlocked (ts_queues s ! j) \<and> olq_queue (ts_queues s ! j) \<noteq> [])
      (slots (ts_pop_index s) 0 (ts_n_queues s)) = None"
    and pop: "tsq_try_pop function_move x s = (False, x, s\<lparr>ts_pop_index := ts_pop_index s + 1\<rparr>)"
  from none assms(1,2) have "\<forall>q \<in> set (ts_queues s). \<not> (unlocked q \<and> olq_queue q \<noteq> [])"
    by (auto simp: find_None_iff slots_perm tsq_wf_def in_set_conv_nth)
  with pop assms(3) show ?thesis by auto
next
  fix j v vs
  assume "j < length (ts_queues s)" "unlocked (ts_queues s ! j)"
    "olq_queue (ts_queues s ! j) = v # vs"
    "tsq_try_pop function_move x s = (True, Some v, s\<lparr>ts_pop_index := ts_pop_index s + 1,
       ts_queues := (ts_queues s)[j := (ts_queues s ! j)\<lparr>olq_queue := vs\<rparr>]\<rparr>)"
  with assms(3) show ?thesis by (auto intro: nth_mem)
qed

lemma try_pop_complete_witness:
  "let s = (make_tsq 3)\<lparr>ts_queues := [empty_olq, empty_olq, empty_olq\<lparr>olq_queue := [9 :: nat]\<rparr>]\<rparr>
   in fst (tsq_try_pop function_move None s)"
proof -
  let ?s = "(make_tsq 3)\<lparr>ts_queues := [empty_olq, empty_olq, empty_olq\<lparr>olq_queue := [9 :: nat]\<rparr>]\<rparr>"
  obtain b x' s' where pop: "tsq_try_pop function_move None ?s = (b, x', s')"
    by (metis prod_cases3)
  have "tsq_wf ?s" "sweep_aligned (ts_pop_index ?s) (ts_n_queues ?s)"
    by (simp_all add: make_tsq_def tsq_wf_def sweep_aligned_def)
  from try_pop_complete [OF this pop] pop show ?thesis by (simp add: Let_def)
qed

text \<open>
  Where the offset of a sweep does wrap around and the number of queues does not divide
  \<open>2 ^ 32\<close>, completeness is lost: with three queues and the pop index at its maximum, the
  sweep visits queue 0 twice and queue 2 never, and \<open>try_pop\<close> reports an empty queue
  although nothing is locked and a thunk is waiting.
\<close>

theorem try_pop_misses_on_wraparound:
  "let s = (make_tsq 3)\<lparr>ts_pop_index := 2 ^ 32 - 1,
              ts_queues := [empty_olq, empty_olq, empty_olq\<lparr>olq_queue := [thunk]\<rparr>]\<rparr>
   in fst (tsq_try_pop function_move None s) = False \<and> tsq_bag s = {#thunk#}"
  by (simp add: make_tsq_def tsq_try_pop_def pop_sweep.simps slot_def try_pop_function
      tsq_bag_def Let_def)

text \<open>
  Any sequence of pushes and pops on a queue with an unlocked part runs to its end and
  conserves the thunks: what was in the queue together with the accepted thunks is what is
  in the queue together with the popped ones, as bags.
\<close>

theorem task_queue_conserves:
  assumes "tsq_wf s" and "\<exists>q \<in> set (ts_queues s). unlocked q"
  shows "\<exists>acc got s'. run_qops tsq_push tsq_pop ops s = Some (acc, got, s') \<and>
           tsq_bag s + mset acc = tsq_bag s' + mset got"
  using tsq.run_conserves [of s ops] assms by (auto simp: tsq_usable_def)

lemma task_queue_conserves_witness:
  "\<exists>acc got s'. run_qops tsq_push tsq_pop [QPush 1, QPop, QPop, QPush (2 :: nat)] (make_tsq 2)
       = Some (acc, got, s') \<and> tsq_bag (make_tsq 2) + mset acc = tsq_bag s' + mset got"
  by (rule task_queue_conserves) (simp_all add: make_tsq_def tsq_wf_def)

text \<open>
  With no other thread active, \<open>stop_and_eject\<close> returns every thunk, queue by queue
  in the order each was pushed, leaves all queues empty and the queue stopped, so that from then on
  every push is refused and changes nothing.
\<close>

theorem stop_and_eject_drains:
  assumes "tsq_wf s" and "\<forall>q \<in> set (ts_queues s). unlocked q" and "ts_in_push s = 0"
  shows "\<exists>s'. stop_and_eject s = Some (concat (map olq_queue (ts_queues s)), s') \<and>
    tsq_bag s' = {#} \<and> (\<forall>f. tsq_push f s' = Some (False, s'))"
  using stop_and_eject_unlocked [OF assms] by (simp add: tsq_push_done tsq_bag_def comp_def)

lemma stop_and_eject_witness:
  "\<exists>s'. stop_and_eject ((make_tsq 2)\<lparr>ts_queues := [empty_olq\<lparr>olq_queue := [1, 2 :: nat]\<rparr>,
           empty_olq\<lparr>olq_queue := [3]\<rparr>]\<rparr>) = Some ([1, 2, 3], s') \<and> tsq_bag s' = {#}"
  using stop_and_eject_drains [of "(make_tsq 2)\<lparr>ts_queues := [empty_olq\<lparr>olq_queue := [1, 2 :: nat]\<rparr>,
           empty_olq\<lparr>olq_queue := [3]\<rparr>]\<rparr>"]
  by (auto simp: make_tsq_def tsq_wf_def)

end
