(* ===== verification/Task_Queue_Order.thy ===== *)
theory Task_Queue_Order
  imports Task_Queue
begin

text \<open>
  The order in which the task queue hands thunks out: its comment says "roughly FIFO". The
  theory gives the exact statement for one thread: the queue refines a FIFO queue as long
  as no pop finds it empty (each such pop moves the pop index past the push index) and the
  indices do not wrap around. The abstraction \<open>rr_items\<close> reads the round-robin queues from
  the pop index on.
\<close>

section \<open>Reading the queues round robin\<close>

fun rr_items :: "nat \<Rightarrow> nat \<Rightarrow> 'a list list \<Rightarrow> 'a list" where
  "rr_items 0 m qs = []"
| "rr_items (Suc c) m qs =
     hd (qs ! (m mod length qs)) #
     rr_items c (Suc m) (qs[m mod length qs := tl (qs ! (m mod length qs))])"

text \<open>
  The number of elements of queue \<open>j\<close> when the pending elements are those numbered from
  \<open>m\<close> to \<open>m + c - 1\<close> and the one with number \<open>k\<close> is in queue \<open>k mod n\<close>.
\<close>

definition share :: "nat \<Rightarrow> nat \<Rightarrow> nat \<Rightarrow> nat \<Rightarrow> nat" where
  "share n c m j = length (filter (\<lambda>k. k mod n = j) [m..<m + c])"

definition rr_balanced :: "nat \<Rightarrow> nat \<Rightarrow> 'a list list \<Rightarrow> bool" where
  "rr_balanced c m qs \<longleftrightarrow> (\<forall>j < length qs. length (qs ! j) = share (length qs) c m j)"

lemma share_0 [simp]: "share n 0 m j = 0"
  by (simp add: share_def)

lemma share_front: "share n (Suc c) m j = (if m mod n = j then 1 else 0) + share n c (Suc m) j"
  unfolding share_def by (subst upt_conv_Cons) auto

lemma share_back: "share n (Suc c) m j = share n c m j + (if (m + c) mod n = j then 1 else 0)"
  by (simp add: share_def)

lemma balanced_pop:
  assumes "rr_balanced (Suc c) m qs" and "qs \<noteq> []"
  shows "qs ! (m mod length qs) \<noteq> []"
    and "rr_balanced c (Suc m) (qs[m mod length qs := tl (qs ! (m mod length qs))])"
proof -
  have m: "m mod length qs < length qs" using assms(2) by simp
  then have len: "length (qs ! (m mod length qs)) = Suc (share (length qs) c (Suc m) (m mod length qs))"
    using assms(1) by (simp add: rr_balanced_def share_front)
  then show "qs ! (m mod length qs) \<noteq> []" by auto
  show "rr_balanced c (Suc m) (qs[m mod length qs := tl (qs ! (m mod length qs))])"
    unfolding rr_balanced_def
  proof (intro allI impI)
    fix j assume "j < length (qs[m mod length qs := tl (qs ! (m mod length qs))])"
    then have j: "j < length qs" by simp
    show "length (qs[m mod length qs := tl (qs ! (m mod length qs))] ! j) =
        share (length (qs[m mod length qs := tl (qs ! (m mod length qs))])) c (Suc m) j"
      using assms(1) j len by (cases "j = m mod length qs") (auto simp: rr_balanced_def share_front)
  qed
qed

lemma balanced_push:
  assumes "rr_balanced c m qs"
  shows "rr_balanced (Suc c) m
           (qs[(m + c) mod length qs := qs ! ((m + c) mod length qs) @ [x]])"
  using assms by (auto simp: rr_balanced_def share_back nth_list_update)

lemma rr_items_push:
  assumes "rr_balanced c m qs" and "qs \<noteq> []"
  shows "rr_items (Suc c) m (qs[(m + c) mod length qs := qs ! ((m + c) mod length qs) @ [x]])
       = rr_items c m qs @ [x]"
  using assms
proof (induction c arbitrary: m qs)
  case 0
  then have "qs ! (m mod length qs) = []" by (simp add: rr_balanced_def)
  with 0 show ?case by simp
next
  case (Suc c)
  let ?n = "length qs"
  let ?a = "m mod ?n" and ?b = "(m + Suc c) mod ?n"
  let ?qs = "qs[?b := qs ! ?b @ [x]]"
  let ?rest = "qs[?a := tl (qs ! ?a)]"
  have lt: "?a < ?n" "?b < ?n" using Suc.prems(2) by auto
  note pop = balanced_pop [OF Suc.prems]
  have hd: "hd (?qs ! ?a) = hd (qs ! ?a)"
    using pop(1) lt by (cases "?a = ?b") auto
  have "?qs[?a := tl (?qs ! ?a)] = ?rest[?b := ?rest ! ?b @ [x]]"
  proof (cases "?a = ?b")
    case True
    with pop(1) lt show ?thesis by simp
  next
    case False
    then show ?thesis by (simp add: list_update_swap)
  qed
  moreover have "rr_items (Suc c) (Suc m) (?rest[?b := ?rest ! ?b @ [x]]) = rr_items c (Suc m) ?rest @ [x]"
    using Suc.IH [OF pop(2)] Suc.prems(2) by simp
  ultimately show ?case using hd by simp
qed

section \<open>The abstraction of the task queue\<close>

definition tsq_pending :: "'a tsq \<Rightarrow> nat" where
  "tsq_pending s = unat (ts_push_index s) - unat (ts_pop_index s)"

definition tsq_items :: "'a tsq \<Rightarrow> 'a list" where
  "tsq_items s = rr_items (tsq_pending s) (unat (ts_pop_index s)) (map olq_queue (ts_queues s))"

text \<open>
  The queue is running, no other thread holds a lock, pushes are ahead of pops, the
  elements lie round robin, and the next \<open>k\<close> operations do not wrap an index around.
\<close>

definition tsq_fifo :: "nat \<Rightarrow> 'a tsq \<Rightarrow> bool" where
  "tsq_fifo k s \<longleftrightarrow> tsq_wf s \<and> \<not> ts_is_done s \<and> (\<forall>q \<in> set (ts_queues s). unlocked q) \<and>
     ts_pop_index s \<le> ts_push_index s \<and>
     unat (ts_push_index s) + k + unat (ts_n_queues s) \<le> 2 ^ 32 \<and>
     rr_balanced (tsq_pending s) (unat (ts_pop_index s)) (map olq_queue (ts_queues s))"

lemma slot_zero: "slot offset 0 n = unat offset mod unat n"
  by (simp add: slot_def unat_mod_word)

lemma slots_head:
  "n \<noteq> 0 \<Longrightarrow> slots offset 0 n = (unat offset mod unat n) # slots offset 1 n"
  using slots_Cons [of 0 n offset] by (simp add: slot_zero word_greater_zero_iff)

lemma unat_Suc_no_wrap: "unat i + 1 < 2 ^ 32 \<Longrightarrow> unat ((i :: u32) + 1) = Suc (unat i)"
  by (subst unat_add_small) simp_all

lemma fifo_push:
  assumes "tsq_fifo (Suc k) s"
  shows "\<exists>s'. tsq_push x s = Some (True, s') \<and> tsq_fifo k s' \<and> tsq_items s' = tsq_items s @ [x]"
proof -
  let ?n = "unat (ts_n_queues s)" and ?p = "unat (ts_push_index s)" and ?m = "unat (ts_pop_index s)"
  let ?j = "?p mod ?n"
  let ?qs = "(ts_queues s)[?j := push_body x (ts_queues s ! ?j)]"
  let ?s' = "s\<lparr>ts_push_index := ts_push_index s + 1, ts_queues := ?qs\<rparr>"
  from assms have wf: "tsq_wf s" "\<not> ts_is_done s" and free: "\<forall>q \<in> set (ts_queues s). unlocked q"
    and le: "?m \<le> ?p" and room: "?p + Suc k + ?n \<le> 2 ^ 32"
    and bal: "rr_balanced (tsq_pending s) ?m (map olq_queue (ts_queues s))"
    by (auto simp: tsq_fifo_def word_le_nat_alt)
  from wf have len: "length (ts_queues s) = ?n" and n0: "ts_n_queues s \<noteq> 0"
    by (auto simp: tsq_wf_def)
  have j: "?j < length (ts_queues s)" using n0 len by (simp add: unat_gt_0)
  have "unlocked (ts_queues s ! ?j)" using free j by (simp add: nth_mem)
  then have push: "tsq_push x s = Some (True, ?s')"
    using wf n0 by (simp add: tsq_push_def done_is_signalled_def Let_def push_loop.simps
        push_sweep_find slots_head)
  have p': "unat (ts_push_index s + 1) = Suc ?p"
    using room n0 by (intro unat_Suc_no_wrap) (simp add: unat_gt_0 [symmetric])
  have pend: "tsq_pending ?s' = Suc (tsq_pending s)"
    using le p' by (simp add: tsq_pending_def Suc_diff_le)
  have sum: "?m + tsq_pending s = ?p" using le by (simp add: tsq_pending_def)
  have map: "map olq_queue ?qs = (map olq_queue (ts_queues s))
      [?j := map olq_queue (ts_queues s) ! ?j @ [x]]"
    using j by (simp add: map_update push_body_def)
  have ne: "map olq_queue (ts_queues s) \<noteq> []" using j by auto
  have "\<forall>q \<in> set ?qs. unlocked q"
    using free j by (auto dest!: subsetD [OF set_update_subset_insert] simp: frame_simps nth_mem)
  then have "tsq_fifo k ?s'"
    using wf le room p' balanced_push [OF bal, of x]
    by (simp add: tsq_fifo_def pend map sum len tsq_wf_def word_le_nat_alt)
  moreover have "tsq_items ?s' = tsq_items s @ [x]"
    using rr_items_push [OF bal ne, of x] by (simp add: tsq_items_def pend map sum len)
  ultimately show ?thesis using push by auto
qed

lemma fifo_pop:
  assumes "tsq_fifo (Suc k) s" and "tsq_items s = v # vs"
  shows "\<exists>s'. tsq_pop s = (Some v, s') \<and> tsq_fifo k s' \<and> tsq_items s' = vs"
proof -
  let ?n = "unat (ts_n_queues s)" and ?p = "unat (ts_push_index s)" and ?m = "unat (ts_pop_index s)"
  let ?j = "?m mod ?n"
  let ?q = "(ts_queues s ! ?j)\<lparr>olq_queue := tl (olq_queue (ts_queues s ! ?j))\<rparr>"
  let ?s' = "s\<lparr>ts_pop_index := ts_pop_index s + 1, ts_queues := (ts_queues s)[?j := ?q]\<rparr>"
  from assms have wf: "tsq_wf s" "\<not> ts_is_done s" and free: "\<forall>q \<in> set (ts_queues s). unlocked q"
    and le: "?m \<le> ?p" and room: "?p + Suc k + ?n \<le> 2 ^ 32"
    and bal: "rr_balanced (tsq_pending s) ?m (map olq_queue (ts_queues s))"
    by (auto simp: tsq_fifo_def word_le_nat_alt)
  from wf have len: "length (ts_queues s) = ?n" and n0: "ts_n_queues s \<noteq> 0"
    by (auto simp: tsq_wf_def)
  have j: "?j < length (ts_queues s)" using n0 len by (simp add: unat_gt_0)
  then have ne: "map olq_queue (ts_queues s) \<noteq> []" by auto
  from assms(2) obtain c where c: "tsq_pending s = Suc c"
    by (cases "tsq_pending s") (auto simp: tsq_items_def)
  note pop = balanced_pop [OF bal [unfolded c] ne, unfolded length_map len]
  have nonempty: "olq_queue (ts_queues s ! ?j) \<noteq> []" using pop(1) j by simp
  have free_j: "unlocked (ts_queues s ! ?j)" using free j by (simp add: nth_mem)
  have items: "v = hd (olq_queue (ts_queues s ! ?j))"
    "vs = rr_items c (Suc ?m) ((map olq_queue (ts_queues s))[?j := tl (olq_queue (ts_queues s ! ?j))])"
    using assms(2) j by (simp_all add: tsq_items_def c len)
  have call: "tsq_pop s = (Some v, ?s')"
    using nonempty free_j n0 items(1)
    by (simp add: tsq_pop_def tsq_try_pop_def Let_def pop_sweep_find slots_head)
  have lt: "?m < ?p" using c by (simp add: tsq_pending_def)
  have m': "unat (ts_pop_index s + 1) = Suc ?m"
    using lt room by (intro unat_Suc_no_wrap) simp
  have pend: "tsq_pending ?s' = c"
    using c m' by (simp add: tsq_pending_def)
  have map: "map olq_queue ((ts_queues s)[?j := ?q]) =
      (map olq_queue (ts_queues s))[?j := tl (olq_queue (ts_queues s ! ?j))]"
    by (simp add: map_update)
  have "\<forall>q \<in> set ((ts_queues s)[?j := ?q]). unlocked q"
    using free free_j by (auto dest!: subsetD [OF set_update_subset_insert])
  then have "tsq_fifo k ?s'"
    using wf lt room m' pop(2) j
    by (simp add: tsq_fifo_def pend map len tsq_wf_def word_le_nat_alt)
  moreover have "tsq_items ?s' = vs"
    by (simp add: tsq_items_def pend map m' items(2))
  ultimately show ?thesis using call by auto
qed

interpretation tsq: fifo_queue tsq_fifo tsq_items tsq_push tsq_pop
  by unfold_locales (rule fifo_push, assumption, rule fifo_pop)

lemma make_tsq_fifo: "n \<noteq> 0 \<Longrightarrow> k + unat n \<le> 2 ^ 32 \<Longrightarrow> tsq_fifo k (make_tsq n)"
  by (auto simp: tsq_fifo_def make_tsq_def tsq_wf_def tsq_pending_def rr_balanced_def)

lemma make_tsq_items [simp]: "tsq_items (make_tsq n) = []"
  by (simp add: tsq_items_def tsq_pending_def make_tsq_def)

section \<open>Properties\<close>

text \<open>
  C26. The task queue, used by one thread, is first in, first out across its queues: from
  a state in which the pending thunks lie round robin, any sequence of pushes and pops that
  pops only what has been pushed, and does not run an index past 32 bits, returns, and the
  popped thunks followed by the pending ones are the pending ones of before followed by
  the pushed ones.
\<close>

theorem task_queue_fifo:
  assumes "tsq_fifo (length ops) s" and "pops_served (length (tsq_items s)) ops"
  shows "\<exists>got s'. run_qops tsq_push tsq_pop ops s = Some (pushes ops, got, s') \<and>
           got @ tsq_items s' = tsq_items s @ pushes ops"
  using tsq.run_fifo [OF assms] by auto

lemma task_queue_fifo_witness:
  "\<exists>got s'. run_qops tsq_push tsq_pop [QPush 1, QPush 2, QPop, QPush (3 :: nat), QPop] (make_tsq 3)
       = Some ([1, 2, 3], got, s') \<and> got @ tsq_items s' = [1, 2, 3]"
proof -
  have "tsq_fifo (length [QPush 1, QPush 2, QPop, QPush (3 :: nat), QPop]) (make_tsq 3)"
    by (rule make_tsq_fifo) simp_all
  from task_queue_fifo [OF this] show ?thesis by simp
qed

text \<open>
  The order is lost once a pop finds the queue empty: on a fresh queue with two parts,
  one such pop, then the pushes of \<open>a\<close> and \<open>b\<close>, then a pop, returns \<open>b\<close> first.
\<close>

theorem task_queue_not_fifo_after_empty_pop:
  "map_option (\<lambda>(acc, got, s'). (acc, got))
     (run_qops tsq_push tsq_pop [QPop, QPush a, QPush b, QPop] (make_tsq 2)) = Some ([a, b], [b])"
  by (simp add: make_tsq_def tsq_pop_def tsq_try_pop_def pop_sweep.simps slot_def try_pop_function
      tsq_push_def push_loop.simps push_sweep.simps olq_try_push_def push_body_def
      done_is_signalled_def Let_def)

end
