(* ===== verification/Task_Queue_Threads.thy ===== *)
theory Task_Queue_Threads
  imports Task_Queue
begin

text \<open>
  \<open>AtomicTaskStealingQueue\<close> as it runs: any number of threads inside \<open>push\<close>, \<open>try_pop\<close>
  and \<open>stop_and_eject\<close> at once, one access to a shared variable (an atomic, a mutex, the
  deque under its mutex) per step, in any order. Memory is sequentially consistent. The
  thunks are \<open>std::function\<close>s, whose move does not throw.

  The steps of one thread on the shared queue are \<open>run_pc\<close>; \<open>qsys_act\<close> lets the threads take
  turns and keeps two histories: the thunks whose push returned true, and the thunks
  handed to callers of \<open>try_pop\<close> and \<open>stop_and_eject\<close>.
\<close>

section \<open>Definitions\<close>

datatype 'a tresult = RPush 'a bool | RPop bool "'a option" | REject "'a list"

text \<open>Where a thread is: the next shared access it makes, and its local variables.\<close>

datatype 'a tpc =
    TIdle
  | PushEnter 'a                       \<comment> \<open>before \<open>in_push_.fetch_add\<close>\<close>
  | PushCheck 'a                       \<comment> \<open>before \<open>done_is_signalled\<close>\<close>
  | PushRound 'a                       \<comment> \<open>before \<open>push_index_.fetch_add\<close>\<close>
  | PushTry 'a u32 u32                 \<comment> \<open>offset, i; before the try-lock\<close>
  | PushHold 'a nat                    \<comment> \<open>the lock of the queue held, before \<open>emplace_back\<close>\<close>
  | PushUnlock 'a nat                  \<comment> \<open>before the unlock\<close>
  | PushLeave 'a bool                  \<comment> \<open>before \<open>in_push_.fetch_sub\<close>\<close>
  | PopEnter "'a option"               \<comment> \<open>before \<open>pop_index_.fetch_add\<close>\<close>
  | PopTry "'a option" u32 u32
  | PopHold "'a option" u32 u32
  | PopUnlock bool "'a option" u32 u32
  | EjectSignal                        \<comment> \<open>before \<open>signal_done\<close>\<close>
  | EjectLock u32 "'a list"            \<comment> \<open>i, thunks; waiting for the lock of queue i\<close>
  | EjectHold u32 "'a list"
  | EjectUnlock u32 "'a list"
  | EjectLoad "'a list"                \<comment> \<open>before \<open>in_push_.load\<close>\<close>
  | Returned "'a tresult"

definition lock_queue :: "nat \<Rightarrow> nat \<Rightarrow> 'a tsq \<Rightarrow> 'a tsq" where
  "lock_queue t j q =
     q\<lparr>ts_queues := (ts_queues q)[j := (ts_queues q ! j)\<lparr>olq_padlock := Some t\<rparr>]\<rparr>"

definition unlock_queue :: "nat \<Rightarrow> 'a tsq \<Rightarrow> 'a tsq" where
  "unlock_queue j q =
     q\<lparr>ts_queues := (ts_queues q)[j := (ts_queues q ! j)\<lparr>olq_padlock := None\<rparr>]\<rparr>"

definition put_queue :: "nat \<Rightarrow> 'a olq \<Rightarrow> 'a tsq \<Rightarrow> 'a tsq" where
  "put_queue j oq q = q\<lparr>ts_queues := (ts_queues q)[j := oq]\<rparr>"

text \<open>One step of thread \<open>t\<close>; \<open>None\<close> if it is not in a call, or blocked.\<close>

fun run_pc :: "nat \<Rightarrow> 'a tpc \<Rightarrow> 'a tsq \<Rightarrow> ('a tpc \<times> 'a tsq) option" where
  "run_pc t (PushEnter x) q = Some (PushCheck x, q\<lparr>ts_in_push := ts_in_push q + 1\<rparr>)"
| "run_pc t (PushCheck x) q =
     Some (if done_is_signalled q then PushLeave x False else PushRound x, q)"
| "run_pc t (PushRound x) q =
     Some (PushTry x (ts_push_index q) 0, q\<lparr>ts_push_index := ts_push_index q + 1\<rparr>)"
| "run_pc t (PushTry x offset i) q =
     (if i = ts_n_queues q then Some (PushRound x, q)
      else if unlocked (ts_queues q ! slot offset i (ts_n_queues q))
      then Some (PushHold x (slot offset i (ts_n_queues q)),
                 lock_queue t (slot offset i (ts_n_queues q)) q)
      else Some (PushTry x offset (i + 1), q))"
| "run_pc t (PushHold x j) q =
     Some (PushUnlock x j, put_queue j (push_body x (ts_queues q ! j)) q)"
| "run_pc t (PushUnlock x j) q = Some (PushLeave x True, unlock_queue j q)"
| "run_pc t (PushLeave x b) q =
     Some (Returned (RPush x b), q\<lparr>ts_in_push := ts_in_push q - 1\<rparr>)"
| "run_pc t (PopEnter x) q =
     Some (PopTry x (ts_pop_index q) 0, q\<lparr>ts_pop_index := ts_pop_index q + 1\<rparr>)"
| "run_pc t (PopTry x offset i) q =
     (if i = ts_n_queues q then Some (Returned (RPop False x), q)
      else if unlocked (ts_queues q ! slot offset i (ts_n_queues q))
      then Some (PopHold x offset i, lock_queue t (slot offset i (ts_n_queues q)) q)
      else Some (PopTry x offset (i + 1), q))"
| "run_pc t (PopHold x offset i) q =
     (case pop_body function_move x (ts_queues q ! slot offset i (ts_n_queues q)) of
        (b, x', oq) \<Rightarrow>
          Some (PopUnlock b x' offset i, put_queue (slot offset i (ts_n_queues q)) oq q))"
| "run_pc t (PopUnlock b x offset i) q =
     Some (if b then Returned (RPop True x) else PopTry x offset (i + 1),
           unlock_queue (slot offset i (ts_n_queues q)) q)"
| "run_pc t EjectSignal q = Some (EjectLock 0 [], signal_done q)"
| "run_pc t (EjectLock i thunks) q =
     (if i = ts_n_queues q then Some (EjectLoad thunks, q)
      else if unlocked (ts_queues q ! unat i)
      then Some (EjectHold i thunks, lock_queue t (unat i) q)
      else None)"
| "run_pc t (EjectHold i thunks) q =
     (case eject_body (ts_queues q ! unat i) of
        (queue_thunks, oq) \<Rightarrow> Some (EjectUnlock i (thunks @ queue_thunks), put_queue (unat i) oq q))"
| "run_pc t (EjectUnlock i thunks) q = Some (EjectLock (i + 1) thunks, unlock_queue (unat i) q)"
| "run_pc t (EjectLoad thunks) q =
     Some (if 0 < ts_in_push q then EjectLock 0 thunks else Returned (REject thunks), q)"
| "run_pc t TIdle q = None"
| "run_pc t (Returned r) q = None"

text \<open>\<open>try_lock\<close> may fail although the mutex is free; the thread then goes on as if it were held.\<close>

fun spurious_pc :: "'a tpc \<Rightarrow> 'a tsq \<Rightarrow> 'a tpc option" where
  "spurious_pc (PushTry x offset i) q =
     (if i = ts_n_queues q then None else Some (PushTry x offset (i + 1)))"
| "spurious_pc (PopTry x offset i) q =
     (if i = ts_n_queues q then None else Some (PopTry x offset (i + 1)))"
| "spurious_pc _ q = None"

text \<open>What a call that returns adds to the two histories.\<close>

fun accepts :: "'a tpc \<Rightarrow> 'a multiset" where
  "accepts (Returned (RPush x True)) = {#x#}"
| "accepts _ = {#}"

fun delivers :: "'a tpc \<Rightarrow> 'a multiset" where
  "delivers (Returned (RPop True (Some x))) = {#x#}"
| "delivers (Returned (REject thunks)) = mset thunks"
| "delivers _ = {#}"

record 'a qsys =
  qs_tsq :: "'a tsq"
  qs_threads :: "'a tpc list"
  qs_accepted :: "'a multiset"
  qs_delivered :: "'a multiset"

datatype 'a qact =
    CallPush nat 'a | CallPop nat "'a option" | CallEject nat
  | Run nat | Spurious nat

fun calling :: "'a tpc \<Rightarrow> bool" where
  "calling TIdle = False"
| "calling (Returned r) = False"
| "calling _ = True"

definition start_call :: "nat \<Rightarrow> 'a tpc \<Rightarrow> 'a qsys \<Rightarrow> 'a qsys option" where
  "start_call t p s =
     (if t < length (qs_threads s) \<and> \<not> calling (qs_threads s ! t)
      then Some (s\<lparr>qs_threads := (qs_threads s)[t := p]\<rparr>) else None)"

fun qsys_act :: "'a qact \<Rightarrow> 'a qsys \<Rightarrow> 'a qsys option" where
  "qsys_act (CallPush t x) s = start_call t (PushEnter x) s"
| "qsys_act (CallPop t x) s = start_call t (PopEnter x) s"
| "qsys_act (CallEject t) s = start_call t EjectSignal s"
| "qsys_act (Run t) s =
     (if t < length (qs_threads s)
      then (case run_pc t (qs_threads s ! t) (qs_tsq s) of
              None \<Rightarrow> None
            | Some (p, q) \<Rightarrow>
                Some \<lparr>qs_tsq = q, qs_threads = (qs_threads s)[t := p],
                      qs_accepted = qs_accepted s + accepts p,
                      qs_delivered = qs_delivered s + delivers p\<rparr>)
      else None)"
| "qsys_act (Spurious t) s =
     (if t < length (qs_threads s)
      then (case spurious_pc (qs_threads s ! t) (qs_tsq s) of
              None \<Rightarrow> None
            | Some p \<Rightarrow> Some (s\<lparr>qs_threads := (qs_threads s)[t := p]\<rparr>))
      else None)"

definition start_qsys :: "u32 \<Rightarrow> nat \<Rightarrow> 'a qsys" where
  "start_qsys n threads =
     \<lparr>qs_tsq = make_tsq n, qs_threads = replicate threads TIdle,
      qs_accepted = {#}, qs_delivered = {#}\<rparr>"

definition qinit :: "'a qsys \<Rightarrow> bool" where
  "qinit s \<longleftrightarrow> (\<exists>n threads. n \<noteq> 0 \<and> s = start_qsys n threads)"

abbreviation qstep :: "'a qsys \<Rightarrow> 'a qsys \<Rightarrow> bool" where
  "qstep \<equiv> step_of qsys_act"

section \<open>The invariant\<close>

text \<open>Thunks a thread has taken out of the queues and not handed out yet.\<close>

fun carried :: "'a tpc \<Rightarrow> 'a multiset" where
  "carried (PopUnlock True (Some v) offset i) = {#v#}"
| "carried (EjectLock i thunks) = mset thunks"
| "carried (EjectHold i thunks) = mset thunks"
| "carried (EjectUnlock i thunks) = mset thunks"
| "carried (EjectLoad thunks) = mset thunks"
| "carried _ = {#}"

text \<open>Thunks a thread has put into a queue in a push that has not returned yet.\<close>

fun emplaced :: "'a tpc \<Rightarrow> 'a multiset" where
  "emplaced (PushUnlock x j) = {#x#}"
| "emplaced (PushLeave x True) = {#x#}"
| "emplaced _ = {#}"

text \<open>Between the increment and the decrement of \<open>in_push_\<close>.\<close>

fun in_section :: "'a tpc \<Rightarrow> u32" where
  "in_section (PushCheck x) = 1"
| "in_section (PushRound x) = 1"
| "in_section (PushTry x offset i) = 1"
| "in_section (PushHold x j) = 1"
| "in_section (PushUnlock x j) = 1"
| "in_section (PushLeave x b) = 1"
| "in_section _ = 0"

text \<open>The queue whose mutex a thread holds.\<close>

fun lock_of :: "u32 \<Rightarrow> 'a tpc \<Rightarrow> nat option" where
  "lock_of n (PushHold x j) = Some j"
| "lock_of n (PushUnlock x j) = Some j"
| "lock_of n (PopHold x offset i) = Some (slot offset i n)"
| "lock_of n (PopUnlock b x offset i) = Some (slot offset i n)"
| "lock_of n (EjectHold i thunks) = Some (unat i)"
| "lock_of n (EjectUnlock i thunks) = Some (unat i)"
| "lock_of n _ = None"

fun pc_wf :: "u32 \<Rightarrow> 'a tpc \<Rightarrow> bool" where
  "pc_wf n (PushHold x j) = (j < unat n)"
| "pc_wf n (PushUnlock x j) = (j < unat n)"
| "pc_wf n (PopUnlock b x offset i) = (b \<longrightarrow> x \<noteq> None)"
| "pc_wf n (EjectLock i thunks) = (i \<le> n)"
| "pc_wf n (EjectHold i thunks) = (i < n)"
| "pc_wf n (EjectUnlock i thunks) = (i < n)"
| "pc_wf n _ = True"

definition threads_wf :: "'a qsys \<Rightarrow> bool" where
  "threads_wf s \<longleftrightarrow> tsq_wf (qs_tsq s) \<and> list_all (pc_wf (ts_n_queues (qs_tsq s))) (qs_threads s)"

text \<open>The mutexes agree with the threads: the owner of a mutex is the thread that holds it.\<close>

definition padlocks :: "'a tsq \<Rightarrow> nat option list" where
  "padlocks q = map olq_padlock (ts_queues q)"

definition locks_agree :: "nat option list \<Rightarrow> nat option list \<Rightarrow> bool" where
  "locks_agree ls held \<longleftrightarrow>
     (\<forall>j < length ls. \<forall>t. ls ! j = Some t \<longleftrightarrow> t < length held \<and> held ! t = Some j)"

definition locks_owned :: "'a qsys \<Rightarrow> bool" where
  "locks_owned s \<longleftrightarrow>
     locks_agree (padlocks (qs_tsq s)) (map (lock_of (ts_n_queues (qs_tsq s))) (qs_threads s))"

definition section_counted :: "'a qsys \<Rightarrow> bool" where
  "section_counted s \<longleftrightarrow> ts_in_push (qs_tsq s) = sum_list (map in_section (qs_threads s))"

definition thunks_balanced :: "'a qsys \<Rightarrow> bool" where
  "thunks_balanced s \<longleftrightarrow>
     tsq_bag (qs_tsq s) + sum_list (map carried (qs_threads s)) + qs_delivered s =
     qs_accepted s + sum_list (map emplaced (qs_threads s))"

definition qs_inv :: "'a qsys \<Rightarrow> bool" where
  "qs_inv s \<longleftrightarrow> threads_wf s \<and> locks_owned s \<and> section_counted s \<and> thunks_balanced s"

subsection \<open>One step of one thread\<close>

lemma queue_field_simps [simp]:
  "length (ts_queues (lock_queue t j q)) = length (ts_queues q)"
  "length (ts_queues (unlock_queue j q)) = length (ts_queues q)"
  "length (ts_queues (put_queue j oq q)) = length (ts_queues q)"
  "ts_n_queues (lock_queue t j q) = ts_n_queues q"
  "ts_n_queues (unlock_queue j q) = ts_n_queues q"
  "ts_n_queues (put_queue j oq q) = ts_n_queues q"
  "ts_in_push (lock_queue t j q) = ts_in_push q"
  "ts_in_push (unlock_queue j q) = ts_in_push q"
  "ts_in_push (put_queue j oq q) = ts_in_push q"
  "ts_is_done (lock_queue t j q) = ts_is_done q"
  "ts_is_done (unlock_queue j q) = ts_is_done q"
  "ts_is_done (put_queue j oq q) = ts_is_done q"
  by (simp_all add: lock_queue_def unlock_queue_def put_queue_def)

lemma map_queue_padlock:
  "map olq_queue (qs[j := (qs ! j)\<lparr>olq_padlock := l\<rparr>]) = map olq_queue qs"
proof (cases "j < length qs")
  case True
  then show ?thesis by (intro nth_equalityI) (auto simp: nth_list_update)
next
  case False
  then show ?thesis by (simp add: list_update_beyond)
qed

lemma bag_lock_simps [simp]:
  "tsq_bag (lock_queue t j q) = tsq_bag q"
  "tsq_bag (unlock_queue j q) = tsq_bag q"
  by (simp_all add: tsq_bag_def lock_queue_def unlock_queue_def map_queue_padlock)

lemma bag_field_simps [simp]:
  "tsq_bag (q\<lparr>ts_in_push := a\<rparr>) = tsq_bag q"
  "tsq_bag (q\<lparr>ts_push_index := b\<rparr>) = tsq_bag q"
  "tsq_bag (q\<lparr>ts_pop_index := b\<rparr>) = tsq_bag q"
  "tsq_bag (signal_done q) = tsq_bag q"
  by (simp_all add: tsq_bag_def signal_done_def)

lemma bag_put_queue:
  "j < length (ts_queues q) \<Longrightarrow>
     tsq_bag (put_queue j oq q) + mset (olq_queue (ts_queues q ! j)) = tsq_bag q + mset (olq_queue oq)"
  by (rule bag_update) (simp_all add: put_queue_def)

lemma bag_push:
  assumes "j < length (ts_queues q)"
  shows "tsq_bag (put_queue j (push_body x (ts_queues q ! j)) q) = tsq_bag q + {#x#}"
  using bag_put_queue [OF assms, of "push_body x (ts_queues q ! j)"] by (simp add: push_body_def)

lemma bag_eject:
  assumes "j < length (ts_queues q)"
  shows "tsq_bag (put_queue j (snd (eject_body (ts_queues q ! j))) q) + mset (fst (eject_body (ts_queues q ! j)))
       = tsq_bag q"
  using bag_put_queue [OF assms, of "snd (eject_body (ts_queues q ! j))"] by (simp add: eject_body_def)

lemma bag_pop:
  assumes "j < length (ts_queues q)" and "pop_body function_move x (ts_queues q ! j) = (b, x', oq)"
  shows "tsq_bag (put_queue j oq q) + (if b then {#the x'#} else {#}) = tsq_bag q \<and> (b \<longrightarrow> x' \<noteq> None)"
  using bag_put_queue [OF assms(1), of oq] assms(2)
  by (auto simp: pop_body_function split: list.splits)

lemma u32_Suc_le: "i < (n :: u32) \<Longrightarrow> i + 1 \<le> n"
  by (simp add: word_le_nat_alt word_less_nat_alt unat_Suc_le)

lemma run_pc_wf:
  assumes "run_pc t p q = Some (p', q')" and "tsq_wf q" and "pc_wf (ts_n_queues q) p"
  shows "tsq_wf q' \<and> ts_n_queues q' = ts_n_queues q \<and> pc_wf (ts_n_queues q) p'"
  using assms
  by (cases p)
     (auto simp: tsq_wf_def slot_less pop_body_function signal_done_def eject_body_def u32_Suc_le
        split: if_splits list.splits)

text \<open>The balance of one step: what is in the queue and on its way out, against what came in.\<close>

lemma run_pc_balance:
  assumes "run_pc t p q = Some (p', q')" and "tsq_wf q" and "pc_wf (ts_n_queues q) p"
  shows "tsq_bag q' + carried p' + delivers p' + emplaced p =
         tsq_bag q + carried p + accepts p' + emplaced p'"
proof (cases p)
  case (PushHold x j)
  with assms show ?thesis by (auto simp: tsq_wf_def bag_push)
next
  case (PopHold x offset i)
  let ?j = "slot offset i (ts_n_queues q)"
  obtain b x' oq where body: "pop_body function_move x (ts_queues q ! ?j) = (b, x', oq)"
    by (metis prod_cases3)
  have "?j < length (ts_queues q)" using assms(2) by (simp add: tsq_wf_def slot_less)
  from bag_pop [OF this body] assms(1) PopHold body show ?thesis by (cases b) auto
next
  case (EjectHold i thunks)
  with assms have "unat i < length (ts_queues q)" by (simp add: tsq_wf_def word_less_nat_alt)
  from bag_eject [OF this] assms(1) EjectHold show ?thesis
    by (auto simp: eject_body_def ac_simps)
next
  case (PopUnlock b x offset i)
  with assms show ?thesis by (cases b) auto
next
  case (PushLeave x b)
  with assms show ?thesis by (cases b) auto
qed (use assms in \<open>auto split: if_splits\<close>)

lemma run_pc_section:
  "run_pc t p q = Some (p', q') \<Longrightarrow> ts_in_push q' + in_section p = ts_in_push q + in_section p'"
  by (cases p) (auto simp: signal_done_def eject_body_def split: if_splits prod.splits)

lemma run_pc_done: "run_pc t p q = Some (p', q') \<Longrightarrow> ts_is_done q \<Longrightarrow> ts_is_done q'"
  by (cases p) (auto simp: signal_done_def eject_body_def split: if_splits prod.splits)

lemma spurious_pc_inert:
  "spurious_pc p q = Some p' \<Longrightarrow>
     carried p' = carried p \<and> emplaced p' = emplaced p \<and> in_section p' = in_section p \<and>
     lock_of n p' = lock_of n p \<and> pc_wf n p'"
  by (cases p) (auto split: if_splits)

lemma idle_inert:
  "\<not> calling p \<Longrightarrow> carried p = {#} \<and> emplaced p = {#} \<and> in_section p = 0 \<and> lock_of n p = None"
  by (cases p) auto

text \<open>
  What a step does to the mutexes: it takes a free one, gives its own back, or leaves
  them all.
\<close>

lemma padlocks_simps:
  "padlocks (lock_queue t j q) = (padlocks q)[j := Some t]"
  "padlocks (unlock_queue j q) = (padlocks q)[j := None]"
  by (simp_all add: padlocks_def lock_queue_def unlock_queue_def map_update)

lemma padlocks_put:
  assumes "olq_padlock oq = olq_padlock (ts_queues q ! j)"
  shows "padlocks (put_queue j oq q) = padlocks q"
proof (cases "j < length (ts_queues q)")
  case True
  then have "(padlocks q)[j := padlocks q ! j] = padlocks q" by simp
  with True assms show ?thesis by (simp add: padlocks_def put_queue_def map_update)
next
  case False
  then show ?thesis by (simp add: padlocks_def put_queue_def list_update_beyond)
qed

lemma length_padlocks [simp]: "length (padlocks q) = length (ts_queues q)"
  by (simp add: padlocks_def)

lemma padlocks_nth: "j < length (ts_queues q) \<Longrightarrow> padlocks q ! j = olq_padlock (ts_queues q ! j)"
  by (simp add: padlocks_def)

lemma padlocks_field_simps [simp]:
  "padlocks (q\<lparr>ts_in_push := a\<rparr>) = padlocks q"
  "padlocks (q\<lparr>ts_push_index := b\<rparr>) = padlocks q"
  "padlocks (q\<lparr>ts_pop_index := b\<rparr>) = padlocks q"
  "padlocks (signal_done q) = padlocks q"
  by (simp_all add: padlocks_def signal_done_def)

definition lock_effect :: "nat \<Rightarrow> nat option \<Rightarrow> nat option list \<Rightarrow> nat option \<Rightarrow> nat option list \<Rightarrow> bool" where
  "lock_effect t l ls l' ls' \<longleftrightarrow>
     (l' = l \<and> ls' = ls) \<or>
     (\<exists>j < length ls. l = None \<and> l' = Some j \<and> ls ! j = None \<and> ls' = ls[j := Some t]) \<or>
     (\<exists>j. l = Some j \<and> l' = None \<and> ls' = ls[j := None])"

lemma run_pc_locks:
  assumes "run_pc t p q = Some (p', q')" and "tsq_wf q" and "pc_wf (ts_n_queues q) p"
  shows "lock_effect t (lock_of (ts_n_queues q) p) (padlocks q) (lock_of (ts_n_queues q) p') (padlocks q')"
proof (cases p)
  case (PushHold x j)
  with assms show ?thesis
    by (auto simp: lock_effect_def intro!: padlocks_put simp: frame_simps)
next
  case (PopHold x offset i)
  let ?j = "slot offset i (ts_n_queues q)"
  obtain b x' oq where body: "pop_body function_move x (ts_queues q ! ?j) = (b, x', oq)"
    by (metis prod_cases3)
  have "olq_padlock oq = olq_padlock (ts_queues q ! ?j)"
    using frame_simps(2) [of function_move x "ts_queues q ! ?j"] body by simp
  from padlocks_put [OF this] assms PopHold body show ?thesis by (auto simp: lock_effect_def)
next
  case (EjectHold i thunks)
  have "olq_padlock (snd (eject_body (ts_queues q ! unat i))) = olq_padlock (ts_queues q ! unat i)"
    by (simp add: frame_simps)
  from padlocks_put [OF this] assms EjectHold show ?thesis
    by (auto simp: lock_effect_def split: prod.splits)
qed (use assms in \<open>auto simp: lock_effect_def padlocks_simps padlocks_nth tsq_wf_def slot_less
       word_less_nat_alt word_le_nat_alt word_unat_eq_iff split: if_splits\<close>)

lemma locks_agree_effect:
  assumes "locks_agree ls held" and "t < length held" and "lock_effect t (held ! t) ls l' ls'"
  shows "locks_agree ls' (held[t := l'])"
  using assms(3) unfolding lock_effect_def
proof (elim disjE exE conjE)
  assume "l' = held ! t" "ls' = ls"
  with assms(1) show ?thesis by simp
next
  fix j assume "j < length ls" "held ! t = None" "l' = Some j" "ls ! j = None" "ls' = ls[j := Some t]"
  with assms(1,2) show ?thesis
    by (fastforce simp: locks_agree_def nth_list_update)
next
  fix j assume held: "held ! t = Some j" and l': "l' = None" and ls': "ls' = ls[j := None]"
  have own: "ls ! k = Some u \<longleftrightarrow> u < length held \<and> held ! u = Some k" if "k < length ls" for k u
    using assms(1) that by (simp add: locks_agree_def)
  show ?thesis
    unfolding locks_agree_def
  proof (intro allI impI)
    fix k u assume "k < length ls'"
    then have k: "k < length ls" by (simp add: ls')
    show "ls' ! k = Some u \<longleftrightarrow> u < length (held[t := l']) \<and> held[t := l'] ! u = Some k"
      using own [OF k, of u] own [OF k, of t] held k assms(2)
      by (cases "k = j"; cases "u = t") (auto simp: ls' l')
  qed
qed

subsection \<open>Steps of the system\<close>

text \<open>Every action moves one thread: a step of a call, or a move without effect on the rest.\<close>

lemma qsys_act_cases:
  assumes "qsys_act a s = Some s'"
  obtains (run) t p' q' where "a = Run t" "t < length (qs_threads s)"
      "run_pc t (qs_threads s ! t) (qs_tsq s) = Some (p', q')"
      "s' = \<lparr>qs_tsq = q', qs_threads = (qs_threads s)[t := p'],
             qs_accepted = qs_accepted s + accepts p', qs_delivered = qs_delivered s + delivers p'\<rparr>"
  | (inert) t p' where "t < length (qs_threads s)" "s' = s\<lparr>qs_threads := (qs_threads s)[t := p']\<rparr>"
      "carried p' = carried (qs_threads s ! t)" "emplaced p' = emplaced (qs_threads s ! t)"
      "in_section p' = in_section (qs_threads s ! t)"
      "\<And>n. lock_of n p' = lock_of n (qs_threads s ! t)" "\<And>n. pc_wf n p'"
      "spurious_pc (qs_threads s ! t) (qs_tsq s) = Some p' \<or>
       \<not> calling (qs_threads s ! t) \<and> (\<exists>x y. p' = PushEnter x \<or> p' = PopEnter y \<or> p' = EjectSignal)"
proof (cases a)
  case (CallPush t x)
  with assms idle_inert [of "qs_threads s ! t"] show ?thesis
    by (auto simp: start_call_def split: if_splits intro: inert [of t "PushEnter x"])
next
  case (CallPop t x)
  with assms idle_inert [of "qs_threads s ! t"] show ?thesis
    by (auto simp: start_call_def split: if_splits intro: inert [of t "PopEnter x"])
next
  case (CallEject t)
  with assms idle_inert [of "qs_threads s ! t"] show ?thesis
    by (auto simp: start_call_def split: if_splits intro: inert [of t EjectSignal])
next
  case (Run t)
  with assms show ?thesis
    by (auto split: if_splits option.splits intro!: run [of t])
next
  case (Spurious t)
  with assms obtain p' where t: "t < length (qs_threads s)"
    and p': "spurious_pc (qs_threads s ! t) (qs_tsq s) = Some p'"
      "s' = s\<lparr>qs_threads := (qs_threads s)[t := p']\<rparr>"
    by (auto split: if_splits option.splits)
  show ?thesis
    by (rule inert [OF t p'(2)]) (use spurious_pc_inert [OF p'(1)] p'(1) in auto)
qed

lemma threads_wf_nth:
  "threads_wf s \<Longrightarrow> t < length (qs_threads s) \<Longrightarrow>
     tsq_wf (qs_tsq s) \<and> pc_wf (ts_n_queues (qs_tsq s)) (qs_threads s ! t)"
  by (simp add: threads_wf_def list_all_length)

lemma threads_wf_step:
  assumes "qsys_act a s = Some s'" and "threads_wf s"
  shows "threads_wf s' \<and> ts_n_queues (qs_tsq s') = ts_n_queues (qs_tsq s)"
  using assms(1)
proof (cases rule: qsys_act_cases)
  case (run t p' q')
  from run_pc_wf [OF run(3)] threads_wf_nth [OF assms(2) run(2)] assms(2) run(4)
  show ?thesis by (auto simp: threads_wf_def intro: list_all_update)
next
  case (inert t p')
  with assms(2) show ?thesis by (auto simp: threads_wf_def intro: list_all_update)
qed

lemma locks_owned_step:
  assumes "qsys_act a s = Some s'" and "threads_wf s" and "locks_owned s"
  shows "locks_owned s'"
  using assms(1)
proof (cases rule: qsys_act_cases)
  case (run t p' q')
  note wf = threads_wf_nth [OF assms(2) run(2)]
  have n: "ts_n_queues q' = ts_n_queues (qs_tsq s)" using run_pc_wf [OF run(3)] wf by simp
  from run_pc_locks [OF run(3)] wf run(2) assms(3) show ?thesis
    by (auto simp: locks_owned_def run(4) n map_update intro: locks_agree_effect)
next
  case (inert t p')
  have "map (lock_of n) ((qs_threads s)[t := p']) = map (lock_of n) (qs_threads s)" for n
    using inert(1,6) by (metis list_update_id length_map map_update nth_map)
  with inert(2) assms(3) show ?thesis by (simp add: locks_owned_def)
qed

lemma section_counted_step:
  assumes "qsys_act a s = Some s'" and "section_counted s"
  shows "section_counted s'"
  using assms(1)
proof (cases rule: qsys_act_cases)
  case (run t p' q')
  from run_pc_section [OF run(3)] sum_list_update_thread [OF run(2), of in_section p'] assms(2) run(4)
  show ?thesis by (simp add: section_counted_def) (metis add.commute add_left_cancel)
next
  case (inert t p')
  from sum_list_update_thread [OF inert(1), of in_section p'] inert(2,5) assms(2)
  show ?thesis by (simp add: section_counted_def)
qed

lemma thunks_balanced_step:
  assumes "qsys_act a s = Some s'" and "threads_wf s" and "thunks_balanced s"
  shows "thunks_balanced s'"
  using assms(1)
proof (cases rule: qsys_act_cases)
  case (run t p' q')
  let ?p = "qs_threads s ! t" and ?C = "sum_list (map carried (qs_threads s))"
    and ?E = "sum_list (map emplaced (qs_threads s))"
  let ?C' = "sum_list (map carried ((qs_threads s)[t := p']))"
    and ?E' = "sum_list (map emplaced ((qs_threads s)[t := p']))"
  have C: "?C' + carried ?p = ?C + carried p'" and E: "?E' + emplaced ?p = ?E + emplaced p'"
    by (rule sum_list_update_thread [OF run(2)])+
  have B: "tsq_bag q' + carried p' + delivers p' + emplaced ?p =
      tsq_bag (qs_tsq s) + carried ?p + accepts p' + emplaced p'"
    using run_pc_balance [OF run(3)] threads_wf_nth [OF assms(2) run(2)] by simp
  have "(tsq_bag q' + ?C' + (qs_delivered s + delivers p')) + (carried ?p + emplaced ?p)
      = (tsq_bag q' + carried p' + delivers p' + emplaced ?p) + ?C + qs_delivered s"
    using C by (simp add: algebra_simps)
  also have "\<dots> = (tsq_bag (qs_tsq s) + ?C + qs_delivered s) + carried ?p + accepts p' + emplaced p'"
    using B by (simp add: algebra_simps)
  also have "\<dots> = (qs_accepted s + ?E) + carried ?p + accepts p' + emplaced p'"
    using assms(3) by (simp add: thunks_balanced_def)
  also have "\<dots> = (qs_accepted s + accepts p' + ?E') + (carried ?p + emplaced ?p)"
    using E by (simp add: algebra_simps)
  finally show ?thesis by (simp add: thunks_balanced_def run(4))
next
  case (inert t p')
  have "sum_list (map carried ((qs_threads s)[t := p'])) = sum_list (map carried (qs_threads s))"
    "sum_list (map emplaced ((qs_threads s)[t := p'])) = sum_list (map emplaced (qs_threads s))"
    using sum_list_update_thread [OF inert(1), of carried p']
      sum_list_update_thread [OF inert(1), of emplaced p'] inert(3,4) by auto
  with inert(2) assms(3) show ?thesis by (simp add: thunks_balanced_def)
qed

lemma qs_inv_init: "qinit s \<Longrightarrow> qs_inv s"
  by (auto simp: qinit_def start_qsys_def qs_inv_def threads_wf_def make_tsq_def tsq_wf_def
      list_all_iff locks_owned_def locks_agree_def padlocks_def section_counted_def
      thunks_balanced_def tsq_bag_def sum_list_replicate map_replicate_const)

lemma qs_inv_step: "qsys_act a s = Some s' \<Longrightarrow> qs_inv s \<Longrightarrow> qs_inv s'"
  by (auto simp: qs_inv_def dest: threads_wf_step locks_owned_step section_counted_step
      thunks_balanced_step)

interpretation qsys: invariant_system qinit qstep qs_inv
  by unfold_locales (auto simp: step_of_def intro: qs_inv_init qs_inv_step)

end
