(* ===== verification/Task_Queue_Drain.thy ===== *)
theory Task_Queue_Drain
  imports Task_Queue_Threads
begin

text \<open>
  What the interleaved task queue guarantees: mutual exclusion, freedom from deadlock,
  conservation of the thunks when all calls have returned, and when \<open>stop_and_eject\<close> leaves
  the queue empty. The last holds if no push is between its check of \<open>is_done_\<close> and its
  insertion when the final round over the queues begins; the code loads \<open>in_push_\<close> only
  after the round, and a run of the code that strands a thunk is given.
\<close>

section \<open>After the stop\<close>

text \<open>A push that has seen \<open>is_done_\<close> false and has not inserted its thunk yet.\<close>

fun may_insert :: "'a tpc \<Rightarrow> bool" where
  "may_insert (PushRound x) = True"
| "may_insert (PushTry x offset i) = True"
| "may_insert (PushHold x j) = True"
| "may_insert _ = False"

definition sealed :: "'a qsys \<Rightarrow> bool" where
  "sealed s \<longleftrightarrow> ts_is_done (qs_tsq s) \<and> list_all (\<lambda>p. \<not> may_insert p) (qs_threads s)"

definition empty_below :: "nat \<Rightarrow> 'a tsq \<Rightarrow> bool" where
  "empty_below k q \<longleftrightarrow> (\<forall>j < k. j < length (ts_queues q) \<longrightarrow> olq_queue (ts_queues q ! j) = [])"

text \<open>How far the ejecting thread has got in its round.\<close>

fun swept :: "'a tpc \<Rightarrow> 'a tsq \<Rightarrow> bool" where
  "swept (EjectLock i thunks) q = empty_below (unat i) q"
| "swept (EjectHold i thunks) q = empty_below (unat i) q"
| "swept (EjectUnlock i thunks) q = empty_below (Suc (unat i)) q"
| "swept (EjectLoad thunks) q = empty_below (length (ts_queues q)) q"
| "swept (Returned (REject thunks)) q = empty_below (length (ts_queues q)) q"
| "swept _ q = True"

definition drain_inv :: "nat \<Rightarrow> 'a qsys \<Rightarrow> bool" where
  "drain_inv e s \<longleftrightarrow> threads_wf s \<and> sealed s \<and> e < length (qs_threads s) \<and>
     swept (qs_threads s ! e) (qs_tsq s)"

definition drain_start :: "nat \<Rightarrow> 'a qsys \<Rightarrow> bool" where
  "drain_start e s \<longleftrightarrow> threads_wf s \<and> sealed s \<and> e < length (qs_threads s) \<and>
     (\<exists>thunks. qs_threads s ! e = EjectLock 0 thunks)"

lemma run_pc_may_insert:
  "run_pc t p q = Some (p', q') \<Longrightarrow> ts_is_done q \<Longrightarrow> \<not> may_insert p \<Longrightarrow> \<not> may_insert p'"
  by (cases p) (auto simp: done_is_signalled_def split: if_splits prod.splits)

lemma empty_below_mono: "empty_below k q \<Longrightarrow> j \<le> k \<Longrightarrow> empty_below j q"
  by (auto simp: empty_below_def)

text \<open>Without an insertion, an empty queue stays empty.\<close>

lemma queue_nth_update:
  "olq_queue (qs[i := x] ! j) = (if i = j \<and> j < length qs then olq_queue x else olq_queue (qs ! j))"
  by (cases "i < length qs") (auto simp: nth_list_update list_update_beyond)

lemma run_pc_no_insert:
  assumes "run_pc t p q = Some (p', q')" and "\<not> may_insert p"
    and "olq_queue (ts_queues q ! j) = []"
  shows "olq_queue (ts_queues q' ! j) = []"
  using assms
  by (cases p)
     (auto simp: lock_queue_def unlock_queue_def put_queue_def queue_nth_update signal_done_def
        eject_body_def pop_body_function split: if_splits list.splits)

lemma run_pc_empty_below:
  assumes "run_pc t p q = Some (p', q')" and "\<not> may_insert p" and "tsq_wf q"
    and "pc_wf (ts_n_queues q) p" and "empty_below k q"
  shows "empty_below k q'"
proof -
  have "length (ts_queues q') = length (ts_queues q)"
    using run_pc_wf [OF assms(1,3,4)] assms(3) by (simp add: tsq_wf_def)
  with run_pc_no_insert [OF assms(1,2)] assms(5) show ?thesis by (simp add: empty_below_def)
qed

lemma run_pc_swept:
  assumes "run_pc t p q = Some (p', q')" and "\<not> may_insert p" and "tsq_wf q"
    and "pc_wf (ts_n_queues q) p" and "swept p q"
  shows "swept p' q'"
proof (cases p)
  case (EjectHold i thunks)
  with assms show ?thesis
    by (auto simp: eject_body_def put_queue_def empty_below_def queue_nth_update less_Suc_eq)
next
  case (EjectLock i thunks)
  have "empty_below (unat i) q'"
    using run_pc_empty_below [OF assms(1-4), of "unat i"] assms(5) EjectLock by simp
  with EjectLock assms show ?thesis by (auto simp: tsq_wf_def split: if_splits)
next
  case (EjectUnlock i thunks)
  have "empty_below (Suc (unat i)) q'"
    using run_pc_empty_below [OF assms(1-4), of "Suc (unat i)"] assms(5) EjectUnlock by simp
  with EjectUnlock assms show ?thesis by (auto simp: unat_Suc_le)
next
  case (EjectLoad thunks)
  with assms show ?thesis by (auto simp: empty_below_def split: if_splits)
qed (use assms in \<open>auto simp: empty_below_def split: if_splits prod.splits\<close>)

lemma swept_other:
  assumes "run_pc t p q = Some (p', q')" and "\<not> may_insert p" and "tsq_wf q"
    and "pc_wf (ts_n_queues q) p" and "swept r q"
  shows "swept r q'"
proof -
  have len: "length (ts_queues q') = length (ts_queues q)"
    using run_pc_wf [OF assms(1,3,4)] assms(3) by (simp add: tsq_wf_def)
  note below = run_pc_empty_below [OF assms(1-4)]
  show ?thesis
    using assms(5) below by (cases "(r, q)" rule: swept.cases) (auto simp: len)
qed

lemma drain_inv_step:
  assumes "qsys_act a s = Some s'" and "drain_inv e s"
  shows "drain_inv e s'"
  using assms(1)
proof (cases rule: qsys_act_cases)
  case (run t p' q')
  from assms(2) have wf: "threads_wf s" and seal: "sealed s" and e: "e < length (qs_threads s)"
    and sw: "swept (qs_threads s ! e) (qs_tsq s)" by (auto simp: drain_inv_def)
  note twf = threads_wf_nth [OF wf run(2)]
  have quiet: "\<not> may_insert (qs_threads s ! t)" using seal run(2) by (simp add: sealed_def list_all_length)
  have "\<not> may_insert p'" "ts_is_done q'"
    using run_pc_may_insert [OF run(3)] run_pc_done [OF run(3)] seal quiet by (auto simp: sealed_def)
  then have "sealed s'" using seal run(4) by (auto simp: sealed_def intro: list_all_update)
  moreover have "swept (qs_threads s' ! e) (qs_tsq s')"
    using run_pc_swept [OF run(3) quiet] swept_other [OF run(3) quiet] twf sw run(2,4)
    by (cases "t = e") auto
  ultimately show ?thesis
    using threads_wf_step [OF assms(1) wf] e run(4) by (simp add: drain_inv_def)
next
  case (inert t p')
  from inert(8) have "\<not> may_insert p'" if "\<not> may_insert (qs_threads s ! t)"
    using that by (cases "qs_threads s ! t") (auto split: if_splits)
  moreover from inert(8) have "swept p' (qs_tsq s)"
    by (cases "qs_threads s ! t") (auto split: if_splits)
  moreover from assms(2) have wf: "threads_wf s" and seal: "sealed s"
    and e: "e < length (qs_threads s)" and sw: "swept (qs_threads s ! e) (qs_tsq s)"
    by (auto simp: drain_inv_def)
  ultimately have "sealed s'" "swept (qs_threads s' ! e) (qs_tsq s')"
    using inert(1,2) by (auto simp: sealed_def list_all_length nth_list_update)
  with threads_wf_step [OF assms(1) wf] e inert(2) show ?thesis by (simp add: drain_inv_def)
qed

interpretation drain: invariant_system "drain_start e" qstep "drain_inv e" for e
proof (unfold_locales, goal_cases)
  case (1 s)
  then show ?case by (auto simp: drain_start_def drain_inv_def empty_below_def)
next
  case (2 s t)
  then show ?case by (auto simp: step_of_def intro: drain_inv_step)
qed

section \<open>Runs of the model\<close>

lemma replicate_two: "replicate 2 x = [x, x]"
  by (simp add: numeral_2_eq_2)

text \<open>For evaluating concrete runs: a run from a start state ends in a reachable state.\<close>

lemmas run_simps = start_qsys_def make_tsq_def start_call_def done_is_signalled_def slot_def
  lock_queue_def put_queue_def unlock_queue_def push_body_def eject_body_def signal_done_def
  pop_body_function replicate_two

lemma run_from_start:
  assumes "run_acts qsys_act acts (start_qsys n k) = Some s" and "n \<noteq> 0"
  shows "reach qinit qstep s"
  by (rule run_acts_reach [OF assms(1)], rule reach_init) (use assms(2) in \<open>auto simp: qinit_def\<close>)

lemma reach_weaken_init:
  "reach i1 step s \<Longrightarrow> (\<And>u. i1 u \<Longrightarrow> i2 u) \<Longrightarrow> reach i2 step s"
  by (induction rule: reach.induct) (auto intro: reach.intros)

section \<open>Properties\<close>

text \<open>
  Conservation under concurrency: in every reachable state of any number of threads
  pushing, popping and ejecting in any interleaving, once no call is under way the thunks
  in the queues together with those handed out are exactly, as a bag, those whose push
  returned true; the push counter is back at 0 and no mutex is held.
\<close>

theorem threads_conserve_thunks:
  assumes "reach qinit qstep s" and "list_all (\<lambda>p. \<not> calling p) (qs_threads s)"
  shows "tsq_bag (qs_tsq s) + qs_delivered s = qs_accepted s \<and>
    ts_in_push (qs_tsq s) = 0 \<and> (\<forall>q \<in> set (ts_queues (qs_tsq s)). unlocked q)"
proof -
  from qsys.inv_reach [OF assms(1)] have inv: "qs_inv s" .
  have zero: "map carried (qs_threads s) = map (\<lambda>_. {#}) (qs_threads s)"
    "map emplaced (qs_threads s) = map (\<lambda>_. {#}) (qs_threads s)"
    "map in_section (qs_threads s) = map (\<lambda>_. 0) (qs_threads s)"
    using assms(2) idle_inert by (auto simp: list_all_iff)
  have held: "map (lock_of (ts_n_queues (qs_tsq s))) (qs_threads s) ! t \<noteq> Some j"
    if "t < length (qs_threads s)" for t j
    using that assms(2) idle_inert by (fastforce simp: list_all_length)
  have "unlocked (ts_queues (qs_tsq s) ! j)" if "j < length (ts_queues (qs_tsq s))" for j
    using inv that held
    by (cases "olq_padlock (ts_queues (qs_tsq s) ! j)")
       (auto simp: qs_inv_def locks_owned_def locks_agree_def padlocks_nth)
  moreover have "sum_list (map (\<lambda>_. {#}) xs) = {#}" "sum_list (map (\<lambda>_. 0) xs) = (0 :: u32)"
    for xs :: "'a tpc list" by (induction xs) auto
  ultimately show ?thesis
    using inv by (auto simp: qs_inv_def thunks_balanced_def section_counted_def zero in_set_conv_nth)
qed

lemma threads_conserve_witness:
  "\<exists>s. reach qinit qstep s \<and> qs_accepted s = {#5 :: nat#} \<and>
     tsq_bag (qs_tsq s) + qs_delivered s = qs_accepted s"
proof -
  let ?acts = "[CallPush 0 5, Run 0, Run 0, Run 0, Run 0, CallPop 1 None, Run 1, Run 0, Run 1, Run 0, Run 0, Run 1]"
  obtain s where run: "run_acts qsys_act ?acts (start_qsys 1 2 :: nat qsys) = Some s" and
    s: "qs_accepted s = {#5#}" "list_all (\<lambda>p. \<not> calling p) (qs_threads s)"
    by (simp add: run_simps)
  have "reach qinit qstep s" by (rule run_from_start [OF run]) simp
  with threads_conserve_thunks [OF this s(2)] s(1) show ?thesis by blast
qed

text \<open>
  Mutual exclusion: no two threads are between the lock and the unlock of the same
  queue, in any reachable state.
\<close>

theorem queue_mutual_exclusion:
  assumes "reach qinit qstep s" and "t < length (qs_threads s)" and "u < length (qs_threads s)"
    and "lock_of (ts_n_queues (qs_tsq s)) (qs_threads s ! t) = Some j"
    and "lock_of (ts_n_queues (qs_tsq s)) (qs_threads s ! u) = Some j"
  shows "t = u"
proof -
  from qsys.inv_reach [OF assms(1)] have inv: "threads_wf s" "locks_owned s" by (auto simp: qs_inv_def)
  from threads_wf_nth [OF inv(1) assms(2)] assms(4) have "j < length (padlocks (qs_tsq s))"
    by (cases "qs_threads s ! t") (auto simp: tsq_wf_def slot_less word_less_nat_alt)
  with inv(2) assms(2-5) show ?thesis
    by (auto simp: locks_owned_def locks_agree_def) (metis length_map nth_map option.inject)
qed

lemma queue_mutual_exclusion_witness:
  "\<exists>s :: nat qsys. reach qinit qstep s \<and> lock_of 1 (qs_threads s ! 1) = Some 0 \<and>
     (\<forall>u < 2. lock_of 1 (qs_threads s ! u) = Some 0 \<longrightarrow> 1 = u)"
proof -
  let ?acts = "[CallPush 0 5, Run 0, Run 0, Run 0, CallPop 1 None, Run 1, Run 1]"
  obtain s where run: "run_acts qsys_act ?acts (start_qsys 1 2 :: nat qsys) = Some s" and
    s: "lock_of 1 (qs_threads s ! 1) = Some 0" "length (qs_threads s) = 2" "ts_n_queues (qs_tsq s) = 1"
    by (simp add: run_simps)
  have r: "reach qinit qstep s" by (rule run_from_start [OF run]) simp
  have "1 = u" if "u < 2" "lock_of 1 (qs_threads s ! u) = Some 0" for u
    using queue_mutual_exclusion [OF r, of 1 u 0] that s by simp
  with r s(1) show ?thesis by blast
qed

text \<open>
  Freedom from deadlock: in every reachable state in which some call is under way, some
  thread can take a step, whatever locks are held.
\<close>

theorem task_queue_deadlock_free:
  assumes "reach qinit qstep s" and "t < length (qs_threads s)" and "calling (qs_threads s ! t)"
  shows "\<exists>u s'. qsys_act (Run u) s = Some s'"
proof -
  from qsys.inv_reach [OF assms(1)] have inv: "threads_wf s" "locks_owned s" by (auto simp: qs_inv_def)
  let ?q = "qs_tsq s" and ?n = "ts_n_queues (qs_tsq s)"
  have step: "\<exists>s'. qsys_act (Run u) s = Some s'"
    if "u < length (qs_threads s)" "run_pc u (qs_threads s ! u) ?q \<noteq> None" for u
    using that by auto
  show ?thesis
  proof (cases "run_pc t (qs_threads s ! t) ?q")
    case (Some r)
    then have "run_pc t (qs_threads s ! t) ?q \<noteq> None" by simp
    with step [OF assms(2)] show ?thesis by blast
  next
    case None
    with assms(3) obtain i thunks u where i: "qs_threads s ! t = EjectLock i thunks" "i \<noteq> ?n"
      and u: "olq_padlock (ts_queues ?q ! unat i) = Some u"
      by (cases "qs_threads s ! t") (auto split: if_splits prod.splits)
    have "unat i < length (ts_queues ?q)"
      using threads_wf_nth [OF inv(1) assms(2)] i by (auto simp: tsq_wf_def word_less_nat_alt [symmetric])
    with inv(2) u have hold: "u < length (qs_threads s)" "lock_of ?n (qs_threads s ! u) = Some (unat i)"
      by (auto simp: locks_owned_def locks_agree_def padlocks_nth)
    then have "run_pc u (qs_threads s ! u) ?q \<noteq> None"
      by (cases "qs_threads s ! u") (auto split: prod.splits)
    with step [OF hold(1)] show ?thesis by blast
  qed
qed

lemma task_queue_deadlock_free_witness:
  "\<exists>s :: nat qsys. reach qinit qstep s \<and> qs_threads s ! 1 = EjectLock 0 [] \<and>
     \<not> unlocked (ts_queues (qs_tsq s) ! 0) \<and> (\<exists>u s'. qsys_act (Run u) s = Some s')"
proof -
  let ?acts = "[CallPush 0 5, Run 0, Run 0, Run 0, Run 0, CallEject 1, Run 1]"
  obtain s where run: "run_acts qsys_act ?acts (start_qsys 1 2 :: nat qsys) = Some s" and
    s: "qs_threads s ! 1 = EjectLock 0 []" "length (qs_threads s) = 2"
       "\<not> unlocked (ts_queues (qs_tsq s) ! 0)"
    by (simp add: run_simps)
  have r: "reach qinit qstep s" by (rule run_from_start [OF run]) simp
  have "\<exists>u s'. qsys_act (Run u) s = Some s'"
    by (rule task_queue_deadlock_free [OF r, of 1]) (use s in simp_all)
  with r s show ?thesis by blast
qed

text \<open>
  C20. When \<open>stop_and_eject\<close> is complete: if a thread begins a round over the queues at a
  moment when the stop has been signalled and no push is between its check of \<open>is_done_\<close>
  and its insertion, then whenever that thread has returned from \<open>stop_and_eject\<close>
  afterwards, every queue is empty, however the other threads were scheduled.
\<close>

theorem stop_and_eject_complete:
  assumes "reach qinit qstep s0" and "sealed s0"
    and "e < length (qs_threads s0)" and "qs_threads s0 ! e = EjectLock 0 thunks"
    and "reach (\<lambda>s. s = s0) qstep s" and "qs_threads s ! e = Returned (REject r)"
  shows "tsq_bag (qs_tsq s) = {#}"
proof -
  have "drain_start e s0"
    using assms(2-4) qsys.inv_reach [OF assms(1)] by (auto simp: drain_start_def qs_inv_def)
  then have "reach (drain_start e) qstep s"
    using reach_weaken_init [OF assms(5)] by blast
  from drain.inv_reach [OF this] assms(6)
  have "\<forall>q \<in> set (ts_queues (qs_tsq s)). olq_queue q = []"
    by (auto simp: drain_inv_def empty_below_def in_set_conv_nth)
  then show ?thesis by (simp add: tsq_bag_def)
qed

lemma stop_and_eject_complete_witness:
  "\<exists>s :: nat qsys. reach qinit qstep s \<and> qs_threads s ! 0 = Returned (REject [5]) \<and>
     tsq_bag (qs_tsq s) = {#}"
proof -
  let ?a0 = "[CallPush 0 5, Run 0, Run 0, Run 0, Run 0, Run 0, Run 0, Run 0, CallEject 0, Run 0]"
  let ?a1 = "[Run 0, Run 0, Run 0, Run 0, Run 0]"
  obtain s0 where run0: "run_acts qsys_act ?a0 (start_qsys 1 1 :: nat qsys) = Some s0" and
    s0: "sealed s0" "0 < length (qs_threads s0)" "qs_threads s0 ! 0 = EjectLock 0 []" and
    run1: "\<exists>s. run_acts qsys_act ?a1 s0 = Some s \<and> qs_threads s ! 0 = Returned (REject [5])"
    by (simp add: run_simps sealed_def)
  from run1 obtain s where s: "run_acts qsys_act ?a1 s0 = Some s"
    "qs_threads s ! 0 = Returned (REject [5])" by blast
  have r0: "reach qinit qstep s0" by (rule run_from_start [OF run0]) simp
  have "reach (\<lambda>u. u = s0) qstep s"
    by (rule run_acts_reach [OF s(1)]) (simp add: reach_init)
  from stop_and_eject_complete [OF r0 s0 this s(2)] run_acts_reach [OF s(1) r0] s(2)
  show ?thesis by blast
qed

text \<open>
  Without that condition the code strands a thunk: with two queues and two threads
  there is a run in which one thread checks \<open>is_done_\<close>, the other one signals the stop and
  goes over both queues, the first one inserts its thunk and leaves, and the second one
  then loads a push counter of 0. Both calls have returned, the push returned true,
  \<open>stop_and_eject\<close> returned nothing, and the thunk is in a stopped queue.
\<close>

theorem stop_and_eject_strands_a_thunk:
  "\<exists>s. reach qinit qstep s \<and>
     qs_threads s = [Returned (RPush thunk True), Returned (REject [])] \<and>
     ts_is_done (qs_tsq s) \<and> tsq_bag (qs_tsq s) = {#thunk#} \<and> qs_delivered s = {#}"
proof -
  let ?push1 = "[CallPush 0 thunk, Run 0, Run 0]"
  let ?round = "[CallEject 1, Run 1, Run 1, Run 1, Run 1, Run 1, Run 1, Run 1, Run 1]"
  let ?push2 = "[Run 0, Run 0, Run 0, Run 0, Run 0]"
  obtain s where run: "run_acts qsys_act (?push1 @ ?round @ ?push2 @ [Run 1]) (start_qsys 2 2) = Some s"
    and s: "qs_threads s = [Returned (RPush thunk True), Returned (REject [])]"
      "ts_is_done (qs_tsq s)" "tsq_bag (qs_tsq s) = {#thunk#}" "qs_delivered s = {#}"
    by (simp add: run_simps tsq_bag_def)
  have "reach qinit qstep s" by (rule run_from_start [OF run]) simp
  with s show ?thesis by blast
qed

end
