(* ===== verification/Execution_Context.thy ===== *)
theory Execution_Context
  imports Task_Queue Deadline
begin

text \<open>
  \<open>ExecutionContext\<close> of \<open>sgrpc/execution_context.hpp\<close> and \<open>.cpp\<close>: its state, the state
  machine \<open>Ready, Running, ShuttingDown, Stopped\<close>, attaching servers, the four ways to post
  work, and the notifications. The operations are those of one thread; \<open>Execution_Worker\<close>
  holds the loop of the worker threads and \<open>Execution_Lifecycle\<close> the interleaving of
  posters with \<open>stop\<close>.

  \<open>grpc::CompletionQueue\<close> and \<open>grpc::Alarm\<close> are library code. What the context calls of
  them is the record \<open>cq_api\<close>, a parameter of the definitions.
\<close>

section \<open>The state machine\<close>

datatype execution_state = Ready | Running | ShuttingDown | Stopped

fun state_value :: "execution_state \<Rightarrow> int" where
  "state_value Ready = 0"
| "state_value Running = 1"
| "state_value ShuttingDown = 2"
| "state_value Stopped = 3"

lemma state_value_eq_iff [simp]: "state_value s = state_value t \<longleftrightarrow> s = t"
  by (cases s; cases t) simp_all

text \<open>The code compares states as the integers they are.\<close>

instantiation execution_state :: linorder
begin

definition less_eq_execution_state :: "execution_state \<Rightarrow> execution_state \<Rightarrow> bool" where
  "s \<le> t \<longleftrightarrow> state_value s \<le> state_value t"

definition less_execution_state :: "execution_state \<Rightarrow> execution_state \<Rightarrow> bool" where
  "s < t \<longleftrightarrow> state_value s < state_value t"

instance
  by standard (auto simp: less_eq_execution_state_def less_execution_state_def)

end

lemmas state_order = less_eq_execution_state_def less_execution_state_def

text \<open>\<open>std::atomic::compare_exchange_strong\<close>: the result and the new value.\<close>

definition compare_exchange :: "'a \<Rightarrow> 'a \<Rightarrow> 'a \<Rightarrow> bool \<times> 'a" where
  "compare_exchange expected desired current =
     (if current = expected then (True, desired) else (False, current))"

fun set_state :: "execution_state \<Rightarrow> execution_state \<Rightarrow> bool \<times> execution_state" where
  "set_state Ready current = (False, current)"
| "set_state Running current = compare_exchange Ready Running current"
| "set_state ShuttingDown current = compare_exchange Running ShuttingDown current"
| "set_state Stopped current = compare_exchange ShuttingDown Stopped current"

text \<open>A history of calls to \<open>set_state_\<close>, by any threads, in the order they took effect.\<close>

fun set_states :: "execution_state list \<Rightarrow> execution_state \<Rightarrow> bool list \<times> execution_state" where
  "set_states [] current = ([], current)"
| "set_states (target # targets) current =
     (case set_state target current of (b, next_state) \<Rightarrow>
        (case set_states targets next_state of (bs, final) \<Rightarrow> (b # bs, final)))"

section \<open>The context\<close>

text \<open>
  What is posted. A \<open>ThunkType\<close> is a caller's function or the closure
  \<open>[thunk]() { thunk(false); }\<close> that \<open>post\<close> builds from a \<open>DeadlinedThunkType\<close>. An event on
  a completion queue is an alarm with its thunk or an rpc made by an \<open>RpcFactory\<close>.
\<close>

datatype ('t, 'd) thunk = Plain 't | CallDeadlined 'd bool

datatype ('d, 'r) cq_event = AlarmEvent 'd | RpcEvent 'r

text \<open>The status and the out parameters \<open>tag\<close> and \<open>is_ok\<close> of \<open>AsyncNext\<close>.\<close>

datatype 'e next_status = SHUTDOWN | GOT_EVENT 'e bool | TIMEOUT

record ('e, 'cq) cq_api =
  cq_async_next :: "'cq \<Rightarrow> 'e next_status \<times> 'cq"
  cq_shutdown :: "'cq \<Rightarrow> 'cq"
  cq_set_alarm :: "gpr_timespec \<Rightarrow> 'e \<Rightarrow> 'cq \<Rightarrow> 'cq"

text \<open>A completion queue whose operations finish at once, for concrete instances.\<close>

definition fifo_cq :: "('e, bool \<times> 'e list) cq_api" where
  "fifo_cq = \<lparr>cq_async_next = (\<lambda>(shut, es). case es of
       [] \<Rightarrow> (if shut then SHUTDOWN else TIMEOUT, (shut, []))
     | e # es' \<Rightarrow> (GOT_EVENT e True, (shut, es'))),
     cq_shutdown = (\<lambda>(shut, es). (True, es)),
     cq_set_alarm = (\<lambda>t e (shut, es). (shut, es @ [e]))\<rparr>"

text \<open>\<open>RpcFactory\<close>: makes an rpc on a completion queue and returns the event.\<close>

type_synonym ('r, 'cq) rpc_factory = "'cq \<Rightarrow> 'r \<times> 'cq"

record ('t, 'd, 'cq) exec_context =
  ec_threads :: "u32 list"
  ec_task_queue :: "('t, 'd) thunk tsq"
  ec_cqs :: "'cq list"
  ec_servers :: "'cq list list"
  ec_notifications :: "('t, 'd) thunk list"
  ec_state :: execution_state
  ec_next_cq_write_index :: u64
  ec_within_cq_post :: u64
  ec_n_threads :: u32

datatype ec_error = AssertionFailed | RuntimeError string

text \<open>The two constructors; the second makes its own queues.\<close>

definition make_context :: "u32 \<Rightarrow> 'cq list \<Rightarrow> ec_error + ('t, 'd, 'cq) exec_context" where
  "make_context n_threads cqs =
     (if n_threads = 0 \<or> cqs = [] then Inl AssertionFailed
      else Inr \<lparr>ec_threads = [], ec_task_queue = make_tsq (n_threads + 1), ec_cqs = cqs,
                ec_servers = [], ec_notifications = [], ec_state = Ready,
                ec_next_cq_write_index = 0, ec_within_cq_post = 0, ec_n_threads = n_threads\<rparr>)"

definition make_context_cqs :: "'cq \<Rightarrow> u32 \<Rightarrow> u32 \<Rightarrow> ec_error + ('t, 'd, 'cq) exec_context" where
  "make_context_cqs new_cq n_threads number_cqs =
     (if n_threads = 0 \<or> number_cqs = 0 then Inl AssertionFailed
      else make_context n_threads (replicate (unat number_cqs) new_cq))"

definition get_state :: "('t, 'd, 'cq) exec_context \<Rightarrow> execution_state" where
  "get_state c = ec_state c"

definition is_stopped :: "('t, 'd, 'cq) exec_context \<Rightarrow> bool" where
  "is_stopped c \<longleftrightarrow> get_state c = Stopped"

definition attach_server ::
  "'cq list \<Rightarrow> ('t, 'd, 'cq) exec_context \<Rightarrow> ec_error + ('t, 'd, 'cq) exec_context" where
  "attach_server server c =
     (if get_state c \<noteq> Ready
      then Inl (RuntimeError
        ''attempt to attach a server to an already running execution-context'')
      else Inr (c\<lparr>ec_servers := ec_servers c @ [server]\<rparr>))"

section \<open>Posting\<close>

text \<open>\<open>get_cq_\<close> takes an \<open>unsigned\<close>, so the index is narrowed to 32 bits on the way in.\<close>

definition get_cq :: "u32 \<Rightarrow> ('t, 'd, 'cq) exec_context \<Rightarrow> ec_error + nat" where
  "get_cq index c =
     (if unat index < length (ec_cqs c) then Inr (unat index) else Inl AssertionFailed)"

definition get_next_cq :: "('t, 'd, 'cq) exec_context \<Rightarrow> (ec_error + nat) \<times> ('t, 'd, 'cq) exec_context" where
  "get_next_cq c =
     (let offset = ec_next_cq_write_index c;
          c1 = c\<lparr>ec_next_cq_write_index := offset + 1\<rparr>
      in (get_cq (ucast (offset mod of_nat (length (ec_cqs c1)))) c1, c1))"

definition post_thunk ::
  "('t, 'd) thunk \<Rightarrow> ('t, 'd, 'cq) exec_context \<Rightarrow> (bool \<times> ('t, 'd, 'cq) exec_context) option" where
  "post_thunk th c =
     (case tsq_push th (ec_task_queue c) of
        None \<Rightarrow> None | Some (b, q) \<Rightarrow> Some (b, c\<lparr>ec_task_queue := q\<rparr>))"

text \<open>Put something on the next completion queue, between the two updates of the counter.\<close>

definition post_on_cq ::
  "('cq \<Rightarrow> 'cq) \<Rightarrow> ('t, 'd, 'cq) exec_context \<Rightarrow> ec_error + (bool \<times> ('t, 'd, 'cq) exec_context)" where
  "post_on_cq f c =
     (let c1 = c\<lparr>ec_within_cq_post := ec_within_cq_post c + 1\<rparr>;
          can_post = (get_state c1 \<le> Running)
      in case (if can_post
               then (case get_next_cq c1 of
                       (Inl e, _) \<Rightarrow> Inl e
                     | (Inr j, c2) \<Rightarrow> Inr (c2\<lparr>ec_cqs := (ec_cqs c2)[j := f (ec_cqs c2 ! j)]\<rparr>))
               else Inr c1) of
           Inl e \<Rightarrow> Inl e
         | Inr c3 \<Rightarrow> Inr (can_post, c3\<lparr>ec_within_cq_post := ec_within_cq_post c3 - 1\<rparr>))"

definition post_delta ::
  "(('d, 'r) cq_event, 'cq) cq_api \<Rightarrow> 'd \<Rightarrow> int \<Rightarrow> ('t, 'd, 'cq) exec_context
     \<Rightarrow> ec_error + (bool \<times> ('t, 'd, 'cq) exec_context)" where
  "post_delta api thunk delta c =
     post_on_cq (cq_set_alarm api (duration_to_grp_timespec delta) (AlarmEvent thunk)) c"

definition post_rpc ::
  "('r, 'cq) rpc_factory \<Rightarrow> ('t, 'd, 'cq) exec_context \<Rightarrow> ec_error + (bool \<times> ('t, 'd, 'cq) exec_context)" where
  "post_rpc call_factory c = post_on_cq (\<lambda>cq. snd (call_factory cq)) c"

text \<open>\<open>now\<close> and \<open>deadline\<close> are points of the steady clock, in nanoseconds.\<close>

definition post_deadline ::
  "(('d, 'r) cq_event, 'cq) cq_api \<Rightarrow> int \<Rightarrow> 'd \<Rightarrow> int \<Rightarrow> ('t, 'd, 'cq) exec_context
     \<Rightarrow> (ec_error + (bool \<times> ('t, 'd, 'cq) exec_context)) option" where
  "post_deadline api now thunk deadline c =
     (if now \<le> deadline then map_option Inr (post_thunk (CallDeadlined thunk False) c)
      else Some (post_delta api thunk (deadline - now) c))"

section \<open>Running, stopping, notifications\<close>

text \<open>\<open>run_while\<close>: only the call that moves the state from \<open>Ready\<close> starts the threads.\<close>

definition run_while :: "('t, 'd, 'cq) exec_context \<Rightarrow> ('t, 'd, 'cq) exec_context" where
  "run_while c =
     (case set_state Running (ec_state c) of
        (False, s) \<Rightarrow> c\<lparr>ec_state := s\<rparr>
      | (True, s) \<Rightarrow> c\<lparr>ec_state := s,
                     ec_threads := ec_threads c @ map of_nat [0..<unat (ec_n_threads c)]\<rparr>)"

text \<open>\<open>run\<close>: the context, and the predicate its workers are given, which never holds.\<close>

definition run_context ::
  "('t, 'd, 'cq) exec_context \<Rightarrow> ('t, 'd, 'cq) exec_context \<times> (('t, 'd, 'cq) exec_context \<Rightarrow> bool)" where
  "run_context c = (run_while c, \<lambda>c'. False)"

text \<open>The parts of \<open>stop\<close>: the claim, halting the queues, and taking the notifications.\<close>

definition begin_stop :: "('t, 'd, 'cq) exec_context \<Rightarrow> bool \<times> ('t, 'd, 'cq) exec_context" where
  "begin_stop c = (case set_state ShuttingDown (ec_state c) of (b, s) \<Rightarrow> (b, c\<lparr>ec_state := s\<rparr>))"

definition halt_queues ::
  "('e, 'cq) cq_api \<Rightarrow> ('t, 'd, 'cq) exec_context \<Rightarrow> ('t, 'd, 'cq) exec_context" where
  "halt_queues api c =
     c\<lparr>ec_cqs := map (cq_shutdown api) (ec_cqs c),
       ec_servers := map (map (cq_shutdown api)) (ec_servers c)\<rparr>"

definition take_notifications ::
  "('t, 'd, 'cq) exec_context \<Rightarrow> ('t, 'd) thunk list \<times> ('t, 'd, 'cq) exec_context" where
  "take_notifications c =
     (ec_notifications c,
      c\<lparr>ec_state := snd (set_state Stopped (ec_state c)), ec_notifications := []\<rparr>)"

definition add_notify_at_stopped ::
  "('t, 'd) thunk \<Rightarrow> ('t, 'd, 'cq) exec_context \<Rightarrow> ('t, 'd, 'cq) exec_context" where
  "add_notify_at_stopped thunk c =
     (if get_state c < Stopped then c\<lparr>ec_notifications := ec_notifications c @ [thunk]\<rparr> else c)"

section \<open>Lemmas\<close>

lemma set_state_iff:
  "set_state target current = (b, s) \<longleftrightarrow>
     (b \<longleftrightarrow> state_value target = state_value current + 1) \<and> s = (if b then target else current)"
  by (cases target; cases current) (auto simp: compare_exchange_def)

lemma set_state_forward: "set_state target current = (b, s) \<Longrightarrow> current \<le> s"
  by (auto simp: set_state_iff state_order)

lemma set_states_forward: "set_states targets current = (bs, s) \<Longrightarrow> current \<le> s"
proof (induction targets arbitrary: current bs)
  case Nil
  then show ?case by simp
next
  case (Cons t ts)
  obtain b s1 where b: "set_state t current = (b, s1)" by fastforce
  obtain bs1 s2 where rest: "set_states ts s1 = (bs1, s2)" by fastforce
  from Cons.prems b rest have "s2 = s" by simp
  with Cons.IH rest set_state_forward [OF b] show ?case by (metis order_trans)
qed

text \<open>How often a target was reached in a history.\<close>

definition wins :: "execution_state \<Rightarrow> execution_state list \<Rightarrow> bool list \<Rightarrow> nat" where
  "wins s targets bs = length (filter (\<lambda>(t, b). t = s \<and> b) (zip targets bs))"

lemma wins_none: "set_states targets current = (bs, f) \<Longrightarrow> s \<le> current \<Longrightarrow> wins s targets bs = 0"
proof (induction targets arbitrary: current bs)
  case Nil
  then show ?case by (simp add: wins_def)
next
  case (Cons t ts)
  then show ?case
    by (fastforce simp: wins_def set_state_iff state_order split: prod.splits if_splits)
qed

lemma wins_once: "set_states targets current = (bs, f) \<Longrightarrow> wins s targets bs \<le> 1"
proof (induction targets arbitrary: current bs)
  case Nil
  then show ?case by (simp add: wins_def)
next
  case (Cons t ts)
  obtain b s1 where b: "set_state t current = (b, s1)" by fastforce
  from Cons.prems b obtain bs1 where
    rest: "set_states ts s1 = (bs1, f)" and bs: "bs = b # bs1" by (auto split: prod.splits)
  show ?case
  proof (cases "t = s \<and> b")
    case True
    with b have "s1 = s" by (simp add: set_state_iff)
    with wins_none [OF rest, of s] bs True show ?thesis by (simp add: wins_def)
  next
    case False
    with Cons.IH [OF rest] bs show ?thesis by (auto simp: wins_def)
  qed
qed

definition context_wf :: "('t, 'd, 'cq) exec_context \<Rightarrow> bool" where
  "context_wf c \<longleftrightarrow> ec_cqs c \<noteq> [] \<and> length (ec_cqs c) < 2 ^ 32"

lemma get_next_cq_eq:
  assumes "context_wf c"
  shows "get_next_cq c =
     (Inr (unat (ec_next_cq_write_index c) mod length (ec_cqs c)),
      c\<lparr>ec_next_cq_write_index := ec_next_cq_write_index c + 1\<rparr>)"
proof -
  let ?n = "length (ec_cqs c)" and ?i = "ec_next_cq_write_index c"
  from assms have n: "0 < ?n" "?n < 2 ^ 32" by (auto simp: context_wf_def)
  then have unat_n: "unat (of_nat ?n :: u64) = ?n" by (simp add: unat_of_nat)
  then have idx: "unat (?i mod of_nat ?n) = unat ?i mod ?n" by (simp add: unat_mod_word)
  have "unat ?i mod ?n < 2 ^ 32" using n by (meson less_trans mod_less_divisor)
  then have "unat (ucast (?i mod of_nat ?n) :: u32) = unat ?i mod ?n"
    by (simp add: unsigned_ucast_eq take_bit_nat_eq_self idx)
  with n show ?thesis by (simp add: get_next_cq_def get_cq_def Let_def)
qed

lemma post_on_cq_eq:
  assumes "context_wf c"
  shows "post_on_cq f c =
    (if ec_state c \<le> Running
     then (let j = unat (ec_next_cq_write_index c) mod length (ec_cqs c)
           in Inr (True, c\<lparr>ec_next_cq_write_index := ec_next_cq_write_index c + 1,
                           ec_cqs := (ec_cqs c)[j := f (ec_cqs c ! j)]\<rparr>))
     else Inr (False, c))"
  using assms get_next_cq_eq [of "c\<lparr>ec_within_cq_post := ec_within_cq_post c + 1\<rparr>"]
  by (simp add: post_on_cq_def get_state_def Let_def context_wf_def)

text \<open>The completion queues that \<open>k\<close> consecutive calls of \<open>get_next_cq_\<close> return.\<close>

fun next_cqs :: "nat \<Rightarrow> ('t, 'd, 'cq) exec_context \<Rightarrow> (ec_error + nat) list" where
  "next_cqs 0 c = []"
| "next_cqs (Suc k) c = (case get_next_cq c of (r, c1) \<Rightarrow> r # next_cqs k c1)"

lemma next_cqs_eq:
  assumes "context_wf c" and "unat (ec_next_cq_write_index c) + k \<le> 2 ^ 64"
  shows "next_cqs k c =
     map (\<lambda>j. Inr ((unat (ec_next_cq_write_index c) + j) mod length (ec_cqs c))) [0..<k]"
  using assms
proof (induction k arbitrary: c)
  case 0
  then show ?case by simp
next
  case (Suc k)
  let ?c1 = "c\<lparr>ec_next_cq_write_index := ec_next_cq_write_index c + 1\<rparr>"
  have wf: "context_wf ?c1" using Suc.prems(1) by (simp add: context_wf_def)
  show ?case
  proof (cases "k = 0")
    case True
    then show ?thesis using Suc.prems(1) by (simp add: get_next_cq_eq)
  next
    case False
    have "unat (ec_next_cq_write_index c + 1) = Suc (unat (ec_next_cq_write_index c))"
      using Suc.prems(2) False by (subst unat_add_small) simp_all
    with Suc.IH [OF wf] Suc.prems
    have "next_cqs k ?c1 =
        map (\<lambda>j. Inr ((unat (ec_next_cq_write_index c) + j) mod length (ec_cqs c))) (map Suc [0..<k])"
      by simp
    then show ?thesis
      using Suc.prems(1) by (simp add: get_next_cq_eq upt_conv_Cons map_Suc_upt del: upt_Suc)
  qed
qed

text \<open>A push on a task queue without queues tries for ever.\<close>

lemma push_loop_no_queues: "ts_n_queues s = 0 \<Longrightarrow> push_loop f s = None"
proof (rule ccontr)
  assume zero: "ts_n_queues s = 0" and "push_loop f s \<noteq> None"
  then obtain r where "push_loop f s = Some r" by auto
  then have "ts_n_queues s \<noteq> 0"
    by (rule push_loop.raw_induct [where P = "\<lambda>f s r. ts_n_queues s \<noteq> 0", rotated])
       (fastforce simp: push_sweep.simps Let_def split: prod.splits if_splits)
  with zero show False by simp
qed

lemma wins_exact:
  "set_states targets current = (bs, f) \<Longrightarrow>
     wins s targets bs = (if current < s \<and> s \<le> f then 1 else 0)"
proof (induction targets arbitrary: current bs)
  case Nil
  then show ?case by (auto simp: wins_def)
next
  case (Cons t ts)
  obtain b s1 where b: "set_state t current = (b, s1)" by fastforce
  from Cons.prems b obtain bs1 where
    rest: "set_states ts s1 = (bs1, f)" and bs: "bs = b # bs1" by (auto split: prod.splits)
  have split: "wins s (t # ts) bs = (if t = s \<and> b then 1 else 0) + wins s ts bs1"
    by (simp add: wins_def bs)
  show ?case
  proof (cases b)
    case False
    with b have "s1 = current" by (simp add: set_state_iff)
    with Cons.IH [OF rest] split False show ?thesis by simp
  next
    case True
    with b have s1: "s1 = t" and next1: "state_value t = state_value current + 1"
      by (auto simp: set_state_iff)
    from set_states_forward [OF rest] s1 have le: "t \<le> f" by simp
    have "current < s \<longleftrightarrow> s = t \<or> t < s"
      using next1 by (cases s; cases t; cases current) (auto simp: state_order)
    with Cons.IH [OF rest] split True s1 le show ?thesis by (auto simp: state_order)
  qed
qed

section \<open>Properties\<close>

text \<open>
  C24. Whatever sequence of \<open>set_state_\<close> calls the threads make, the state only moves
  forward, and every state between the first and the last is entered by exactly one of the
  calls: so at most one call of \<open>run_while\<close> starts the threads and at most one call of
  \<open>stop\<close> goes past its first line.
\<close>

theorem state_entered_once:
  assumes "set_states targets current = (bs, final)"
  shows "current \<le> final \<and>
    length (filter (\<lambda>(t, b). t = s \<and> b) (zip targets bs)) = (if current < s \<and> s \<le> final then 1 else 0)"
  using set_states_forward [OF assms] wins_exact [OF assms, of s] by (simp add: wins_def)

lemma state_entered_once_witness:
  "let (bs, final) = set_states [ShuttingDown, Running, ShuttingDown, Running, ShuttingDown, Stopped] Ready
   in final = Stopped \<and> length (filter (\<lambda>(t, b). t = ShuttingDown \<and> b)
        (zip [ShuttingDown, Running, ShuttingDown, Running, ShuttingDown, Stopped] bs)) = 1"
proof -
  let ?ts = "[ShuttingDown, Running, ShuttingDown, Running, ShuttingDown, Stopped]"
  obtain bs f where eq: "set_states ?ts Ready = (bs, f)" by fastforce
  then have "f = Stopped" by (auto simp: compare_exchange_def)
  with state_entered_once [OF eq, of ShuttingDown] eq show ?thesis by (simp add: state_order)
qed

text \<open>
  An rpc is made exactly if the context is \<open>Ready\<close> or \<open>Running\<close>: then on one
  completion queue, the next one in turn, and nothing else changes but the turn; otherwise
  the call returns false and changes nothing. The counter of posts under way is restored,
  and no assertion fails.
\<close>

theorem post_rpc_on_next_queue:
  assumes "ec_cqs c \<noteq> []" and "length (ec_cqs c) < 2 ^ 32"
  shows "post_rpc call_factory c =
    (if ec_state c = Ready \<or> ec_state c = Running
     then (let j = unat (ec_next_cq_write_index c) mod length (ec_cqs c)
           in Inr (True, c\<lparr>ec_next_cq_write_index := ec_next_cq_write_index c + 1,
                           ec_cqs := (ec_cqs c)[j := snd (call_factory (ec_cqs c ! j))]\<rparr>))
     else Inr (False, c))"
proof -
  have "ec_state c \<le> Running \<longleftrightarrow> ec_state c = Ready \<or> ec_state c = Running"
    by (cases "ec_state c") (auto simp: state_order)
  with assms show ?thesis by (simp add: post_rpc_def post_on_cq_eq context_wf_def)
qed

lemma post_rpc_witness:
  "\<exists>c :: (nat, nat, nat list) exec_context. make_context 2 [[], [7]] = Inr c \<and>
     (\<exists>c'. post_rpc (\<lambda>cq. (4 :: nat, cq @ [4 :: nat])) (c\<lparr>ec_next_cq_write_index := 3\<rparr>) = Inr (True, c') \<and>
       ec_cqs c' = [[], [7, 4]])"
proof -
  obtain c :: "(nat, nat, nat list) exec_context" where c: "make_context 2 [[], [7]] = Inr c"
    by (simp add: make_context_def)
  then have f: "ec_cqs c = [[], [7]]" "ec_state c = Ready" by (auto simp: make_context_def)
  show ?thesis
    using c f post_rpc_on_next_queue [of "c\<lparr>ec_next_cq_write_index := 3\<rparr>" "\<lambda>cq. (4 :: nat, cq @ [4])"]
    by (simp add: numeral_2_eq_2 [symmetric] Let_def)
qed

text \<open>
  Posts are spread evenly: as many consecutive posts as there are completion queues use
  each queue exactly once, in a rotation that starts at the turn, as long as the 64-bit
  counter does not wrap around.
\<close>

theorem posts_round_robin:
  assumes "ec_cqs c \<noteq> []" and "length (ec_cqs c) < 2 ^ 32"
    and "unat (ec_next_cq_write_index c) + length (ec_cqs c) \<le> 2 ^ 64"
  shows "next_cqs (length (ec_cqs c)) c =
    map Inr (rotate (unat (ec_next_cq_write_index c)) [0..<length (ec_cqs c)])"
proof -
  have "next_cqs (length (ec_cqs c)) c =
      map Inr (map (\<lambda>j. (unat (ec_next_cq_write_index c) + j) mod length (ec_cqs c)) [0..<length (ec_cqs c)])"
    using assms by (simp add: next_cqs_eq context_wf_def)
  then show ?thesis by (simp only: map_mod_rotate)
qed

lemma posts_round_robin_witness:
  "\<exists>c :: (nat, nat, nat) exec_context. make_context 2 [7, 8, 9] = Inr c \<and>
     next_cqs 3 (c\<lparr>ec_next_cq_write_index := 4\<rparr>) = [Inr 1, Inr 2, Inr 0]"
proof -
  obtain c :: "(nat, nat, nat) exec_context" where c: "make_context 2 [7, 8, 9] = Inr c"
    by (simp add: make_context_def)
  then have f: "ec_cqs c = [7, 8, 9]" by (auto simp: make_context_def)
  have rot: "rotate 4 [0..<3] = [1, 2, 0 :: nat]"
    by (simp add: rotate_def upt_rec numeral_eq_Suc)
  have "next_cqs 3 (c\<lparr>ec_next_cq_write_index := 4\<rparr>) = map Inr (rotate 4 [0..<3])"
    using f posts_round_robin [of "c\<lparr>ec_next_cq_write_index := 4\<rparr>"]
    by (simp del: next_cqs.simps add: numeral_3_eq_3 [symmetric])
  with c rot show ?thesis by (intro exI [of _ c]) simp
qed



text \<open>
  A context that is made with the largest number of threads has a task queue without
  queues (the number of queues wraps around to 0), on which \<open>post\<close> never returns; any
  smaller positive number gives one queue more than threads, and \<open>post\<close> accepts.
\<close>

theorem context_task_queue_size:
  assumes "make_context n_threads cqs = Inr c"
  shows "if n_threads = - 1 then post_thunk th c = None
    else length (ts_queues (ec_task_queue c)) = unat n_threads + 1 \<and>
      (\<exists>c'. post_thunk th c = Some (True, c') \<and> tsq_bag (ec_task_queue c') = {#th#})"
proof -
  from assms have q: "ec_task_queue c = make_tsq (n_threads + 1)"
    by (auto simp: make_context_def split: if_splits)
  show ?thesis
  proof (cases "n_threads = - 1")
    case True
    then show ?thesis
      by (simp add: post_thunk_def q tsq_push_def done_is_signalled_def make_tsq_def Let_def
          push_loop_no_queues)
  next
    case False
    then have n0: "n_threads + 1 \<noteq> 0" by (metis add.commute add_left_cancel add.right_neutral ab_left_minus)
    then have size: "unat (n_threads + 1) = unat n_threads + 1"
      by (metis add.commute unatSuc Suc_eq_plus1)
    have usable: "tsq_usable (make_tsq (n_threads + 1) :: ('a, 'b) thunk tsq)"
      using n0 by (simp add: tsq_usable_def tsq_wf_def make_tsq_def in_set_replicate unat_gt_0)
    have nd: "\<not> ts_is_done (make_tsq (n_threads + 1) :: ('a, 'b) thunk tsq)"
      by (simp add: make_tsq_def)
    from push_returns_inserts [OF usable nd, of th] obtain s' where
      "tsq_push th (make_tsq (n_threads + 1)) = Some (True, s')"
      "tsq_bag s' = tsq_bag (make_tsq (n_threads + 1)) + {#th#}" by blast
    then show ?thesis
      using False by (simp add: post_thunk_def q size tsq_bag_def make_tsq_def)
  qed
qed

lemma context_task_queue_size_witness:
  "\<exists>c :: (nat, nat, nat) exec_context. make_context 2 [0] = Inr c \<and>
     length (ts_queues (ec_task_queue c)) = 3 \<and> (\<exists>c'. post_thunk (Plain 4) c = Some (True, c'))"
proof -
  obtain c :: "(nat, nat, nat) exec_context" where c: "make_context 2 [0] = Inr c"
    by (simp add: make_context_def)
  show ?thesis using c context_task_queue_size [OF c, of "Plain 4"] by auto
qed

text \<open>
  Servers are attached before the start only, and the threads are started once: after
  \<open>run_while\<close> on a new context there are exactly the configured threads, numbered from 0,
  attaching a server throws, and further calls of \<open>run_while\<close> change nothing.
\<close>

theorem run_once_then_no_attach:
  assumes "make_context n_threads cqs = Inr c"
  shows "(\<exists>c1. attach_server server c = Inr c1 \<and> ec_servers c1 = [server]) \<and>
    ec_threads (run_while c) = map of_nat [0..<unat n_threads] \<and>
    ec_state (run_while c) = Running \<and>
    run_while (run_while c) = run_while c \<and>
    (\<exists>what. attach_server server (run_while c) = Inl (RuntimeError what))"
  using assms
  by (auto simp: make_context_def attach_server_def run_while_def get_state_def
      compare_exchange_def split: if_splits)

lemma run_once_witness:
  "\<exists>c :: (nat, nat, nat) exec_context. make_context 2 [0] = Inr c \<and>
     ec_threads (run_while c) = [0, 1] \<and> ec_state (run_while c) = Running"
proof -
  obtain c :: "(nat, nat, nat) exec_context" where c: "make_context 2 [0] = Inr c"
    by (simp add: make_context_def)
  have "[0..<2] = [0, 1 :: nat]" by (simp add: upt_rec)
  with c run_once_then_no_attach [OF c] show ?thesis by simp
qed

end
