(* ===== verification/Execution_Worker.thy ===== *)
theory Execution_Worker
  imports Execution_Context
begin

text \<open>
  The loop of a worker thread, \<open>run_one_thread_\<close> and \<open>execute_cq_\<close> of
  \<open>sgrpc/execution_context.cpp\<close>, and \<open>stop\<close> as one thread calls it.

  What the events and thunks do when they run is the users' code: a parameter that may
  change the context. The completion queues are visited by their place in the context (own
  or a server's); the vectors of queues do not change while threads run, so the places are
  those at the start of the round.
\<close>

section \<open>Definitions\<close>

record ('t, 'd, 'r, 'cq) user_code =
  complete_event :: "('d, 'r) cq_event \<Rightarrow> bool \<Rightarrow> ('t, 'd, 'cq) exec_context \<Rightarrow> ('t, 'd, 'cq) exec_context"
  run_thunk :: "('t, 'd) thunk \<Rightarrow> ('t, 'd, 'cq) exec_context \<Rightarrow> ('t, 'd, 'cq) exec_context"

datatype cq_execution_result = ExecutedNone | ExecutedOne | ShutdownRequested

datatype cq_place = OwnQueue nat | ServerQueue nat nat

fun queue_at :: "cq_place \<Rightarrow> ('t, 'd, 'cq) exec_context \<Rightarrow> 'cq" where
  "queue_at (OwnQueue j) c = ec_cqs c ! j"
| "queue_at (ServerQueue k j) c = ec_servers c ! k ! j"

fun set_queue_at :: "cq_place \<Rightarrow> 'cq \<Rightarrow> ('t, 'd, 'cq) exec_context \<Rightarrow> ('t, 'd, 'cq) exec_context" where
  "set_queue_at (OwnQueue j) cq c = c\<lparr>ec_cqs := (ec_cqs c)[j := cq]\<rparr>"
| "set_queue_at (ServerQueue k j) cq c =
     c\<lparr>ec_servers := (ec_servers c)[k := (ec_servers c ! k)[j := cq]]\<rparr>"

text \<open>\<open>execute_cq_\<close>: poll one queue, with an instant deadline, and complete what it yields.\<close>

definition execute_cq ::
  "(('d, 'r) cq_event, 'cq) cq_api \<Rightarrow> ('t, 'd, 'r, 'cq) user_code \<Rightarrow> cq_place
     \<Rightarrow> ('t, 'd, 'cq) exec_context \<Rightarrow> cq_execution_result \<times> ('t, 'd, 'cq) exec_context" where
  "execute_cq api user p c =
     (case cq_async_next api (queue_at p c) of
        (status, cq) \<Rightarrow>
          (let c1 = set_queue_at p cq c
           in case status of
                SHUTDOWN \<Rightarrow> (ShutdownRequested, c1)
              | GOT_EVENT tag is_ok \<Rightarrow> (ExecutedOne, complete_event user tag is_ok c1)
              | TIMEOUT \<Rightarrow> (ExecutedNone, c1)))"

record cq_counts =
  things_executed :: u32
  shutdown_cqs :: u32
  total_cqs :: u32

fun count_result :: "cq_execution_result \<Rightarrow> cq_counts \<Rightarrow> cq_counts" where
  "count_result ExecutedNone k = k"
| "count_result ExecutedOne k = k\<lparr>things_executed := things_executed k + 1\<rparr>"
| "count_result ShutdownRequested k = k\<lparr>shutdown_cqs := shutdown_cqs k + 1\<rparr>"

text \<open>\<open>(thread_number + i) % cqs.size()\<close>: the sum is 32 bits wide.\<close>

definition visit_index :: "u32 \<Rightarrow> nat \<Rightarrow> nat \<Rightarrow> nat" where
  "visit_index thread_number n i = unat (thread_number + of_nat i) mod n"

text \<open>The loop of \<open>run_completion_queues\<close> over one group of queues, until one thing ran.\<close>

function run_cqs_loop ::
  "(('d, 'r) cq_event, 'cq) cq_api \<Rightarrow> ('t, 'd, 'r, 'cq) user_code \<Rightarrow> u32 \<Rightarrow> cq_place list
     \<Rightarrow> u32 \<Rightarrow> nat \<Rightarrow> cq_counts \<Rightarrow> ('t, 'd, 'cq) exec_context
     \<Rightarrow> cq_counts \<times> ('t, 'd, 'cq) exec_context" where
  "run_cqs_loop api user tn ps current i k c =
     (if i < length ps \<and> current = things_executed k
      then (case execute_cq api user (ps ! visit_index tn (length ps) i) c of
              (r, c1) \<Rightarrow> run_cqs_loop api user tn ps current (i + 1) (count_result r k) c1)
      else (k, c))"
  by pat_completeness auto
termination
  by (relation "measure (\<lambda>(api, user, tn, ps, current, i, k, c). length ps - i)") auto

declare run_cqs_loop.simps [simp del]

definition run_completion_queues ::
  "(('d, 'r) cq_event, 'cq) cq_api \<Rightarrow> ('t, 'd, 'r, 'cq) user_code \<Rightarrow> u32 \<Rightarrow> cq_place list
     \<Rightarrow> cq_counts \<times> ('t, 'd, 'cq) exec_context \<Rightarrow> cq_counts \<times> ('t, 'd, 'cq) exec_context" where
  "run_completion_queues api user tn ps kc =
     (case kc of (k, c) \<Rightarrow>
        (let k1 = k\<lparr>total_cqs := total_cqs k + of_nat (length ps)\<rparr>
         in run_cqs_loop api user tn ps (things_executed k1) 0 k1 c))"

text \<open>The groups: the context's own queues, then those of each server.\<close>

definition server_places :: "nat \<Rightarrow> 'cq list \<Rightarrow> cq_place list" where
  "server_places k cqs = map (ServerQueue k) [0..<length cqs]"

definition queue_groups :: "('t, 'd, 'cq) exec_context \<Rightarrow> cq_place list list" where
  "queue_groups c =
     map OwnQueue [0..<length (ec_cqs c)] #
     map (\<lambda>k. server_places k (ec_servers c ! k)) [0..<length (ec_servers c)]"

fun run_groups ::
  "(('d, 'r) cq_event, 'cq) cq_api \<Rightarrow> ('t, 'd, 'r, 'cq) user_code \<Rightarrow> u32 \<Rightarrow> cq_place list list
     \<Rightarrow> cq_counts \<times> ('t, 'd, 'cq) exec_context \<Rightarrow> cq_counts \<times> ('t, 'd, 'cq) exec_context" where
  "run_groups api user tn [] kc = kc"
| "run_groups api user tn (ps # pss) kc =
     run_groups api user tn pss (run_completion_queues api user tn ps kc)"

text \<open>
  The rest of the round: leave the loop if every queue reported shutdown, otherwise run one
  thunk of the task queue, and sleep if nothing ran. The local \<open>thunk\<close> keeps its value from
  round to round.
\<close>

datatype round_end = LeaveLoop | NextRound bool

definition worker_round ::
  "(('d, 'r) cq_event, 'cq) cq_api \<Rightarrow> ('t, 'd, 'r, 'cq) user_code \<Rightarrow> u32 \<Rightarrow> ('t, 'd) thunk option
     \<Rightarrow> ('t, 'd, 'cq) exec_context
     \<Rightarrow> round_end \<times> ('t, 'd) thunk option \<times> ('t, 'd, 'cq) exec_context" where
  "worker_round api user tn thunk c =
     (let k0 = \<lparr>things_executed = 0, shutdown_cqs = 0, total_cqs = 0\<rparr>
      in case run_groups api user tn (queue_groups c) (k0, c) of
           (k, c1) \<Rightarrow>
             (if shutdown_cqs k = total_cqs k then (LeaveLoop, thunk, c1)
              else (case tsq_try_pop function_move thunk (ec_task_queue c1) of
                      (did_pop, thunk', q) \<Rightarrow>
                        (let c2 = c1\<lparr>ec_task_queue := q\<rparr>
                         in if did_pop
                            then (NextRound (things_executed k + 1 = 0), thunk',
                                  run_thunk user (the thunk') c2)
                            else (NextRound (things_executed k = 0), thunk', c2)))))"

text \<open>After the loop: eject what is left in the task queue and run it in this thread.\<close>

definition worker_drain ::
  "('t, 'd, 'r, 'cq) user_code \<Rightarrow> ('t, 'd, 'cq) exec_context \<Rightarrow> ('t, 'd, 'cq) exec_context option" where
  "worker_drain user c =
     (case stop_and_eject (ec_task_queue c) of
        None \<Rightarrow> None
      | Some (thunks, q) \<Rightarrow> Some (fold (run_thunk user) thunks (c\<lparr>ec_task_queue := q\<rparr>)))"

subsection \<open>Stopping\<close>

text \<open>
  \<open>thread.join()\<close> on every thread, in order: it throws when a thread joins itself, and
  waits for a thread that has not finished. \<open>self\<close> is the caller's number, if it is one of
  the workers; \<open>finished\<close> says which workers have returned.
\<close>

datatype join_result = Joined | JoinThrew | JoinWaits u32

fun join_all :: "u32 option \<Rightarrow> (u32 \<Rightarrow> bool) \<Rightarrow> u32 list \<Rightarrow> join_result" where
  "join_all self finished [] = Joined"
| "join_all self finished (t # ts) =
     (if self = Some t then JoinThrew
      else if finished t then join_all self finished ts
      else JoinWaits t)"

text \<open>
  \<open>stop\<close>: it returns, waits for another thread, or throws. The destructor of the context is
  a call of it.
\<close>

datatype 'c stop_outcome = StopReturned 'c | StopWaits 'c | StopThrew 'c

definition stop ::
  "(('d, 'r) cq_event, 'cq) cq_api \<Rightarrow> ('t, 'd, 'r, 'cq) user_code \<Rightarrow> u32 option \<Rightarrow> (u32 \<Rightarrow> bool)
     \<Rightarrow> ('t, 'd, 'cq) exec_context \<Rightarrow> ('t, 'd, 'cq) exec_context stop_outcome" where
  "stop api user self finished c =
     (case begin_stop c of
        (False, c1) \<Rightarrow> StopReturned c1
      | (True, c1) \<Rightarrow>
          (if 0 < ec_within_cq_post c1 then StopWaits c1
           else (let c2 = halt_queues api c1
                 in case join_all self finished (ec_threads c2) of
                      JoinThrew \<Rightarrow> StopThrew c2
                    | JoinWaits t \<Rightarrow> StopWaits c2
                    | Joined \<Rightarrow>
                        (case take_notifications (c2\<lparr>ec_threads := []\<rparr>) of
                           (notifications, c3) \<Rightarrow>
                             StopReturned (fold (run_thunk user) notifications c3)))))"

text \<open>
  One turn of \<open>while(true)\<close>: the predicate, \<open>stop\<close> if it holds, then the round. An exception
  of \<open>stop\<close> is outside the \<open>try\<close> block and leaves the thread function: \<open>std::terminate\<close>.
\<close>

datatype ('t, 'd, 'cq) turn =
    TurnDone round_end "('t, 'd) thunk option" "('t, 'd, 'cq) exec_context"
  | TurnWaits "('t, 'd, 'cq) exec_context"
  | Terminated

definition worker_turn ::
  "(('d, 'r) cq_event, 'cq) cq_api \<Rightarrow> ('t, 'd, 'r, 'cq) user_code
     \<Rightarrow> (('t, 'd, 'cq) exec_context \<Rightarrow> bool) \<Rightarrow> u32 \<Rightarrow> (u32 \<Rightarrow> bool) \<Rightarrow> ('t, 'd) thunk option
     \<Rightarrow> ('t, 'd, 'cq) exec_context \<Rightarrow> ('t, 'd, 'cq) turn" where
  "worker_turn api user predicate tn finished thunk c =
     (case (if predicate c then stop api user (Some tn) finished c else StopReturned c) of
        StopThrew c1 \<Rightarrow> Terminated
      | StopWaits c1 \<Rightarrow> TurnWaits c1
      | StopReturned c1 \<Rightarrow>
          (case worker_round api user tn thunk c1 of (e, thunk', c2) \<Rightarrow> TurnDone e thunk' c2))"

section \<open>One pass over the queues\<close>

definition shut_at ::
  "(('d, 'r) cq_event, 'cq) cq_api \<Rightarrow> ('t, 'd, 'cq) exec_context \<Rightarrow> cq_place \<Rightarrow> bool" where
  "shut_at api c p \<longleftrightarrow> fst (cq_async_next api (queue_at p c)) = SHUTDOWN"

text \<open>Polling a queue without running anything.\<close>

definition advance ::
  "(('d, 'r) cq_event, 'cq) cq_api \<Rightarrow> cq_place \<Rightarrow> ('t, 'd, 'cq) exec_context \<Rightarrow> ('t, 'd, 'cq) exec_context" where
  "advance api p c = set_queue_at p (snd (cq_async_next api (queue_at p c))) c"

lemma queue_at_other: "p \<noteq> p' \<Longrightarrow> queue_at p (set_queue_at p' cq c) = queue_at p c"
proof (cases p'; cases p)
  fix k j k' j' assume ne: "p \<noteq> p'" and p: "p' = ServerQueue k j" "p = ServerQueue k' j'"
  show ?thesis
  proof (cases "k < length (ec_servers c) \<and> k = k'")
    case True
    with ne p show ?thesis by auto
  next
    case False
    then show ?thesis using p by (auto simp: list_update_beyond)
  qed
qed auto

lemma shut_at_advance: "p \<noteq> p' \<Longrightarrow> shut_at api (advance api p' c) p = shut_at api c p"
  by (simp add: shut_at_def advance_def queue_at_other)

lemma shut_at_fold_advance:
  "p \<notin> set ps \<Longrightarrow> shut_at api (fold (advance api) ps c) p = shut_at api c p"
  by (induction ps arbitrary: c) (auto simp: shut_at_advance)

lemma execute_cq_cases:
  "(shut_at api c p \<and> execute_cq api user p c = (ShutdownRequested, advance api p c)) \<or>
   (\<not> shut_at api c p \<and> execute_cq api user p c = (ExecutedNone, advance api p c)) \<or>
   (\<not> shut_at api c p \<and> (\<exists>c'. execute_cq api user p c = (ExecutedOne, c')))"
  by (auto simp: execute_cq_def shut_at_def advance_def Let_def split: prod.split next_status.split)

definition visits :: "u32 \<Rightarrow> cq_place list \<Rightarrow> nat \<Rightarrow> cq_place list" where
  "visits tn ps i = map (\<lambda>i. ps ! visit_index tn (length ps) i) [i..<length ps]"

lemma visits_Cons:
  "i < length ps \<Longrightarrow> visits tn ps i = ps ! visit_index tn (length ps) i # visits tn ps (i + 1)"
  by (simp add: visits_def upt_conv_Cons)

lemma run_cqs_loop_pass:
  assumes "run_cqs_loop api user tn ps current i k c = (k', c')"
    and "current = things_executed k" and "distinct (visits tn ps i)"
  shows "\<exists>m \<le> length ps - i. shutdown_cqs k' = shutdown_cqs k + of_nat m \<and>
      total_cqs k' = total_cqs k \<and>
      (m = length ps - i \<longleftrightarrow> (\<forall>p \<in> set (visits tn ps i). shut_at api c p)) \<and>
      (m = length ps - i \<longrightarrow>
         things_executed k' = things_executed k \<and> c' = fold (advance api) (visits tn ps i) c)"
  using assms
proof (induction api user tn ps current i k c rule: run_cqs_loop.induct)
  case (1 api user tn ps current i k c)
  show ?case
  proof (cases "i < length ps")
    case False
    then have "run_cqs_loop api user tn ps current i k c = (k, c)"
      by (simp add: run_cqs_loop.simps [of api user tn ps current i k c])
    with "1.prems"(1) False show ?thesis by (simp add: visits_def)
  next
    case True
    let ?p = "ps ! visit_index tn (length ps) i" and ?rest = "visits tn ps (i + 1)"
    note vis = visits_Cons [OF True, of tn]
    have other: "?p \<notin> set ?rest" and dist: "distinct ?rest" using "1.prems"(3) vis by auto
    from True "1.prems"(2) have go: "i < length ps \<and> current = things_executed k" by simp
    have step: "run_cqs_loop api user tn ps current i k c =
        (case execute_cq api user ?p c of
           (r, c1) \<Rightarrow> run_cqs_loop api user tn ps current (i + 1) (count_result r k) c1)"
      by (subst run_cqs_loop.simps) (simp add: go)
    from execute_cq_cases [of api c ?p user] show ?thesis
    proof (elim disjE conjE exE)
      assume shut: "shut_at api c ?p" and ex: "execute_cq api user ?p c = (ShutdownRequested, advance api ?p c)"
      have same: "shut_at api (advance api ?p c) p = shut_at api c p" if "p \<in> set ?rest" for p
        using that other by (intro shut_at_advance) auto
      from "1.IH" [OF go ex [symmetric]] "1.prems"(1,2) step ex dist obtain m where
        "m \<le> length ps - (i + 1)" "shutdown_cqs k' = shutdown_cqs k + 1 + of_nat m"
        "total_cqs k' = total_cqs k"
        "m = length ps - (i + 1) \<longleftrightarrow> (\<forall>p \<in> set ?rest. shut_at api c p)"
        "m = length ps - (i + 1) \<longrightarrow>
           things_executed k' = things_executed k \<and> c' = fold (advance api) ?rest (advance api ?p c)"
        by (auto simp: same)
      then show ?thesis
        using True shut vis by (intro exI [of _ "Suc m"]) auto
    next
      assume up: "\<not> shut_at api c ?p" and ex: "execute_cq api user ?p c = (ExecutedNone, advance api ?p c)"
      from "1.IH" [OF go ex [symmetric]] "1.prems"(1,2) step ex dist obtain m where
        "m \<le> length ps - (i + 1)" "shutdown_cqs k' = shutdown_cqs k + of_nat m"
        "total_cqs k' = total_cqs k"
        by auto
      then show ?thesis
        using True up vis by (intro exI [of _ m]) auto
    next
      fix c1 assume up: "\<not> shut_at api c ?p" and ex: "execute_cq api user ?p c = (ExecutedOne, c1)"
      have "run_cqs_loop api user tn ps current (i + 1) (count_result ExecutedOne k) c1 =
          (count_result ExecutedOne k, c1)"
        using "1.prems"(2) by (simp add: run_cqs_loop.simps)
      then show ?thesis
        using "1.prems"(1) step ex up True vis by (intro exI [of _ 0]) auto
    qed
  qed
qed

lemma visits_rotate:
  assumes "unat tn + length ps \<le> 2 ^ 32"
  shows "visits tn ps 0 = rotate (unat tn) ps"
proof (rule nth_equalityI)
  show "length (visits tn ps 0) = length (rotate (unat tn) ps)" by (simp add: visits_def)
next
  fix i assume "i < length (visits tn ps 0)"
  then have i: "i < length ps" by (simp add: visits_def)
  with assms have sum: "unat tn + i < 2 ^ 32" by linarith
  then have small: "unat (of_nat i :: u32) = i" by (simp add: unat_of_nat)
  with sum have "unat (tn + of_nat i) = unat tn + i" by (subst unat_add_small) simp_all
  with i show "visits tn ps 0 ! i = rotate (unat tn) ps ! i"
    by (simp add: visits_def visit_index_def nth_rotate add.commute)
qed

text \<open>The queues as a flat list of places, and what one round asks of them.\<close>

definition queue_places :: "('t, 'd, 'cq) exec_context \<Rightarrow> cq_place list" where
  "queue_places c = concat (queue_groups c)"

definition sizes_fit :: "u32 \<Rightarrow> cq_place list list \<Rightarrow> bool" where
  "sizes_fit tn pss \<longleftrightarrow> (\<forall>ps \<in> set pss. unat tn + length ps \<le> 2 ^ 32) \<and> length (concat pss) < 2 ^ 32"

lemma sizes_fit_Cons:
  "sizes_fit tn (ps # pss) \<Longrightarrow> unat tn + length ps \<le> 2 ^ 32 \<and> sizes_fit tn pss"
  by (auto simp: sizes_fit_def)

lemma run_completion_queues_pass:
  assumes "run_completion_queues api user tn ps (k, c) = (k', c')"
    and "distinct ps" and "unat tn + length ps \<le> 2 ^ 32"
  shows "\<exists>m \<le> length ps. shutdown_cqs k' = shutdown_cqs k + of_nat m \<and>
      total_cqs k' = total_cqs k + of_nat (length ps) \<and>
      (m = length ps \<longleftrightarrow> (\<forall>p \<in> set ps. shut_at api c p)) \<and>
      (m = length ps \<longrightarrow>
         things_executed k' = things_executed k \<and> c' = fold (advance api) (rotate (unat tn) ps) c)"
proof -
  note vis = visits_rotate [OF assms(3)]
  have "distinct (visits tn ps 0)" using assms(2) by (simp add: vis)
  from run_cqs_loop_pass [OF assms(1) [unfolded run_completion_queues_def Let_def prod.case] _ this]
  show ?thesis by (simp add: vis)
qed

lemma run_groups_pass:
  assumes "run_groups api user tn pss (k, c) = (k', c')"
    and "distinct (concat pss)" and "sizes_fit tn pss"
  shows "\<exists>m \<le> length (concat pss). shutdown_cqs k' = shutdown_cqs k + of_nat m \<and>
      total_cqs k' = total_cqs k + of_nat (length (concat pss)) \<and>
      (m = length (concat pss) \<longleftrightarrow> (\<forall>p \<in> set (concat pss). shut_at api c p)) \<and>
      (m = length (concat pss) \<longrightarrow>
         things_executed k' = things_executed k \<and>
         c' = fold (advance api) (concat (map (rotate (unat tn)) pss)) c)"
  using assms
proof (induction pss arbitrary: k c)
  case Nil
  then show ?case by simp
next
  case (Cons ps pss)
  note fit = sizes_fit_Cons [OF Cons.prems(3)]
  have d: "distinct ps" "distinct (concat pss)" "set ps \<inter> set (concat pss) = {}"
    using Cons.prems(2) by (simp_all add: distinct_append [of ps "concat pss"])
  obtain k1 c1 where one: "run_completion_queues api user tn ps (k, c) = (k1, c1)" by fastforce
  with Cons.prems(1) have rest: "run_groups api user tn pss (k1, c1) = (k', c')" by simp
  from run_completion_queues_pass [OF one d(1)] fit obtain m where
    m: "m \<le> length ps" "shutdown_cqs k1 = shutdown_cqs k + of_nat m"
      "total_cqs k1 = total_cqs k + of_nat (length ps)"
      "m = length ps \<longleftrightarrow> (\<forall>p \<in> set ps. shut_at api c p)"
      "m = length ps \<longrightarrow> things_executed k1 = things_executed k \<and>
         c1 = fold (advance api) (rotate (unat tn) ps) c" by blast
  from Cons.IH [OF rest d(2)] fit obtain n where
    n: "n \<le> length (concat pss)" "shutdown_cqs k' = shutdown_cqs k1 + of_nat n"
      "total_cqs k' = total_cqs k1 + of_nat (length (concat pss))"
      "n = length (concat pss) \<longleftrightarrow> (\<forall>p \<in> set (concat pss). shut_at api c1 p)"
      "n = length (concat pss) \<longrightarrow> things_executed k' = things_executed k1 \<and>
         c' = fold (advance api) (concat (map (rotate (unat tn)) pss)) c1" by blast
  have keep: "shut_at api c1 p = shut_at api c p" if "m = length ps" "p \<in> set (concat pss)" for p
  proof -
    from that(2) d(3) have "p \<notin> set (rotate (unat tn) ps)" by auto
    then show ?thesis using m(5) that(1) by (simp add: shut_at_fold_advance)
  qed
  have full: "m + n = length (concat (ps # pss)) \<longleftrightarrow> m = length ps \<and> n = length (concat pss)"
    using m(1) n(1) by simp linarith
  have split: "(\<forall>p \<in> set (concat (ps # pss)). shut_at api c p) \<longleftrightarrow>
      (\<forall>p \<in> set ps. shut_at api c p) \<and> (\<forall>p \<in> set (concat pss). shut_at api c p)" by auto
  show ?case
  proof (intro exI [of _ "m + n"] conjI)
    show "m + n \<le> length (concat (ps # pss))" using m(1) n(1) by simp
    show "shutdown_cqs k' = shutdown_cqs k + of_nat (m + n)" using m(2) n(2) by simp
    show "total_cqs k' = total_cqs k + of_nat (length (concat (ps # pss)))" using m(3) n(3) by simp
    show "m + n = length (concat (ps # pss)) \<longleftrightarrow> (\<forall>p \<in> set (concat (ps # pss)). shut_at api c p)"
      unfolding full split using m(4) n(4) keep by blast
    show "m + n = length (concat (ps # pss)) \<longrightarrow> things_executed k' = things_executed k \<and>
        c' = fold (advance api) (concat (map (rotate (unat tn)) (ps # pss))) c"
      unfolding full using m(5) n(5) by auto
  qed
qed

text \<open>The completion queues of a context, its own and those of its servers.\<close>

definition all_queues :: "('t, 'd, 'cq) exec_context \<Rightarrow> 'cq list" where
  "all_queues c = ec_cqs c @ concat (ec_servers c)"

lemma queue_places_queues: "map (\<lambda>p. queue_at p c) (queue_places c) = all_queues c"
proof -
  have server: "map (\<lambda>p. queue_at p c) (server_places k (ec_servers c ! k)) = ec_servers c ! k" for k
    by (simp add: server_places_def comp_def map_nth)
  have "map (map (\<lambda>p. queue_at p c)) (map (\<lambda>k. server_places k (ec_servers c ! k)) [0..<length (ec_servers c)])
      = ec_servers c" by (simp add: comp_def server map_nth)
  then show ?thesis
    by (simp add: queue_places_def queue_groups_def all_queues_def map_concat comp_def map_nth server)
qed

lemma distinct_server_places:
  "distinct ks \<Longrightarrow> distinct (concat (map (\<lambda>k. server_places k (f k)) ks))"
  by (induction ks) (auto simp: server_places_def distinct_map inj_on_def)

lemma distinct_queue_places: "distinct (queue_places c)"
  using distinct_server_places [of "[0..<length (ec_servers c)]" "\<lambda>k. ec_servers c ! k"]
  by (auto simp: queue_places_def queue_groups_def distinct_map inj_on_def server_places_def)

lemma shut_queues:
  "(\<forall>p \<in> set (queue_places c). shut_at api c p) \<longleftrightarrow>
     (\<forall>cq \<in> set (all_queues c). fst (cq_async_next api cq) = SHUTDOWN)"
  by (simp add: queue_places_queues [symmetric] shut_at_def)

lemma advance_frame:
  "fold (advance api) ps c =
     c\<lparr>ec_cqs := ec_cqs (fold (advance api) ps c), ec_servers := ec_servers (fold (advance api) ps c)\<rparr>"
proof (induction ps arbitrary: c)
  case Nil
  then show ?case by simp
next
  case (Cons p ps)
  show ?case
    by (cases p; simp, subst Cons.IH) (simp_all add: advance_def)
qed

lemma unsigned_counts_eq:
  "m \<le> l \<Longrightarrow> l < 2 ^ 32 \<Longrightarrow> (of_nat m :: u32) = of_nat l \<longleftrightarrow> m = l"
  by (auto simp: unat_of_nat dest: arg_cong [of _ _ unat])

text \<open>When a round leaves the loop, and what it has changed then.\<close>

lemma worker_round_leaves:
  assumes "worker_round api user tn thunk c = (e, thunk', c')"
    and "\<forall>cqs \<in> set (ec_cqs c # ec_servers c). unat tn + length cqs \<le> 2 ^ 32"
    and "length (all_queues c) < 2 ^ 32"
  shows "(e = LeaveLoop \<longleftrightarrow> (\<forall>cq \<in> set (all_queues c). fst (cq_async_next api cq) = SHUTDOWN)) \<and>
    (e = LeaveLoop \<longrightarrow>
       thunk' = thunk \<and> c' = c\<lparr>ec_cqs := ec_cqs c', ec_servers := ec_servers c'\<rparr>)"
proof -
  let ?k0 = "\<lparr>things_executed = 0, shutdown_cqs = 0, total_cqs = 0\<rparr>"
  obtain k c1 where run: "run_groups api user tn (queue_groups c) (?k0, c) = (k, c1)" by fastforce
  have len: "length (queue_places c) = length (all_queues c)"
    by (metis length_map queue_places_queues)
  have fit: "sizes_fit tn (queue_groups c)"
    using assms(2,3) len by (auto simp: sizes_fit_def queue_groups_def server_places_def queue_places_def)
  from run_groups_pass [OF run _ fit] distinct_queue_places [of c] obtain m where
    m: "m \<le> length (queue_places c)" "shutdown_cqs k = of_nat m"
      "total_cqs k = of_nat (length (queue_places c))"
      "m = length (queue_places c) \<longleftrightarrow> (\<forall>p \<in> set (queue_places c). shut_at api c p)"
      "m = length (queue_places c) \<longrightarrow> c1 = fold (advance api) (concat (map (rotate (unat tn)) (queue_groups c))) c"
    by (auto simp: queue_places_def)
  have iff: "shutdown_cqs k = total_cqs k \<longleftrightarrow> m = length (queue_places c)"
    using m(1,2,3) assms(3) len by (simp add: unsigned_counts_eq)
  have leave: "e = LeaveLoop \<longleftrightarrow> m = length (queue_places c)"
    using assms(1) run iff by (auto simp: worker_round_def Let_def split: if_splits prod.splits)
  moreover have "m = length (queue_places c) \<Longrightarrow> thunk' = thunk \<and> c' = c1"
    using assms(1) run iff by (auto simp: worker_round_def Let_def)
  ultimately show ?thesis using m(4,5) shut_queues [of c api] advance_frame by metis
qed

section \<open>Properties\<close>

text \<open>
  C14. A worker leaves its loop, to drain the task queue, exactly in a round in which every
  completion queue, of the context and of its servers, reports its shutdown; in that round
  it completes no event, runs no thunk and changes nothing but the polled queues. So no
  queue, that of a server included, is abandoned while it has events, as long as the queues
  are counted and addressed without wrap-around.
\<close>

theorem worker_leaves_iff_all_shutdown:
  assumes "worker_round api user tn thunk c = (e, thunk', c')"
    and "\<forall>cqs \<in> set (ec_cqs c # ec_servers c). unat tn + length cqs \<le> 2 ^ 32"
    and "length (all_queues c) < 2 ^ 32"
  shows "(e = LeaveLoop \<longleftrightarrow> (\<forall>cq \<in> set (all_queues c). fst (cq_async_next api cq) = SHUTDOWN)) \<and>
    (e = LeaveLoop \<longrightarrow>
       thunk' = thunk \<and> c' = c\<lparr>ec_cqs := ec_cqs c', ec_servers := ec_servers c'\<rparr>)"
  by (rule worker_round_leaves [OF assms])

lemma worker_leaves_witness:
  "\<exists>c :: (nat, nat, nat list) exec_context.
     make_context 2 [[], []] = Inr c \<and>
     fst (worker_round
       \<lparr>cq_async_next = (\<lambda>cq. case cq of [] \<Rightarrow> (SHUTDOWN, []) | r # rs \<Rightarrow> (GOT_EVENT (RpcEvent r) True, rs)),
        cq_shutdown = id, cq_set_alarm = (\<lambda>t e cq. cq)\<rparr>
       \<lparr>complete_event = (\<lambda>e ok c. c), run_thunk = (\<lambda>th c. c)\<rparr> 1 None c) = LeaveLoop"
proof -
  let ?api = "\<lparr>cq_async_next = (\<lambda>cq. case cq of [] \<Rightarrow> (SHUTDOWN, [])
      | r # rs \<Rightarrow> (GOT_EVENT (RpcEvent r) True, rs)),
    cq_shutdown = id, cq_set_alarm = (\<lambda>t e cq. cq)\<rparr> :: ((nat, nat) cq_event, nat list) cq_api"
  let ?user = "\<lparr>complete_event = (\<lambda>e ok c. c), run_thunk = (\<lambda>th c. c)\<rparr> :: (nat, nat, nat, nat list) user_code"
  obtain c :: "(nat, nat, nat list) exec_context" where c: "make_context 2 [[], []] = Inr c"
    by (simp add: make_context_def)
  then have f: "ec_cqs c = [[], []]" "ec_servers c = []" by (auto simp: make_context_def)
  obtain e th c' where r: "worker_round ?api ?user 1 None c = (e, th, c')" by (metis prod_cases3)
  have "e = LeaveLoop"
    using worker_leaves_iff_all_shutdown [OF r] f by (simp add: all_queues_def)
  with c r show ?thesis by (intro exI [of _ c]) simp
qed

end
