(* ===== verification/Execution_Stop.thy ===== *)
theory Execution_Stop
  imports Execution_Worker
begin

text \<open>
  The whole of a worker thread, \<open>run_one_thread_\<close> of \<open>sgrpc/execution_context.cpp\<close>, and what
  \<open>stop\<close> promises: that it returns when the workers have finished, that the workers do
  finish, what is left of the context then, and what happens when a worker itself calls
  \<open>stop\<close>, as \<open>run_while\<close> makes it do.
\<close>

section \<open>Definitions\<close>

datatype 'c thread_result = ThreadReturned 'c | ThreadWaits 'c | ThreadTerminated

partial_function (option) worker_loop ::
  "(('d, 'r) cq_event, 'cq) cq_api \<Rightarrow> ('t, 'd, 'r, 'cq) user_code
     \<Rightarrow> (('t, 'd, 'cq) exec_context \<Rightarrow> bool) \<Rightarrow> u32 \<Rightarrow> (u32 \<Rightarrow> bool) \<Rightarrow> ('t, 'd) thunk option
     \<Rightarrow> ('t, 'd, 'cq) exec_context \<Rightarrow> ('t, 'd, 'cq) exec_context thread_result option" where
  "worker_loop api user predicate tn finished thunk c =
     (case worker_turn api user predicate tn finished thunk c of
        Terminated \<Rightarrow> Some ThreadTerminated
      | TurnWaits c1 \<Rightarrow> Some (ThreadWaits c1)
      | TurnDone e thunk' c1 \<Rightarrow>
          (if e = LeaveLoop then Some (ThreadReturned c1)
           else worker_loop api user predicate tn finished thunk' c1))"

text \<open>\<open>None\<close>: the loop, or the ejection after it, never ends.\<close>

definition run_one_thread ::
  "(('d, 'r) cq_event, 'cq) cq_api \<Rightarrow> ('t, 'd, 'r, 'cq) user_code
     \<Rightarrow> (('t, 'd, 'cq) exec_context \<Rightarrow> bool) \<Rightarrow> u32 \<Rightarrow> (u32 \<Rightarrow> bool)
     \<Rightarrow> ('t, 'd, 'cq) exec_context \<Rightarrow> ('t, 'd, 'cq) exec_context thread_result option" where
  "run_one_thread api user predicate tn finished c =
     (case worker_loop api user predicate tn finished None c of
        Some (ThreadReturned c1) \<Rightarrow> map_option ThreadReturned (worker_drain user c1)
      | r \<Rightarrow> r)"

text \<open>
  What the users' code can do to a context while it runs on a worker, as a sequence of calls
  of the context's public functions.
\<close>

datatype ('t, 'd, 'cq) user_call =
    PostThunk "('t, 'd) thunk"
  | PostEvent "'cq \<Rightarrow> 'cq"
  | NotifyAtStopped "('t, 'd) thunk"

fun do_call :: "('t, 'd, 'cq) user_call \<Rightarrow> ('t, 'd, 'cq) exec_context \<Rightarrow> ('t, 'd, 'cq) exec_context" where
  "do_call (PostThunk th) c = (case post_thunk th c of None \<Rightarrow> c | Some (b, c1) \<Rightarrow> c1)"
| "do_call (PostEvent f) c = (case post_on_cq f c of Inl e \<Rightarrow> c | Inr (b, c1) \<Rightarrow> c1)"
| "do_call (NotifyAtStopped th) c = add_notify_at_stopped th c"

definition calls_only :: "('t, 'd, 'r, 'cq) user_code \<Rightarrow> bool" where
  "calls_only user \<longleftrightarrow>
     (\<forall>e is_ok c. \<exists>calls. complete_event user e is_ok c = fold do_call calls c) \<and>
     (\<forall>th c. \<exists>calls. run_thunk user th c = fold do_call calls c)"

text \<open>
  What is relied on of a completion queue that is shut down: it stays so, and polling it
  either reports the shutdown or uses up one of finitely many polls.
\<close>

definition halted_queue_drains ::
  "('e, 'cq) cq_api \<Rightarrow> ('cq \<Rightarrow> bool) \<Rightarrow> ('cq \<Rightarrow> nat) \<Rightarrow> bool" where
  "halted_queue_drains api halted pending \<longleftrightarrow>
     (\<forall>cq. halted (cq_shutdown api cq)) \<and>
     (\<forall>cq. halted cq \<longrightarrow> halted (snd (cq_async_next api cq)) \<and>
        (if fst (cq_async_next api cq) = SHUTDOWN
         then pending (snd (cq_async_next api cq)) \<le> pending cq
         else pending (snd (cq_async_next api cq)) < pending cq))"

section \<open>A context that is shutting down\<close>

text \<open>No thread is inside the task queue.\<close>

definition at_rest :: "'a tsq \<Rightarrow> bool" where
  "at_rest q \<longleftrightarrow> tsq_wf q \<and> (\<forall>x \<in> set (ts_queues q). unlocked x) \<and> ts_in_push q = 0"

definition shutting_down ::
  "('cq \<Rightarrow> bool) \<Rightarrow> ('t, 'd, 'cq) exec_context \<Rightarrow> bool" where
  "shutting_down halted c \<longleftrightarrow> ec_state c = ShuttingDown \<and> context_wf c \<and>
     at_rest (ec_task_queue c) \<and> (\<forall>cq \<in> set (all_queues c). halted cq)"

definition total_pending :: "('cq \<Rightarrow> nat) \<Rightarrow> ('t, 'd, 'cq) exec_context \<Rightarrow> nat" where
  "total_pending pending c =
     sum_list (map pending (ec_cqs c)) + sum_list (map (\<lambda>cqs. sum_list (map pending cqs)) (ec_servers c))"

lemma at_rest_push:
  assumes "at_rest q"
  shows "\<exists>b q'. tsq_push th q = Some (b, q') \<and> at_rest q' \<and> (ts_is_done q \<longrightarrow> q' = q) \<and>
    ts_n_queues q' = ts_n_queues q"
proof (cases "ts_is_done q")
  case True
  with assms show ?thesis by (auto simp: tsq_push_done)
next
  case False
  from assms have "ts_queues q \<noteq> []" by (auto simp: at_rest_def tsq_wf_def unat_eq_zero)
  with assms have "\<exists>x \<in> set (ts_queues q). unlocked x"
    by (cases "ts_queues q") (auto simp: at_rest_def)
  with assms False tsq_push_accepts [of q th] obtain j index where
    push: "tsq_push th q = Some (True, q\<lparr>ts_push_index := index,
        ts_queues := (ts_queues q)[j := push_body th (ts_queues q ! j)]\<rparr>)" (is "_ = Some (_, ?q')") and
    j: "j < length (ts_queues q)" "unlocked (ts_queues q ! j)"
    by (auto simp: at_rest_def)
  have "list_all unlocked ((ts_queues q)[j := push_body th (ts_queues q ! j)])"
    by (rule list_all_update) (use assms j in \<open>auto simp: at_rest_def list_all_iff frame_simps\<close>)
  with push assms False show ?thesis by (auto simp: at_rest_def tsq_wf_def list_all_iff)
qed

lemma at_rest_pop:
  assumes "at_rest q" and "tsq_try_pop function_move x q = (b, x', q')"
  shows "at_rest q'"
proof -
  from assms(1) have "tsq_wf q" by (simp add: at_rest_def)
  from tsq_try_pop_cases [OF this, of x] show ?thesis
  proof (elim disjE conjE exE)
    assume "tsq_try_pop function_move x q = (False, x, q\<lparr>ts_pop_index := ts_pop_index q + 1\<rparr>)"
    with assms show ?thesis by (auto simp: at_rest_def tsq_wf_def)
  next
    fix j v vs
    assume "j < length (ts_queues q)" "unlocked (ts_queues q ! j)"
      and pop: "tsq_try_pop function_move x q = (True, Some v, q\<lparr>ts_pop_index := ts_pop_index q + 1,
        ts_queues := (ts_queues q)[j := (ts_queues q ! j)\<lparr>olq_queue := vs\<rparr>]\<rparr>)"
    then have "list_all unlocked ((ts_queues q)[j := (ts_queues q ! j)\<lparr>olq_queue := vs\<rparr>])"
      using assms(1) by (intro list_all_update) (auto simp: at_rest_def list_all_iff)
    with pop assms show ?thesis by (auto simp: at_rest_def tsq_wf_def list_all_iff)
  qed
qed

text \<open>A call changes no completion queue any more, and the task queue only by posting.\<close>

lemma do_call_shutting_down:
  assumes "shutting_down halted c"
  shows "shutting_down halted (do_call call c) \<and>
    ec_cqs (do_call call c) = ec_cqs c \<and> ec_servers (do_call call c) = ec_servers c \<and>
    (ts_is_done (ec_task_queue c) \<longrightarrow> ec_task_queue (do_call call c) = ec_task_queue c)"
proof (cases call)
  case (PostThunk th)
  with assms at_rest_push [of "ec_task_queue c" th] show ?thesis
    by (auto simp: post_thunk_def shutting_down_def context_wf_def all_queues_def)
next
  case (PostEvent f)
  with assms show ?thesis
    by (simp add: post_on_cq_eq shutting_down_def state_order)
next
  case (NotifyAtStopped th)
  with assms show ?thesis
    by (auto simp: add_notify_at_stopped_def shutting_down_def context_wf_def all_queues_def)
qed

lemma do_calls_shutting_down:
  "shutting_down halted c \<Longrightarrow>
     shutting_down halted (fold do_call calls c) \<and>
     ec_cqs (fold do_call calls c) = ec_cqs c \<and> ec_servers (fold do_call calls c) = ec_servers c \<and>
     (ts_is_done (ec_task_queue c) \<longrightarrow> ec_task_queue (fold do_call calls c) = ec_task_queue c)"
proof (induction calls arbitrary: c)
  case Nil
  then show ?case by simp
next
  case (Cons call calls)
  note one = do_call_shutting_down [OF Cons.prems, of call]
  from Cons.IH [of "do_call call c"] one show ?case by auto
qed

lemma complete_event_shutting_down:
  assumes "calls_only user" and "shutting_down halted c"
  shows "shutting_down halted (complete_event user e is_ok c) \<and>
    ec_cqs (complete_event user e is_ok c) = ec_cqs c \<and>
    ec_servers (complete_event user e is_ok c) = ec_servers c"
proof -
  from assms(1) obtain calls where "complete_event user e is_ok c = fold do_call calls c"
    unfolding calls_only_def by blast
  with do_calls_shutting_down [OF assms(2)] show ?thesis by simp
qed

lemma run_thunk_shutting_down:
  assumes "calls_only user" and "shutting_down halted c"
  shows "shutting_down halted (run_thunk user th c) \<and>
    ec_cqs (run_thunk user th c) = ec_cqs c \<and> ec_servers (run_thunk user th c) = ec_servers c \<and>
    (ts_is_done (ec_task_queue c) \<longrightarrow> ec_task_queue (run_thunk user th c) = ec_task_queue c)"
proof -
  from assms(1) obtain calls where "run_thunk user th c = fold do_call calls c"
    unfolding calls_only_def by blast
  with do_calls_shutting_down [OF assms(2)] show ?thesis by simp
qed

lemma queue_place_cases:
  assumes "p \<in> set (queue_places c)"
  shows "(\<exists>j. p = OwnQueue j \<and> j < length (ec_cqs c)) \<or>
    (\<exists>k j. p = ServerQueue k j \<and> k < length (ec_servers c) \<and> j < length (ec_servers c ! k))"
  using assms by (auto simp: queue_places_def queue_groups_def server_places_def)

lemma set_queue_at_pending:
  assumes "p \<in> set (queue_places c)"
  shows "total_pending pending (set_queue_at p cq c) + pending (queue_at p c) =
    total_pending pending c + pending cq"
  using queue_place_cases [OF assms]
proof (elim disjE exE conjE)
  fix j assume "p = OwnQueue j" "j < length (ec_cqs c)"
  then show ?thesis
    using sum_list_update_thread [of j "ec_cqs c" pending cq] by (simp add: total_pending_def)
next
  fix k j assume "p = ServerQueue k j" "k < length (ec_servers c)" "j < length (ec_servers c ! k)"
  then show ?thesis
    using sum_list_update_thread [of j "ec_servers c ! k" pending cq]
      sum_list_update_thread [of k "ec_servers c" "\<lambda>cqs. sum_list (map pending cqs)" "(ec_servers c ! k)[j := cq]"]
    by (simp add: total_pending_def)
qed

lemma set_queue_at_groups:
  assumes "p \<in> set (queue_places c)"
  shows "queue_groups (set_queue_at p cq c) = queue_groups c"
  using queue_place_cases [OF assms]
  by (auto simp: queue_groups_def server_places_def nth_list_update)

lemma set_queue_at_in:
  assumes "p \<in> set (queue_places c)"
  shows "set (all_queues (set_queue_at p cq c)) \<subseteq> insert cq (set (all_queues c))"
  using queue_place_cases [OF assms]
proof (elim disjE exE conjE)
  fix j assume "p = OwnQueue j" "j < length (ec_cqs c)"
  then show ?thesis using set_update_subset_insert [of "ec_cqs c" j cq] by (auto simp: all_queues_def)
next
  fix k j assume p: "p = ServerQueue k j" "k < length (ec_servers c)" "j < length (ec_servers c ! k)"
  have "set ((ec_servers c)[k := (ec_servers c ! k)[j := cq]]) \<subseteq>
      insert ((ec_servers c ! k)[j := cq]) (set (ec_servers c))" by (rule set_update_subset_insert)
  moreover have "set ((ec_servers c ! k)[j := cq]) \<subseteq> insert cq (set (ec_servers c ! k))"
    by (rule set_update_subset_insert)
  ultimately show ?thesis using p nth_mem [OF p(2)] by (fastforce simp: all_queues_def)
qed

lemma queue_at_in:
  "p \<in> set (queue_places c) \<Longrightarrow> queue_at p c \<in> set (all_queues c)"
  by (metis queue_places_queues image_eqI set_map)

lemma set_queue_at_frame:
  "ec_state (set_queue_at p cq c) = ec_state c \<and> ec_task_queue (set_queue_at p cq c) = ec_task_queue c \<and>
   length (ec_cqs (set_queue_at p cq c)) = length (ec_cqs c)"
  by (cases p) simp_all

text \<open>Polling one queue uses up a poll, unless the queue reports its shutdown.\<close>

lemma execute_cq_drains:
  assumes "halted_queue_drains api halted pending" and "calls_only user"
    and "shutting_down halted c" and "p \<in> set (queue_places c)"
    and "execute_cq api user p c = (r, c')"
  shows "shutting_down halted c' \<and> queue_groups c' = queue_groups c \<and>
    (if r = ShutdownRequested then total_pending pending c' \<le> total_pending pending c
     else total_pending pending c' < total_pending pending c)"
proof -
  obtain st cq where next1: "cq_async_next api (queue_at p c) = (st, cq)" by fastforce
  let ?c1 = "set_queue_at p cq c"
  have old: "halted (queue_at p c)"
    using assms(3) queue_at_in [OF assms(4)] by (simp add: shutting_down_def)
  with assms(1) next1 have cq: "halted cq"
    "if st = SHUTDOWN then pending cq \<le> pending (queue_at p c) else pending cq < pending (queue_at p c)"
    unfolding halted_queue_drains_def by (metis fst_conv snd_conv)+
  have sd: "shutting_down halted ?c1"
    using assms(3) set_queue_at_in [OF assms(4), of cq] cq(1) set_queue_at_frame [of p cq c]
    by (auto simp: shutting_down_def context_wf_def)
  have less: "if st = SHUTDOWN then total_pending pending ?c1 \<le> total_pending pending c
      else total_pending pending ?c1 < total_pending pending c"
    using set_queue_at_pending [OF assms(4), of pending cq] cq(2) by (cases "st = SHUTDOWN") auto
  note groups = set_queue_at_groups [OF assms(4), of cq]
  show ?thesis
  proof (cases st)
    case (GOT_EVENT e ok)
    with assms(5) next1 have "r = ExecutedOne" "c' = complete_event user e ok ?c1"
      by (auto simp: execute_cq_def Let_def)
    with complete_event_shutting_down [OF assms(2) sd, of e ok] less GOT_EVENT groups show ?thesis
      by (simp add: total_pending_def queue_groups_def)
  qed (use assms(5) next1 sd less groups in \<open>auto simp: execute_cq_def Let_def\<close>)
qed

lemma visit_index_less: "0 < n \<Longrightarrow> visit_index tn n i < n"
  by (simp add: visit_index_def)

lemma run_cqs_loop_drains:
  assumes "halted_queue_drains api halted pending" and "calls_only user"
    and "run_cqs_loop api user tn ps current i k c = (k', c')"
    and "shutting_down halted c" and "set ps \<subseteq> set (queue_places c)"
    and "current = things_executed k"
  shows "shutting_down halted c' \<and> queue_groups c' = queue_groups c \<and>
    total_pending pending c' \<le> total_pending pending c \<and> total_cqs k' = total_cqs k \<and>
    (total_pending pending c' = total_pending pending c \<longrightarrow>
       shutdown_cqs k' = shutdown_cqs k + of_nat (length ps - i))"
  using assms
proof (induction api user tn ps current i k c rule: run_cqs_loop.induct)
  case (1 api user tn ps current i k c)
  show ?case
  proof (cases "i < length ps")
    case False
    then have "run_cqs_loop api user tn ps current i k c = (k, c)"
      by (simp add: run_cqs_loop.simps [of api user tn ps current i k c])
    with "1.prems"(3,4) False show ?thesis by simp
  next
    case True
    let ?p = "ps ! visit_index tn (length ps) i"
    obtain r c1 where ex: "execute_cq api user ?p c = (r, c1)" by fastforce
    from True "1.prems"(6) have go: "i < length ps \<and> current = things_executed k" by simp
    then have rest: "run_cqs_loop api user tn ps current (i + 1) (count_result r k) c1 = (k', c')"
      using "1.prems"(3) by (subst (asm) run_cqs_loop.simps) (simp add: ex)
    have "?p \<in> set (queue_places c)"
      using "1.prems"(5) True by (intro subsetD [OF "1.prems"(5)] nth_mem visit_index_less) linarith
    note one = execute_cq_drains [OF "1.prems"(1,2,4) this ex]
    then have places: "set ps \<subseteq> set (queue_places c1)" using "1.prems"(5) by (simp add: queue_places_def)
    show ?thesis
    proof (cases r)
      case ExecutedNone
      with "1.IH" [OF go ex [symmetric] "1.prems"(1,2) rest] one places go show ?thesis by auto
    next
      case ExecutedOne
      have "run_cqs_loop api user tn ps current (i + 1) (count_result r k) c1 = (count_result r k, c1)"
        using go ExecutedOne by (subst run_cqs_loop.simps) simp
      with rest one ExecutedOne show ?thesis by auto
    next
      case ShutdownRequested
      with "1.IH" [OF go ex [symmetric] "1.prems"(1,2) rest] one places go
      have ih: "shutting_down halted c' \<and> queue_groups c' = queue_groups c1 \<and>
        total_pending pending c' \<le> total_pending pending c1 \<and> total_cqs k' = total_cqs k \<and>
        (total_pending pending c' = total_pending pending c1 \<longrightarrow>
           shutdown_cqs k' = shutdown_cqs k + 1 + of_nat (length ps - (i + 1)))" by auto
      have "(1 :: u32) + of_nat (length ps - Suc i) = of_nat (Suc (length ps - Suc i))" by simp
      also have "Suc (length ps - Suc i) = length ps - i" using True by simp
      finally have count: "(1 :: u32) + of_nat (length ps - Suc i) = of_nat (length ps - i)" .
      from ih one ShutdownRequested show ?thesis by (auto simp: add.assoc count)
    qed
  qed
qed

lemma run_groups_drains:
  assumes "halted_queue_drains api halted pending" and "calls_only user"
    and "run_groups api user tn pss (k, c) = (k', c')"
    and "shutting_down halted c" and "set (concat pss) \<subseteq> set (queue_places c)"
  shows "shutting_down halted c' \<and> queue_groups c' = queue_groups c \<and>
    total_pending pending c' \<le> total_pending pending c \<and>
    (total_pending pending c' = total_pending pending c \<longrightarrow>
       shutdown_cqs k' - shutdown_cqs k = total_cqs k' - total_cqs k)"
  using assms(3-)
proof (induction pss arbitrary: k c)
  case Nil
  then show ?case by simp
next
  case (Cons ps pss)
  let ?k0 = "k\<lparr>total_cqs := total_cqs k + of_nat (length ps)\<rparr>"
  obtain k1 c1 where one: "run_cqs_loop api user tn ps (things_executed ?k0) 0 ?k0 c = (k1, c1)" by fastforce
  with Cons.prems(1) have rest: "run_groups api user tn pss (k1, c1) = (k', c')"
    by (simp add: run_completion_queues_def Let_def)
  have in_ps: "set ps \<subseteq> set (queue_places c)" and in_pss: "set (concat pss) \<subseteq> set (queue_places c)"
    using Cons.prems(3) by auto
  note first = run_cqs_loop_drains [OF assms(1,2) one Cons.prems(2) in_ps refl]
  then have "set (concat pss) \<subseteq> set (queue_places c1)" using in_pss by (simp add: queue_places_def)
  with Cons.IH [OF rest] first show ?case by (auto simp: algebra_simps)
qed

text \<open>A round either leaves the loop or uses up a poll.\<close>

lemma worker_round_drains:
  assumes "halted_queue_drains api halted pending" and "calls_only user"
    and "shutting_down halted c" and "worker_round api user tn thunk c = (e, thunk', c')"
  shows "shutting_down halted c' \<and>
    (e = LeaveLoop \<or> total_pending pending c' < total_pending pending c)"
proof -
  let ?k0 = "\<lparr>things_executed = 0, shutdown_cqs = 0, total_cqs = 0\<rparr>"
  obtain k c1 where run: "run_groups api user tn (queue_groups c) (?k0, c) = (k, c1)" by fastforce
  note groups = run_groups_drains [OF assms(1,2) run assms(3)]
  then have sd: "shutting_down halted c1" by (simp add: queue_places_def)
  show ?thesis
  proof (cases "shutdown_cqs k = total_cqs k")
    case True
    with assms(4) run sd show ?thesis by (simp add: worker_round_def Let_def)
  next
    case False
    with groups have less: "total_pending pending c1 < total_pending pending c"
      by (fastforce simp: queue_places_def)
    obtain did_pop th q where pop: "tsq_try_pop function_move thunk (ec_task_queue c1) = (did_pop, th, q)"
      by (metis prod_cases3)
    let ?c2 = "c1\<lparr>ec_task_queue := q\<rparr>"
    have sd2: "shutting_down halted ?c2"
      using sd at_rest_pop [OF _ pop] by (simp add: shutting_down_def context_wf_def all_queues_def)
    have same: "total_pending pending ?c2 = total_pending pending c1" by (simp add: total_pending_def)
    note user = run_thunk_shutting_down [OF assms(2) sd2, of "the th"]
    from assms(4) run False pop have "c' = (if did_pop then run_thunk user (the th) ?c2 else ?c2)"
      by (auto simp: worker_round_def Let_def split: if_splits)
    with user sd2 less same show ?thesis by (auto simp: total_pending_def)
  qed
qed

lemma begin_stop_loses: "ec_state c \<noteq> Running \<Longrightarrow> begin_stop c = (False, c)"
  by (cases c) (simp add: begin_stop_def compare_exchange_def)

lemma worker_turn_shutting_down:
  assumes "shutting_down halted c"
  shows "worker_turn api user predicate tn finished thunk c =
    (case worker_round api user tn thunk c of (e, thunk', c') \<Rightarrow> TurnDone e thunk' c')"
  using assms
  by (simp add: worker_turn_def stop_def begin_stop_loses shutting_down_def)

lemma worker_loop_returns:
  assumes "halted_queue_drains api halted pending" and "calls_only user" and "shutting_down halted c"
  shows "\<exists>c'. worker_loop api user predicate tn finished thunk c = Some (ThreadReturned c') \<and>
    shutting_down halted c'"
  using assms(3)
proof (induction "total_pending pending c" arbitrary: c thunk rule: less_induct)
  case less
  obtain e th c1 where round: "worker_round api user tn thunk c = (e, th, c1)" by (metis prod_cases3)
  note drain = worker_round_drains [OF assms(1,2) less.prems round]
  show ?case
  proof (cases "e = LeaveLoop")
    case True
    with drain round show ?thesis
      by (subst worker_loop.simps) (simp add: worker_turn_shutting_down [OF less.prems])
  next
    case False
    with drain less.hyps [of c1 th] round show ?thesis
      by (subst worker_loop.simps) (simp add: worker_turn_shutting_down [OF less.prems])
  qed
qed

lemma drained_thunks:
  assumes "calls_only user" and "shutting_down halted c" and "ts_is_done (ec_task_queue c)"
  shows "ec_task_queue (fold (run_thunk user) thunks c) = ec_task_queue c"
  using assms(2,3)
proof (induction thunks arbitrary: c)
  case Nil
  then show ?case by simp
next
  case (Cons th thunks)
  note run_thunk_shutting_down [OF assms(1) Cons.prems(1), of th]
  with Cons show ?case by simp
qed

lemma join_all_joined: "self \<notin> Some ` set ts \<Longrightarrow> \<forall>t \<in> set ts. finished t \<Longrightarrow> join_all self finished ts = Joined"
  by (induction ts) auto

lemma join_all_self: "t \<in> set ts \<Longrightarrow> join_all (Some t) finished ts \<noteq> Joined"
  by (induction ts) auto

lemma post_thunk_done: "ts_is_done (ec_task_queue c) \<Longrightarrow> post_thunk th c = Some (False, c)"
  by (cases c) (simp add: post_thunk_def tsq_push_done)

text \<open>The shape of a context that is not being stopped.\<close>

definition context_shape :: "u32 \<Rightarrow> nat \<Rightarrow> execution_state \<Rightarrow> ('t, 'd, 'cq) exec_context \<Rightarrow> bool" where
  "context_shape n m st c \<longleftrightarrow> ec_n_threads c = n \<and> ec_state c = st \<and> length (ec_cqs c) = m \<and>
     ts_n_queues (ec_task_queue c) = n + 1 \<and> at_rest (ec_task_queue c) \<and> ec_within_cq_post c = 0"

lemma do_call_shape:
  assumes "context_shape n m st c" and "0 < m" and "m < 2 ^ 32"
  shows "context_shape n m st (do_call call c)"
proof (cases call)
  case (PostThunk th)
  with assms(1) at_rest_push [of "ec_task_queue c" th] show ?thesis
    by (auto simp: post_thunk_def context_shape_def)
next
  case (PostEvent f)
  from assms have "context_wf c" by (auto simp: context_shape_def context_wf_def)
  with assms(1) PostEvent show ?thesis
    by (simp add: post_on_cq_eq context_shape_def Let_def)
next
  case (NotifyAtStopped th)
  with assms(1) show ?thesis by (simp add: add_notify_at_stopped_def context_shape_def)
qed

lemma do_calls_shape:
  "context_shape n m st c \<Longrightarrow> 0 < m \<Longrightarrow> m < 2 ^ 32 \<Longrightarrow> context_shape n m st (fold do_call calls c)"
  by (induction calls arbitrary: c) (simp_all add: do_call_shape)

lemma unat_plus_one: "n \<noteq> - 1 \<Longrightarrow> unat (n + 1 :: u32) = unat n + 1"
  using unatSuc [of n] by (simp add: eq_neg_iff_add_eq_0 add.commute)

section \<open>Properties\<close>



text \<open>
  \<open>stop\<close> acts once and only on a running context: in any other state it changes
  nothing. Called from outside, with no post under way and all workers finished, it returns,
  the context is \<open>Stopped\<close> and without threads, every completion queue of the context and of
  its servers was shut down once, and the notifications have run once each in the order they
  were added.
\<close>

theorem stop_from_outside:
  assumes "ec_within_cq_post c = 0" and "\<forall>t \<in> set (ec_threads c). finished t"
  shows "stop api user None finished c =
    (if ec_state c = Running
     then StopReturned (fold (run_thunk user) (ec_notifications c)
       (c\<lparr>ec_cqs := map (cq_shutdown api) (ec_cqs c),
          ec_servers := map (map (cq_shutdown api)) (ec_servers c),
          ec_threads := [], ec_state := Stopped, ec_notifications := []\<rparr>))
     else StopReturned c)"
proof (cases "ec_state c = Running")
  case True
  have "join_all None finished (ec_threads c) = Joined"
    using assms(2) by (intro join_all_joined) auto
  with True assms(1) show ?thesis
    by (simp add: stop_def begin_stop_def compare_exchange_def halt_queues_def take_notifications_def Let_def)
next
  case False
  then show ?thesis by (simp add: stop_def begin_stop_loses)
qed

lemma stop_from_outside_witness:
  "\<exists>c :: (nat, nat, bool \<times> (nat, nat) cq_event list) exec_context.
     make_context 1 [(False, [])] = Inr c \<and>
     (\<exists>c'. stop fifo_cq \<lparr>complete_event = (\<lambda>e ok c. c), run_thunk = (\<lambda>th c. c)\<rparr> None (\<lambda>t. True)
        (add_notify_at_stopped (Plain 3) (run_while c)) = StopReturned c' \<and>
      ec_state c' = Stopped \<and> ec_cqs c' = [(True, [])] \<and> ec_threads c' = [])"
proof -
  let ?user = "\<lparr>complete_event = (\<lambda>e ok c. c), run_thunk = (\<lambda>th c. c)\<rparr>
    :: (nat, nat, nat, bool \<times> (nat, nat) cq_event list) user_code"
  obtain c :: "(nat, nat, bool \<times> (nat, nat) cq_event list) exec_context"
    where c: "make_context 1 [(False, [])] = Inr c" by (simp add: make_context_def)
  let ?c = "add_notify_at_stopped (Plain 3) (run_while c)"
  from c have f: "ec_within_cq_post ?c = 0" "ec_state ?c = Running" "ec_cqs ?c = [(False, [])]"
    "ec_notifications ?c = [Plain 3]"
    by (auto simp: make_context_def run_while_def compare_exchange_def add_notify_at_stopped_def
        get_state_def state_order)
  show ?thesis
    using c f stop_from_outside [of ?c "\<lambda>t. True" fifo_cq ?user] by (simp add: fifo_cq_def)
qed

text \<open>
  C23. \<open>stop\<close> never returns to a worker of a running context: it waits for ever for another
  thread or joins its own thread, which throws. So a predicate of \<open>run_while\<close> that holds
  never brings about the orderly shutdown it is for: the turn of the worker that finds it
  true does not end, or ends the program.
\<close>

theorem stop_from_worker_never_returns:
  assumes "ec_state c = Running" and "tn \<in> set (ec_threads c)" and "predicate c"
  shows "(\<forall>c'. stop api user (Some tn) finished c \<noteq> StopReturned c') \<and>
    (\<forall>e thunk' c'. worker_turn api user predicate tn finished thunk c \<noteq> TurnDone e thunk' c')"
proof -
  have "join_all (Some tn) finished (ec_threads c) \<noteq> Joined" by (rule join_all_self [OF assms(2)])
  then have "stop api user (Some tn) finished c \<noteq> StopReturned c'" for c'
    using assms(1)
    by (auto simp: stop_def begin_stop_def compare_exchange_def halt_queues_def Let_def
        split: join_result.splits)
  moreover from this have "worker_turn api user predicate tn finished thunk c \<noteq> TurnDone e thunk' c'" for e thunk' c'
    using assms(3)
    by (cases "stop api user (Some tn) finished c") (auto simp: worker_turn_def)
  ultimately show ?thesis by blast
qed

lemma stop_from_worker_witness:
  "\<exists>c :: (nat, nat, bool \<times> (nat, nat) cq_event list) exec_context.
     make_context 2 [(False, [])] = Inr c \<and>
     (\<forall>e th c'. worker_turn fifo_cq \<lparr>complete_event = (\<lambda>e ok c. c), run_thunk = (\<lambda>th c. c)\<rparr>
        (\<lambda>c. True) 1 (\<lambda>t. True) None (run_while c) \<noteq> TurnDone e th c')"
proof -
  obtain c :: "(nat, nat, bool \<times> (nat, nat) cq_event list) exec_context"
    where c: "make_context 2 [(False, [])] = Inr c" by (simp add: make_context_def)
  have "(1 :: u32) \<in> word_of_nat ` {0..<2}" by (rule image_eqI [of _ _ 1]) auto
  with c have f: "ec_state (run_while c) = Running" "1 \<in> set (ec_threads (run_while c))"
    by (auto simp: make_context_def run_while_def compare_exchange_def)
  show ?thesis
    using c stop_from_worker_never_returns [OF f, of "\<lambda>c. True"] by blast
qed



end
