(* ===== verification/Execution_Lifecycle.thy ===== *)
theory Execution_Lifecycle
  imports Execution_Stop
begin

text \<open>
  The functions of \<open>ExecutionContext\<close> as any number of threads call them at once: posting to
  a completion queue, \<open>stop\<close>, \<open>run_while\<close>, \<open>attach_server\<close> and
  \<open>add_notify_at_stopped\<close> of \<open>sgrpc/execution_context.cpp\<close>. One step is one access to a
  shared atomic, one call on one completion queue, one join, or one critical section of
  \<open>padlock_\<close>. Memory is sequentially consistent.

  A worker thread is seen from outside: it may call the context like any other thread, and
  it leaves for good only when every completion queue is shut down
  (\<open>worker_leaves_iff_all_shutdown\<close> of \<open>Execution_Worker\<close>).
\<close>

section \<open>Definitions\<close>

text \<open>Where a thread is inside a call of the context.\<close>

datatype ('t, 'd, 'cq) epc =
    Outside
  | PostCounted "'cq \<Rightarrow> 'cq"          \<comment> \<open>after \<open>within_cq_post_.fetch_add\<close>\<close>
  | PostPicking "'cq \<Rightarrow> 'cq"          \<comment> \<open>\<open>can_post\<close>; before \<open>get_next_cq_\<close>\<close>
  | PostAttaching "'cq \<Rightarrow> 'cq" nat    \<comment> \<open>before the event is made on the queue\<close>
  | PostLeaving bool                   \<comment> \<open>before \<open>within_cq_post_.fetch_sub\<close>\<close>
  | StopWaiting                        \<comment> \<open>the state is claimed; in the busy wait\<close>
  | StopHalting nat                    \<comment> \<open>before \<open>Shutdown\<close> of that queue\<close>
  | StopJoining nat                    \<comment> \<open>before \<open>join\<close> of that thread\<close>
  | StopNotifying                      \<comment> \<open>before the critical section\<close>
  | StopRunning "('t, 'd) thunk list"  \<comment> \<open>notifications still to run\<close>
  | JoinFailed                         \<comment> \<open>\<open>join\<close> on itself threw\<close>
  | RunSpawning nat                    \<comment> \<open>before the start of that thread\<close>
  | WorkerGone                         \<comment> \<open>the thread function has returned\<close>

text \<open>
  The context and its threads, with what has happened so far: the queues shut down, the
  number of events attached, whether one was attached to a queue already shut down, the
  notifications accepted, and those that have run. The first \<open>ec_n_threads\<close> of the threads
  are the workers.
\<close>

record ('t, 'd, 'cq) esys =
  es_ctx :: "('t, 'd, 'cq) exec_context"
  es_pcs :: "('t, 'd, 'cq) epc list"
  es_shut :: "cq_place set"
  es_attached :: nat
  es_late :: bool
  es_added :: "('t, 'd) thunk list"
  es_ran :: "('t, 'd) thunk list"

definition at_pc :: "nat \<Rightarrow> ('t, 'd, 'cq) epc \<Rightarrow> ('t, 'd, 'cq) esys \<Rightarrow> bool" where
  "at_pc t p s \<longleftrightarrow> t < length (es_pcs s) \<and> es_pcs s ! t = p"

definition move :: "nat \<Rightarrow> ('t, 'd, 'cq) epc \<Rightarrow> ('t, 'd, 'cq) exec_context \<Rightarrow> ('t, 'd, 'cq) esys
    \<Rightarrow> ('t, 'd, 'cq) esys" where
  "move t p c s = s\<lparr>es_ctx := c, es_pcs := (es_pcs s)[t := p]\<rparr>"

inductive estep ::
  "('e, 'cq) cq_api \<Rightarrow> ('t, 'd, 'cq) esys \<Rightarrow> ('t, 'd, 'cq) esys \<Rightarrow> bool"
  for api :: "('e, 'cq) cq_api" where
  post_begin: "at_pc t Outside s \<Longrightarrow> c = es_ctx s \<Longrightarrow>
    estep api s (move t (PostCounted f) (c\<lparr>ec_within_cq_post := ec_within_cq_post c + 1\<rparr>) s)"
| post_check: "at_pc t (PostCounted f) s \<Longrightarrow> c = es_ctx s \<Longrightarrow>
    estep api s (move t (if get_state c \<le> Running then PostPicking f else PostLeaving False) c s)"
| post_pick: "at_pc t (PostPicking f) s \<Longrightarrow> get_next_cq (es_ctx s) = (Inr j, c) \<Longrightarrow>
    estep api s (move t (PostAttaching f j) c s)"
| post_attach: "at_pc t (PostAttaching f j) s \<Longrightarrow> c = es_ctx s \<Longrightarrow>
    estep api s ((move t (PostLeaving True) (c\<lparr>ec_cqs := (ec_cqs c)[j := f (ec_cqs c ! j)]\<rparr>) s)
      \<lparr>es_attached := Suc (es_attached s), es_late := es_late s \<or> OwnQueue j \<in> es_shut s\<rparr>)"
| post_leave: "at_pc t (PostLeaving b) s \<Longrightarrow> c = es_ctx s \<Longrightarrow>
    estep api s (move t Outside (c\<lparr>ec_within_cq_post := ec_within_cq_post c - 1\<rparr>) s)"
| stop_lose: "at_pc t Outside s \<Longrightarrow> begin_stop (es_ctx s) = (False, c) \<Longrightarrow>
    estep api s (move t Outside c s)"
| stop_win: "at_pc t Outside s \<Longrightarrow> begin_stop (es_ctx s) = (True, c) \<Longrightarrow>
    estep api s (move t StopWaiting c s)"
| stop_spin: "at_pc t StopWaiting s \<Longrightarrow> 0 < ec_within_cq_post (es_ctx s) \<Longrightarrow>
    estep api s s"
| stop_halt_start: "at_pc t StopWaiting s \<Longrightarrow> c = es_ctx s \<Longrightarrow> \<not> 0 < ec_within_cq_post c \<Longrightarrow>
    estep api s (move t (StopHalting 0) c s)"
| stop_halt: "at_pc t (StopHalting k) s \<Longrightarrow> c = es_ctx s \<Longrightarrow> k < length (queue_places c) \<Longrightarrow>
    p = queue_places c ! k \<Longrightarrow>
    estep api s ((move t (StopHalting (k + 1)) (set_queue_at p (cq_shutdown api (queue_at p c)) c) s)
      \<lparr>es_shut := insert p (es_shut s)\<rparr>)"
| stop_halted: "at_pc t (StopHalting k) s \<Longrightarrow> c = es_ctx s \<Longrightarrow> \<not> k < length (queue_places c) \<Longrightarrow>
    estep api s (move t (StopJoining 0) c s)"
| stop_join: "at_pc t (StopJoining k) s \<Longrightarrow> c = es_ctx s \<Longrightarrow> k < length (ec_threads c) \<Longrightarrow>
    unat (ec_threads c ! k) \<noteq> t \<Longrightarrow> at_pc (unat (ec_threads c ! k)) WorkerGone s \<Longrightarrow>
    estep api s (move t (StopJoining (k + 1)) c s)"
| stop_join_self: "at_pc t (StopJoining k) s \<Longrightarrow> c = es_ctx s \<Longrightarrow> k < length (ec_threads c) \<Longrightarrow>
    unat (ec_threads c ! k) = t \<Longrightarrow>
    estep api s (move t JoinFailed c s)"
| stop_joined: "at_pc t (StopJoining k) s \<Longrightarrow> c = es_ctx s \<Longrightarrow> \<not> k < length (ec_threads c) \<Longrightarrow>
    estep api s (move t StopNotifying (c\<lparr>ec_threads := []\<rparr>) s)"
| stop_notify: "at_pc t StopNotifying s \<Longrightarrow> take_notifications (es_ctx s) = (notifications, c) \<Longrightarrow>
    estep api s (move t (StopRunning notifications) c s)"
| stop_run: "at_pc t (StopRunning (thunk # thunks)) s \<Longrightarrow> c = es_ctx s \<Longrightarrow>
    estep api s ((move t (StopRunning thunks) c s)\<lparr>es_ran := es_ran s @ [thunk]\<rparr>)"
| stop_done: "at_pc t (StopRunning []) s \<Longrightarrow> c = es_ctx s \<Longrightarrow>
    estep api s (move t Outside c s)"
| notify_add: "at_pc t Outside s \<Longrightarrow> c = es_ctx s \<Longrightarrow>
    estep api s ((move t Outside (add_notify_at_stopped thunk c) s)
      \<lparr>es_added := (if get_state c < Stopped then es_added s @ [thunk] else es_added s)\<rparr>)"
| server_attach: "at_pc t Outside s \<Longrightarrow> attach_server server (es_ctx s) = Inr c \<Longrightarrow>
    estep api s (move t Outside c s)"
| run_lose: "at_pc t Outside s \<Longrightarrow> c = es_ctx s \<Longrightarrow> set_state Running (ec_state c) = (False, st) \<Longrightarrow>
    estep api s (move t Outside (c\<lparr>ec_state := st\<rparr>) s)"
| run_win: "at_pc t Outside s \<Longrightarrow> c = es_ctx s \<Longrightarrow> set_state Running (ec_state c) = (True, st) \<Longrightarrow>
    estep api s (move t (RunSpawning 0) (c\<lparr>ec_state := st\<rparr>) s)"
| run_spawn: "at_pc t (RunSpawning i) s \<Longrightarrow> c = es_ctx s \<Longrightarrow> i < unat (ec_n_threads c) \<Longrightarrow>
    estep api s (move t (RunSpawning (i + 1)) (c\<lparr>ec_threads := ec_threads c @ [of_nat i]\<rparr>) s)"
| run_done: "at_pc t (RunSpawning i) s \<Longrightarrow> c = es_ctx s \<Longrightarrow> \<not> i < unat (ec_n_threads c) \<Longrightarrow>
    estep api s (move t Outside c s)"
| worker_leave: "at_pc t Outside s \<Longrightarrow> c = es_ctx s \<Longrightarrow> t < unat (ec_n_threads c) \<Longrightarrow>
    set (queue_places c) \<subseteq> es_shut s \<Longrightarrow>
    estep api s (move t WorkerGone c s)"

definition start_esys :: "('t, 'd, 'cq) exec_context \<Rightarrow> nat \<Rightarrow> ('t, 'd, 'cq) esys" where
  "start_esys c threads =
     \<lparr>es_ctx = c, es_pcs = replicate threads Outside, es_shut = {}, es_attached = 0,
      es_late = False, es_added = [], es_ran = []\<rparr>"

definition einit :: "('t, 'd, 'cq) esys \<Rightarrow> bool" where
  "einit s \<longleftrightarrow> (\<exists>n_threads cqs c threads. make_context n_threads cqs = Inr c \<and>
     threads < 2 ^ 64 \<and> s = start_esys c threads)"

section \<open>Counting the threads at a place\<close>

definition count_pcs :: "(('t, 'd, 'cq) epc \<Rightarrow> bool) \<Rightarrow> ('t, 'd, 'cq) esys \<Rightarrow> nat" where
  "count_pcs P s = length (filter P (es_pcs s))"

lemma count_move:
  assumes "at_pc t p s"
  shows "count_pcs P (move t p' c s) + (if P p then 1 else 0) = count_pcs P s + (if P p' then 1 else 0)"
  using assms filter_update [of t "es_pcs s" P p'] by (simp add: count_pcs_def move_def at_pc_def)

lemma count_move_same: "at_pc t p s \<Longrightarrow> P p = P p' \<Longrightarrow> count_pcs P (move t p' c s) = count_pcs P s"
  using count_move [of t p s P p' c] by simp

lemma count_move_in:
  "at_pc t p s \<Longrightarrow> \<not> P p \<Longrightarrow> P p' \<Longrightarrow> count_pcs P (move t p' c s) = count_pcs P s + 1"
  using count_move [of t p s P p' c] by simp

lemma count_move_out:
  "at_pc t p s \<Longrightarrow> P p \<Longrightarrow> \<not> P p' \<Longrightarrow> count_pcs P (move t p' c s) = count_pcs P s - 1"
  using count_move [of t p s P p' c] by simp

lemmas count_moves = count_move_same count_move_in count_move_out

lemma count_pos: "at_pc t p s \<Longrightarrow> P p \<Longrightarrow> 0 < count_pcs P s"
  by (auto simp: count_pcs_def at_pc_def filter_empty_conv)

lemma length_filter_mono: "(\<And>x. P x \<Longrightarrow> Q x) \<Longrightarrow> length (filter P xs) \<le> length (filter Q xs)"
  by (induction xs) (auto intro: le_SucI)

lemma count_le: "(\<And>p. P p \<Longrightarrow> Q p) \<Longrightarrow> count_pcs P s \<le> count_pcs Q s"
  unfolding count_pcs_def by (rule length_filter_mono)

lemma count_le_threads: "count_pcs P s \<le> length (es_pcs s)"
  by (simp add: count_pcs_def)

lemma move_simps [simp]:
  "es_ctx (move t p c s) = c" "es_shut (move t p c s) = es_shut s"
  "es_attached (move t p c s) = es_attached s" "es_late (move t p c s) = es_late s"
  "es_added (move t p c s) = es_added s" "es_ran (move t p c s) = es_ran s"
  "length (es_pcs (move t p c s)) = length (es_pcs s)"
  by (simp_all add: move_def)

lemma count_frame [simp]:
  "count_pcs P (s\<lparr>es_shut := a\<rparr>) = count_pcs P s" "count_pcs P (s\<lparr>es_attached := b\<rparr>) = count_pcs P s"
  "count_pcs P (s\<lparr>es_late := d\<rparr>) = count_pcs P s" "count_pcs P (s\<lparr>es_added := e\<rparr>) = count_pcs P s"
  "count_pcs P (s\<lparr>es_ran := e\<rparr>) = count_pcs P s"
  by (simp_all add: count_pcs_def)

text \<open>The threads between the two updates of \<open>within_cq_post_\<close>, and those that may still attach.\<close>

fun posting :: "('t, 'd, 'cq) epc \<Rightarrow> bool" where
  "posting (PostCounted f) = True"
| "posting (PostPicking f) = True"
| "posting (PostAttaching f j) = True"
| "posting (PostLeaving b) = True"
| "posting _ = False"

fun admitted :: "('t, 'd, 'cq) epc \<Rightarrow> bool" where
  "admitted (PostPicking f) = True"
| "admitted (PostAttaching f j) = True"
| "admitted _ = False"

text \<open>The thread that has claimed the shutdown, and whether it is past its busy wait.\<close>

fun past_wait :: "('t, 'd, 'cq) epc \<Rightarrow> bool" where
  "past_wait (StopHalting k) = True"
| "past_wait (StopJoining k) = True"
| "past_wait StopNotifying = True"
| "past_wait JoinFailed = True"
| "past_wait _ = False"

definition claiming :: "('t, 'd, 'cq) epc \<Rightarrow> bool" where
  "claiming p \<longleftrightarrow> p = StopWaiting \<or> past_wait p"

fun notifying :: "('t, 'd, 'cq) epc \<Rightarrow> bool" where
  "notifying (StopRunning ns) = True"
| "notifying _ = False"

lemma claiming_simps [simp]:
  "\<not> claiming Outside" "\<not> claiming (PostCounted f)" "\<not> claiming (PostPicking f)"
  "\<not> claiming (PostAttaching f j)" "\<not> claiming (PostLeaving b)" "claiming StopWaiting"
  "claiming (StopHalting k)" "claiming (StopJoining k)" "claiming StopNotifying"
  "\<not> claiming (StopRunning ns)" "claiming JoinFailed" "\<not> claiming (RunSpawning i)"
  "\<not> claiming WorkerGone"
  by (simp_all add: claiming_def)

lemma admitted_posting: "count_pcs admitted s \<le> count_pcs posting s"
  by (rule count_le) (metis admitted.elims(2) posting.simps)

lemma past_wait_claiming: "count_pcs past_wait s \<le> count_pcs claiming s"
  by (rule count_le) (simp add: claiming_def)

section \<open>Invariants\<close>

definition inv_count :: "('t, 'd, 'cq) esys \<Rightarrow> bool" where
  "inv_count s \<longleftrightarrow> length (es_pcs s) < 2 ^ 64 \<and>
     unat (ec_within_cq_post (es_ctx s)) = count_pcs posting s"

definition inv_claim :: "('t, 'd, 'cq) esys \<Rightarrow> bool" where
  "inv_claim s \<longleftrightarrow>
     count_pcs claiming s = (if ec_state (es_ctx s) = ShuttingDown then 1 else 0) \<and>
     count_pcs notifying s \<le> (if ec_state (es_ctx s) = Stopped then 1 else 0)"

text \<open>Once the stopper is past its wait nobody is admitted any more.\<close>

definition inv_gate :: "('t, 'd, 'cq) esys \<Rightarrow> bool" where
  "inv_gate s \<longleftrightarrow>
     (0 < count_pcs past_wait s \<or> ec_state (es_ctx s) = Stopped \<longrightarrow> count_pcs admitted s = 0) \<and>
     (es_shut s \<noteq> {} \<longrightarrow> 0 < count_pcs past_wait s \<or> ec_state (es_ctx s) = Stopped) \<and>
     \<not> es_late s"

lemma begin_stop_eq:
  "begin_stop c = (b, c') \<longleftrightarrow>
     (b \<longleftrightarrow> ec_state c = Running) \<and> c' = (if b then c\<lparr>ec_state := ShuttingDown\<rparr> else c)"
  by (cases "ec_state c = Running"; cases c) (auto simp: begin_stop_def compare_exchange_def)

lemma set_running_eq:
  "set_state Running st = (b, st') \<longleftrightarrow> (b \<longleftrightarrow> st = Ready) \<and> st' = (if b then Running else st)"
  by (auto simp: compare_exchange_def)

lemma set_stopped_eq:
  "set_state Stopped st = (st = ShuttingDown, if st = ShuttingDown then Stopped else st)"
  by (auto simp: compare_exchange_def)

declare set_state.simps [simp del]

lemma attach_server_eq:
  "attach_server server c = Inr c' \<longleftrightarrow>
     ec_state c = Ready \<and> c' = c\<lparr>ec_servers := ec_servers c @ [server]\<rparr>"
  by (auto simp: attach_server_def get_state_def)

lemma get_next_cq_frame:
  "get_next_cq c = (r, c') \<Longrightarrow> c' = c\<lparr>ec_next_cq_write_index := ec_next_cq_write_index c + 1\<rparr>"
  by (simp add: get_next_cq_def Let_def)

lemma set_queue_at_within:
  "ec_within_cq_post (set_queue_at p cq c) = ec_within_cq_post c"
  by (cases p) simp_all

lemmas step_facts =
  begin_stop_eq set_running_eq set_stopped_eq attach_server_eq take_notifications_def add_notify_at_stopped_def
  set_queue_at_frame set_queue_at_within get_state_def compare_exchange_def

lemma unat_dec: "0 < unat w \<Longrightarrow> unat (w - 1) = unat w - 1" for w :: "'a::len word"
  by (simp add: unat_minus_one unat_gt_0)

lemma inv_count_step:
  assumes "estep api s s'" and "inv_count s"
  shows "inv_count s'"
  using assms(1)
proof cases
  case (post_begin t c f)
  have "unat (ec_within_cq_post c) + 1 < 2 ^ 64"
    using assms(2) count_move [OF post_begin(2), of posting "PostCounted f" c]
      count_le_threads [of posting "move t (PostCounted f) c s"] post_begin
    by (auto simp: inv_count_def)
  then have "unat (ec_within_cq_post c + 1) = unat (ec_within_cq_post c) + 1"
    by (subst unat_add_small) simp_all
  with assms(2) post_begin show ?thesis by (auto simp: inv_count_def count_moves)
next
  case (post_check t f c)
  with assms(2) show ?thesis by (cases "get_state c \<le> Running") (auto simp: inv_count_def count_moves)
next
  case (post_leave t b c)
  with assms(2) count_pos [OF post_leave(2), of posting]
  show ?thesis by (auto simp: inv_count_def unat_dec count_moves)
qed (use assms(2) in \<open>auto simp: inv_count_def step_facts count_moves dest: get_next_cq_frame\<close>)

lemma inv_claim_step:
  assumes "estep api s s'" and "inv_claim s"
  shows "inv_claim s'"
  using assms(1)
proof cases
  case (post_check t f c)
  with assms(2) show ?thesis by (cases "get_state c \<le> Running") (auto simp: inv_claim_def count_moves)
next
  case (stop_notify t notifications c)
  with assms(2) count_pos [OF stop_notify(2), of claiming]
  show ?thesis by (auto simp: inv_claim_def step_facts count_moves split: if_splits)
qed (use assms(2) in \<open>auto simp: inv_claim_def step_facts count_moves dest: get_next_cq_frame
       split: if_splits\<close>)

lemma inv_gate_step:
  assumes "estep api s s'" and "inv_gate s" and "inv_count s" and "inv_claim s"
  shows "inv_gate s'"
proof -
  note past = past_wait_claiming [of s] and adm = admitted_posting [of s]
  note old = assms(2-4) [unfolded inv_gate_def inv_claim_def]
  from assms(1) show ?thesis
  proof cases
    case (post_check t f c)
    with old past show ?thesis
      by (cases "get_state c \<le> Running")
         (auto simp: inv_gate_def count_moves get_state_def state_order split: if_splits)
  next
    case (post_attach t f j c)
    with old count_pos [OF post_attach(2), of admitted] show ?thesis
      by (auto simp: inv_gate_def count_moves)
  next
    case (stop_win t c)
    with old past show ?thesis
      by (auto simp: inv_gate_def step_facts count_moves)
  next
    case (stop_halt_start t c)
    with assms(3) adm have "count_pcs admitted s = 0"
      by (simp add: inv_count_def word_greater_zero_iff)
    with stop_halt_start old show ?thesis by (auto simp: inv_gate_def count_moves)
  next
    case (stop_halt t k c p)
    with old count_pos [OF stop_halt(2), of past_wait] show ?thesis
      by (auto simp: inv_gate_def count_moves step_facts)
  next
    case (stop_notify t notifications c)
    with old count_pos [OF stop_notify(2), of past_wait] count_pos [OF stop_notify(2), of claiming]
    show ?thesis by (auto simp: inv_gate_def step_facts count_moves split: if_splits)
  next
    case (run_win t c st)
    with old past show ?thesis by (auto simp: inv_gate_def step_facts count_moves)
  qed (use old in \<open>auto simp: inv_gate_def step_facts count_moves dest: get_next_cq_frame
       split: if_splits\<close>)
qed

text \<open>How far the shutting down of the queues has got.\<close>

fun shut_enough :: "cq_place set \<Rightarrow> cq_place list \<Rightarrow> ('t, 'd, 'cq) epc \<Rightarrow> bool" where
  "shut_enough shut places (StopHalting k) = (set (take k places) \<subseteq> shut)"
| "shut_enough shut places (StopJoining k) = (set places \<subseteq> shut)"
| "shut_enough shut places StopNotifying = (set places \<subseteq> shut)"
| "shut_enough shut places WorkerGone = (set places \<subseteq> shut)"
| "shut_enough shut places p = True"

definition inv_shut :: "('t, 'd, 'cq) esys \<Rightarrow> bool" where
  "inv_shut s \<longleftrightarrow>
     list_all (shut_enough (es_shut s) (queue_places (es_ctx s))) (es_pcs s) \<and>
     (ec_state (es_ctx s) = Ready \<longrightarrow> es_shut s = {} \<and> list_all (\<lambda>p. p \<noteq> WorkerGone) (es_pcs s)) \<and>
     (ec_state (es_ctx s) = Stopped \<longrightarrow> set (queue_places (es_ctx s)) \<subseteq> es_shut s) \<and>
     ec_cqs (es_ctx s) \<noteq> []"

lemma shut_enough_mono: "shut_enough shut places p \<Longrightarrow> shut \<subseteq> shut' \<Longrightarrow> shut_enough shut' places p"
  by (cases p) auto

lemma list_all_shut_mono:
  "list_all (shut_enough shut places) ps \<Longrightarrow> shut \<subseteq> shut' \<Longrightarrow> list_all (shut_enough shut' places) ps"
  by (auto simp: list_all_iff intro: shut_enough_mono)

text \<open>The places do not change but by attaching a server.\<close>

lemma places_frame [simp]:
  "queue_places (c\<lparr>ec_within_cq_post := a\<rparr>) = queue_places c"
  "queue_places (c\<lparr>ec_next_cq_write_index := a\<rparr>) = queue_places c"
  "queue_places (c\<lparr>ec_cqs := (ec_cqs c)[j := q]\<rparr>) = queue_places c"
  "queue_places (c\<lparr>ec_state := st\<rparr>) = queue_places c"
  "queue_places (c\<lparr>ec_threads := ts\<rparr>) = queue_places c"
  "queue_places (c\<lparr>ec_notifications := ns\<rparr>) = queue_places c"
  by (simp_all add: queue_places_def queue_groups_def)

lemma places_nonempty: "ec_cqs c \<noteq> [] \<Longrightarrow> queue_places c \<noteq> []"
  by (simp add: queue_places_def queue_groups_def)

lemma at_pc_shut:
  "at_pc t p s \<Longrightarrow> list_all P (es_pcs s) \<Longrightarrow> P p"
  by (auto simp: at_pc_def list_all_length)

lemma move_pcs [simp]: "es_pcs (move t p c s) = (es_pcs s)[t := p]"
  by (simp add: move_def)

text \<open>A thread that is past its wait, or gone, shows that the context is not \<open>Ready\<close>.\<close>

lemma ready_idle:
  assumes "ec_state (es_ctx s) = Ready" and "inv_claim s" and "p \<in> set (es_pcs s)"
  shows "\<not> claiming p \<and> \<not> notifying p"
proof -
  from assms(1,2) have "count_pcs claiming s = 0" "count_pcs notifying s = 0"
    by (simp_all add: inv_claim_def)
  with assms(3) show ?thesis by (auto simp: count_pcs_def filter_empty_conv)
qed

lemma shut_enough_idle:
  "\<not> claiming p \<Longrightarrow> p \<noteq> WorkerGone \<Longrightarrow> shut_enough shut places p"
  by (cases p) simp_all

lemma inv_shut_step:
  assumes "estep api s s'" and "inv_shut s" and "inv_claim s"
  shows "inv_shut s'"
proof -
  note old = assms(2) [unfolded inv_shut_def]
  then have shut: "list_all (shut_enough (es_shut s) (queue_places (es_ctx s))) (es_pcs s)" by simp
  from assms(1) show ?thesis
  proof cases
    case (post_check t f c)
    with old show ?thesis
      by (cases "get_state c \<le> Running") (auto simp: inv_shut_def intro: list_all_update)
  next
    case (stop_halt t k c p)
    have place: "p \<in> set (queue_places c)" using stop_halt by simp
    have same: "queue_places (set_queue_at p cq c) = queue_places c" for cq
      by (simp add: queue_places_def set_queue_at_groups [OF place])
    have "list_all (shut_enough (insert p (es_shut s)) (queue_places c)) (es_pcs s)"
      using old stop_halt(3) by (auto intro: list_all_shut_mono)
    moreover have "set (take (k + 1) (queue_places c)) \<subseteq> insert p (es_shut s)"
      using at_pc_shut [OF stop_halt(2)] old stop_halt by (fastforce simp: take_Suc_conv_app_nth)
    moreover have "ec_state c = ShuttingDown"
      using count_pos [OF stop_halt(2), of claiming] assms(3) stop_halt(3)
      by (auto simp: inv_claim_def split: if_splits)
    moreover have "length (ec_cqs (set_queue_at p cq c)) = length (ec_cqs c)" for cq
      by (simp add: set_queue_at_frame)
    then have "ec_cqs (set_queue_at p cq c) \<noteq> []" for cq
      using old stop_halt(3) by (metis length_0_conv)
    ultimately show ?thesis
      using stop_halt(1) by (auto simp: inv_shut_def same set_queue_at_frame intro: list_all_update)
  next
    case (server_attach t server c)
    then have "list_all (shut_enough (es_shut s) (queue_places c)) (es_pcs s)"
      using old ready_idle [OF _ assms(3)]
      by (auto simp: list_all_iff step_facts intro: shut_enough_idle)
    with server_attach old show ?thesis
      by (auto simp: inv_shut_def step_facts intro: list_all_update)
  next
    case (stop_notify t notifications c)
    have "ec_state (es_ctx s) = ShuttingDown"
      using count_pos [OF stop_notify(2), of claiming] assms(3) by (auto simp: inv_claim_def split: if_splits)
    with stop_notify at_pc_shut [OF stop_notify(2)] old show ?thesis
      by (fastforce simp: inv_shut_def step_facts intro: list_all_update)
  next
    case (worker_leave t c)
    with old places_nonempty [of c] have "ec_state c \<noteq> Ready" by auto
    with worker_leave old show ?thesis by (auto simp: inv_shut_def intro: list_all_update)
  next
    case (stop_halted t k c)
    with at_pc_shut [OF stop_halted(2) shut] old show ?thesis
      by (auto simp: inv_shut_def intro!: list_all_update)
  next
    case (stop_join t k c)
    with at_pc_shut [OF stop_join(2) shut] old show ?thesis
      by (auto simp: inv_shut_def intro!: list_all_update)
  next
    case (stop_joined t k c)
    with at_pc_shut [OF stop_joined(2) shut] old show ?thesis
      by (auto simp: inv_shut_def intro!: list_all_update)
  qed (use old in \<open>auto simp: inv_shut_def step_facts dest!: get_next_cq_frame
       intro!: list_all_update\<close>)
qed

text \<open>Every notification that was accepted has run, is about to run, or is still stored.\<close>

fun to_run :: "('t, 'd, 'cq) epc \<Rightarrow> ('t, 'd) thunk list" where
  "to_run (StopRunning ns) = ns"
| "to_run _ = []"

definition inv_notes :: "('t, 'd, 'cq) esys \<Rightarrow> bool" where
  "inv_notes s \<longleftrightarrow>
     es_added s = es_ran s @ concat (map to_run (es_pcs s)) @ ec_notifications (es_ctx s) \<and>
     (if ec_state (es_ctx s) = Stopped then ec_notifications (es_ctx s) = [] else es_ran s = [])"

lemma to_run_notifying: "\<not> notifying p \<Longrightarrow> to_run p = []"
  by (cases p) simp_all

lemma none_notifying: "\<forall>p \<in> set ps. \<not> notifying p \<Longrightarrow> concat (map to_run ps) = []"
  by (induction ps) (auto simp: to_run_notifying)

lemma count_none: "count_pcs P s = 0 \<longleftrightarrow> (\<forall>p \<in> set (es_pcs s). \<not> P p)"
  by (auto simp: count_pcs_def filter_empty_conv)

text \<open>Only one thread runs notifications, so the others add nothing to the concatenation.\<close>

lemma concat_only:
  assumes "t < length ps" and "\<forall>i < length ps. i \<noteq> t \<longrightarrow> to_run (ps ! i) = []"
  shows "concat (map to_run ps) = to_run (ps ! t)"
proof -
  have split: "ps = take t ps @ ps ! t # drop (Suc t) ps" using assms(1) by (rule id_take_nth_drop)
  have "concat (map to_run (take t ps)) = []" "concat (map to_run (drop (Suc t) ps)) = []"
    using assms by (auto simp: in_set_conv_nth)
  with arg_cong [OF split, of "\<lambda>ps. concat (map to_run ps)"] show ?thesis by simp
qed

lemma one_filter:
  assumes "length (filter P xs) \<le> 1" and "t < length xs" and "P (xs ! t)" and "i < length xs" and "i \<noteq> t"
  shows "\<not> P (xs ! i)"
proof
  assume "P (xs ! i)"
  with assms have "card {i, t} \<le> card {k. k < length xs \<and> P (xs ! k)}"
    by (intro card_mono) auto
  with assms(1,5) show False by (simp add: length_filter_conv_card)
qed

lemma running_only:
  assumes "at_pc t (StopRunning ns) s" and "count_pcs notifying s \<le> 1"
  shows "concat (map to_run ((es_pcs s)[t := p])) = to_run p"
proof -
  from assms(1) have t: "t < length (es_pcs s)" "es_pcs s ! t = StopRunning ns" by (simp_all add: at_pc_def)
  have "to_run (es_pcs s ! i) = []" if "i < length (es_pcs s)" "i \<noteq> t" for i
    using one_filter [OF assms(2) [unfolded count_pcs_def] t(1) _ that] t(2)
    by (simp add: to_run_notifying)
  then show ?thesis
    using concat_only [of t "(es_pcs s)[t := p]"] t(1) by (simp add: nth_list_update)
qed

lemma to_run_update:
  assumes "t < length ps" and "to_run (ps ! t) = []" and "to_run p = []"
  shows "concat (map to_run (ps[t := p])) = concat (map to_run ps)"
proof -
  have "ps = take t ps @ ps ! t # drop (Suc t) ps" using assms(1) by (rule id_take_nth_drop)
  then have "concat (map to_run ps) = concat (map to_run (take t ps @ ps ! t # drop (Suc t) ps))" by simp
  with assms show ?thesis by (simp add: upd_conv_take_nth_drop)
qed

lemma to_run_move:
  "at_pc t p s \<Longrightarrow> to_run p = [] \<Longrightarrow> to_run p' = [] \<Longrightarrow>
     concat (map to_run ((es_pcs s)[t := p'])) = concat (map to_run (es_pcs s))"
  by (auto simp: at_pc_def intro: to_run_update)

lemma set_queue_at_notifications:
  "ec_notifications (set_queue_at p cq c) = ec_notifications c"
  by (cases p) simp_all

lemma inv_notes_step:
  assumes "estep api s s'" and "inv_notes s" and "inv_claim s"
  shows "inv_notes s'"
proof -
  note old = assms(2) [unfolded inv_notes_def]
  from assms(1) show ?thesis
  proof cases
    case (post_check t f c)
    with old show ?thesis
      by (cases "get_state c \<le> Running") (auto simp: inv_notes_def to_run_move)
  next
    case (stop_notify t notifications c)
    have sd: "ec_state (es_ctx s) = ShuttingDown"
      using count_pos [OF stop_notify(2), of claiming] assms(3) by (auto simp: inv_claim_def split: if_splits)
    then have "count_pcs notifying s = 0" using assms(3) by (simp add: inv_claim_def)
    then have none: "\<forall>i < length (es_pcs s). to_run (es_pcs s ! i) = []"
      by (simp add: count_none to_run_notifying)
    have t: "t < length (es_pcs s)" using stop_notify(2) by (simp add: at_pc_def)
    have "concat (map to_run (es_pcs s)) = []"
      using none by (auto simp: in_set_conv_nth)
    moreover have "concat (map to_run ((es_pcs s)[t := StopRunning notifications])) = notifications"
      using concat_only [of t "(es_pcs s)[t := StopRunning notifications]"] none t
      by (simp add: nth_list_update)
    ultimately show ?thesis using stop_notify old sd by (auto simp: inv_notes_def step_facts)
  next
    case (stop_run t thunk thunks c)
    have one: "count_pcs notifying s \<le> 1" and st: "ec_state (es_ctx s) = Stopped"
      using count_pos [OF stop_run(2), of notifying] assms(3) by (auto simp: inv_claim_def split: if_splits)
    have "concat (map to_run (es_pcs s)) = thunk # thunks"
      using running_only [OF stop_run(2) one, of "StopRunning (thunk # thunks)"] stop_run(2)
      by (metis at_pc_def list_update_id to_run.simps(1))
    with stop_run old st running_only [OF stop_run(2) one, of "StopRunning thunks"]
    show ?thesis by (auto simp: inv_notes_def)
  qed (use old in \<open>auto simp: inv_notes_def step_facts to_run_move set_queue_at_notifications
       dest: get_next_cq_frame simp: state_order\<close>)
qed

definition einv :: "('t, 'd, 'cq) esys \<Rightarrow> bool" where
  "einv s \<longleftrightarrow> inv_count s \<and> inv_claim s \<and> inv_gate s \<and> inv_shut s \<and> inv_notes s"

lemma einv_init: "einit s \<Longrightarrow> einv s"
proof -
  assume "einit s"
  then obtain n_threads cqs c threads where c: "make_context n_threads cqs = Inr c"
    and small: "threads < 2 ^ 64" and s: "s = start_esys c threads" by (auto simp: einit_def)
  have none: "count_pcs P s = 0" if "\<not> P Outside" for P
    using that s by (simp add: count_pcs_def start_esys_def)
  have "concat (map to_run (es_pcs s)) = []"
    by (rule none_notifying) (auto simp: s start_esys_def)
  with c small none show ?thesis
    by (auto simp: einv_def inv_count_def inv_claim_def inv_gate_def inv_shut_def inv_notes_def s
        start_esys_def make_context_def list_all_iff split: if_splits)
qed

lemma einv_step: "estep api s s' \<Longrightarrow> einv s \<Longrightarrow> einv s'"
  unfolding einv_def
  using inv_count_step inv_claim_step inv_gate_step inv_shut_step inv_notes_step by blast

interpretation life: invariant_system einit "estep api" einv for api
  by unfold_locales (auto intro: einv_init einv_step)

section \<open>The gate that posts go through\<close>

text \<open>
  What posting promises, without threads and counters: events are accepted until the gate is
  shut, and the gate is shut once and for all.
\<close>

datatype gate_phase = GateOpen | GateClosing | GateShut

inductive gate_step :: "gate_phase \<times> nat \<Rightarrow> gate_phase \<times> nat \<Rightarrow> bool" where
  gate_accept: "phase \<noteq> GateShut \<Longrightarrow> gate_step (phase, n) (phase, Suc n)"
| gate_close: "gate_step (GateOpen, n) (GateClosing, n)"
| gate_shut: "gate_step (GateClosing, n) (GateShut, n)"

inductive_cases gate_shut_cases: "gate_step (GateShut, n) g"

inductive_simps gate_step_simps: "gate_step (phase, n) (phase', n')"

lemma gate_stays_shut: "gate_step\<^sup>*\<^sup>* g g' \<Longrightarrow> fst g = GateShut \<Longrightarrow> g' = g"
proof (induction rule: rtranclp_induct)
  case base
  then show ?case by simp
next
  case (step h h')
  then have "gate_step (GateShut, snd g) h'" by (metis prod.collapse)
  then show ?case by (rule gate_shut_cases) 
qed

definition gate_of :: "('t, 'd, 'cq) esys \<Rightarrow> gate_phase \<times> nat" where
  "gate_of s =
     (if es_shut s \<noteq> {} then GateShut
      else if ec_state (es_ctx s) \<le> Running then GateOpen else GateClosing, es_attached s)"

lemma gate_of_step:
  assumes "einv s" and "estep api s s'"
  shows "gate_of s' = gate_of s \<or> gate_step (gate_of s) (gate_of s')"
  using assms(2)
proof cases
  case (post_attach t f j c)
  have "0 < count_pcs admitted s" using count_pos [OF post_attach(2), of admitted] by simp
  with assms(1) have "es_shut s = {}" by (auto simp: einv_def inv_gate_def)
  with post_attach show ?thesis by (auto simp: gate_of_def gate_step_simps)
next
  case (stop_halt t k c p)
  have "ec_state (es_ctx s) = ShuttingDown"
    using count_pos [OF stop_halt(2), of claiming] assms(1)
    by (auto simp: einv_def inv_claim_def split: if_splits)
  with stop_halt show ?thesis by (auto simp: gate_of_def gate_step_simps state_order)
next
  case (stop_notify t notifications c)
  have "ec_state (es_ctx s) = ShuttingDown"
    using count_pos [OF stop_notify(2), of claiming] assms(1)
    by (auto simp: einv_def inv_claim_def split: if_splits)
  with stop_notify show ?thesis by (auto simp: gate_of_def step_facts state_order)
qed (auto simp: gate_of_def gate_step_simps step_facts state_order dest!: get_next_cq_frame)

interpretation gate: forward_simulation einit "estep api" "\<lambda>g. g = (GateOpen, 0)" gate_step gate_of for api
proof
  fix s :: "('a, 'b, 'c) esys"
  assume "einit s"
  then show "gate_of s = (GateOpen, 0)"
    by (auto simp: einit_def gate_of_def start_esys_def make_context_def state_order split: if_splits)
next
  fix s t :: "('a, 'b, 'c) esys"
  assume "reach einit (estep api) s" and "estep api s t"
  then show "gate_of t = gate_of s \<or> gate_step (gate_of s) (gate_of t)"
    by (intro gate_of_step life.inv_reach)
qed

section \<open>A stop that overtakes the start\<close>

text \<open>A context with one worker and one queue, and two threads outside it: 1 runs, 2 stops.\<close>

definition demo_context ::
  "bool \<Rightarrow> execution_state \<Rightarrow> u32 list \<Rightarrow> (nat, nat, bool \<times> (nat, nat) cq_event list) exec_context" where
  "demo_context shut st threads =
     \<lparr>ec_threads = threads, ec_task_queue = make_tsq 2, ec_cqs = [(shut, [])], ec_servers = [],
      ec_notifications = [], ec_state = st, ec_next_cq_write_index = 0, ec_within_cq_post = 0,
      ec_n_threads = 1\<rparr>"

type_synonym demo_pc = "(nat, nat, bool \<times> (nat, nat) cq_event list) epc"

definition demo_system ::
  "bool \<Rightarrow> execution_state \<Rightarrow> u32 list \<Rightarrow> demo_pc \<Rightarrow> demo_pc
     \<Rightarrow> (nat, nat, bool \<times> (nat, nat) cq_event list) esys" where
  "demo_system shut st threads p1 p2 =
     \<lparr>es_ctx = demo_context shut st threads, es_pcs = [Outside, p1, p2],
      es_shut = (if shut then {OwnQueue 0} else {}), es_attached = 0, es_late = False,
      es_added = [], es_ran = []\<rparr>"

lemmas demo_defs = demo_system_def demo_context_def at_pc_def move_def step_facts
  queue_places_def queue_groups_def fifo_cq_def

lemma demo_start: "einit (demo_system False Ready [] Outside Outside)"
  unfolding einit_def
  by (intro exI [of _ 1] exI [of _ "[(False, [])]"] exI [of _ "demo_context False Ready []"] exI [of _ 3])
     (simp add: demo_system_def demo_context_def make_context_def start_esys_def numeral_3_eq_3)

lemma demo_1: "estep fifo_cq (demo_system False Ready [] Outside Outside)
    (demo_system False Running [] (RunSpawning 0) Outside)"
  using estep.run_win [of 1 "demo_system False Ready [] Outside Outside" _ Running fifo_cq]
  by (simp add: demo_defs)

lemma demo_2: "estep fifo_cq (demo_system False Running [] (RunSpawning 0) Outside)
    (demo_system False ShuttingDown [] (RunSpawning 0) StopWaiting)"
  using estep.stop_win [of 2 "demo_system False Running [] (RunSpawning 0) Outside" _ fifo_cq]
  by (simp add: demo_defs)

lemma demo_3: "estep fifo_cq (demo_system False ShuttingDown [] (RunSpawning 0) StopWaiting)
    (demo_system False ShuttingDown [] (RunSpawning 0) (StopHalting 0))"
  using estep.stop_halt_start [of 2 "demo_system False ShuttingDown [] (RunSpawning 0) StopWaiting" _ fifo_cq]
  by (simp add: demo_defs)

lemma demo_4: "estep fifo_cq (demo_system False ShuttingDown [] (RunSpawning 0) (StopHalting 0))
    (demo_system True ShuttingDown [] (RunSpawning 0) (StopHalting 1))"
  using estep.stop_halt [of 2 0 "demo_system False ShuttingDown [] (RunSpawning 0) (StopHalting 0)" _ _ fifo_cq]
  by (simp add: demo_defs)

lemma demo_5: "estep fifo_cq (demo_system True ShuttingDown [] (RunSpawning 0) (StopHalting 1))
    (demo_system True ShuttingDown [] (RunSpawning 0) (StopJoining 0))"
  using estep.stop_halted [of 2 1 "demo_system True ShuttingDown [] (RunSpawning 0) (StopHalting 1)" _ fifo_cq]
  by (simp add: demo_defs)

lemma demo_6: "estep fifo_cq (demo_system True ShuttingDown [] (RunSpawning 0) (StopJoining 0))
    (demo_system True ShuttingDown [] (RunSpawning 0) StopNotifying)"
  using estep.stop_joined [of 2 0 "demo_system True ShuttingDown [] (RunSpawning 0) (StopJoining 0)" _ fifo_cq]
  by (simp add: demo_defs)

lemma demo_7: "estep fifo_cq (demo_system True ShuttingDown [] (RunSpawning 0) StopNotifying)
    (demo_system True Stopped [] (RunSpawning 0) (StopRunning []))"
  using estep.stop_notify [of 2 "demo_system True ShuttingDown [] (RunSpawning 0) StopNotifying" _ _ fifo_cq]
  by (simp add: demo_defs)

lemma demo_8: "estep fifo_cq (demo_system True Stopped [] (RunSpawning 0) (StopRunning []))
    (demo_system True Stopped [] (RunSpawning 0) Outside)"
  using estep.stop_done [of 2 "demo_system True Stopped [] (RunSpawning 0) (StopRunning [])" _ fifo_cq]
  by (simp add: demo_defs)

lemma demo_9: "estep fifo_cq (demo_system True Stopped [] (RunSpawning 0) Outside)
    (demo_system True Stopped [0] (RunSpawning 1) Outside)"
  using estep.run_spawn [of 1 0 "demo_system True Stopped [] (RunSpawning 0) Outside" _ fifo_cq]
  by (simp add: demo_defs)

lemma demo_10: "estep fifo_cq (demo_system True Stopped [0] (RunSpawning 1) Outside)
    (demo_system True Stopped [0] Outside Outside)"
  using estep.run_done [of 1 1 "demo_system True Stopped [0] (RunSpawning 1) Outside" _ fifo_cq]
  by (simp add: demo_defs)

lemmas demo_init = reach_init [where init = einit and step = "estep fifo_cq"]
lemmas demo_step = reach_step [where init = einit and step = "estep fifo_cq"]

lemma demo_shut: "reach einit (estep fifo_cq) (demo_system True ShuttingDown [] (RunSpawning 0) (StopHalting 1))"
  by (rule demo_step [OF demo_step [OF demo_step [OF demo_step [OF demo_init [OF demo_start]
      demo_1] demo_2] demo_3] demo_4])

lemma demo_stopped: "reach einit (estep fifo_cq) (demo_system True Stopped [0] Outside Outside)"
  by (rule demo_step [OF demo_step [OF demo_step [OF demo_step [OF demo_step [OF demo_step [OF
      demo_shut demo_5] demo_6] demo_7] demo_8] demo_9] demo_10])

section \<open>Properties\<close>



text \<open>
  C19. Notifications run exactly once and in order: at every moment those that have run are
  the first of those that were accepted, none has run before the context is \<open>Stopped\<close> with
  every completion queue shut down, and when the context is \<open>Stopped\<close> and nobody is still running
  them, all of them have run.
\<close>

theorem notifications_run_once:
  assumes "reach einit (estep api) s"
  shows "(\<exists>rest. es_added s = es_ran s @ rest) \<and>
    (es_ran s \<noteq> [] \<longrightarrow> ec_state (es_ctx s) = Stopped) \<and>
    (ec_state (es_ctx s) = Stopped \<longrightarrow> set (queue_places (es_ctx s)) \<subseteq> es_shut s) \<and>
    (ec_state (es_ctx s) = Stopped \<and> (\<forall>ns. StopRunning ns \<notin> set (es_pcs s)) \<longrightarrow> es_ran s = es_added s)"
proof -
  from life.inv_reach [OF assms] have stored: "inv_notes s" and shut: "inv_shut s"
    by (simp_all add: einv_def)
  have "concat (map to_run (es_pcs s)) = []" if "\<forall>ns. StopRunning ns \<notin> set (es_pcs s)"
    by (rule none_notifying) (use that in \<open>auto elim!: notifying.elims\<close>)
  with stored shut show ?thesis by (auto simp: inv_notes_def inv_shut_def split: if_splits)
qed

lemma notifications_witness:
  "set (queue_places (demo_context True Stopped [0])) \<subseteq> {OwnQueue 0} \<and>
   es_ran (demo_system True Stopped [0] Outside Outside) = []"
  using notifications_run_once [OF demo_stopped] by (simp add: demo_system_def demo_context_def)

text \<open>
  C39. A \<open>stop\<close> that overtakes a \<open>run_while\<close> in another thread leaves a broken context:
  there is a run in which both calls have returned and the context is \<open>Stopped\<close>, while a
  worker thread has been started after the joins and is never joined.
\<close>

theorem stop_overtakes_start:
  "\<exists>s :: (nat, nat, bool \<times> (nat, nat) cq_event list) esys.
     reach einit (estep fifo_cq) s \<and> set (es_pcs s) = {Outside} \<and>
     ec_state (es_ctx s) = Stopped \<and> ec_threads (es_ctx s) = [0]"
  by (intro exI [of _ "demo_system True Stopped [0] Outside Outside"] conjI demo_stopped)
     (simp_all add: demo_system_def demo_context_def)

end
