(* ===== verification/Worker_Pool.thy ===== *)
theory Worker_Pool
  imports Task_Queue_Drain
begin

text \<open>
  The workers of an \<open>ExecutionContext\<close> on their shared task queue, all at once: the thread
  function \<open>run_one_thread_\<close> of \<open>sgrpc/execution_context.cpp\<close> around the interleaved calls of
  \<open>push\<close>, \<open>try_pop\<close> and \<open>stop_and_eject\<close> of \<open>Task_Queue_Threads\<close>, and any number of other
  threads that post. Memory is sequentially consistent.

  Of the completion queues only one thing is seen here, that a worker has found all of them
  shut down in one round (\<open>worker_leaves_iff_all_shutdown\<close> of \<open>Execution_Worker\<close>); the rounds
  themselves are in \<open>Execution_Rounds\<close>. The code of the users, in thunks
  and in completed events, does what it likes; what matters here is what it posts.
\<close>

section \<open>Definitions\<close>

text \<open>
  Where a thread is in \<open>run_one_thread_\<close>; the local \<open>thunk\<close> keeps its value from round to
  round. A thread that is no worker only posts.
\<close>

datatype 'a wpc =
    Polling "'a option"            \<comment> \<open>in \<open>run_completion_queues\<close>\<close>
  | Popping                        \<comment> \<open>in \<open>task_queue_.try_pop(thunk)\<close>\<close>
  | Calling 'a                     \<comment> \<open>in \<open>thunk()\<close>\<close>
  | Draining                       \<comment> \<open>in \<open>task_queue_.stop_and_eject()\<close>\<close>
  | Drained "'a list"              \<comment> \<open>thunks still to call\<close>
  | CallingDrained 'a "'a list"    \<comment> \<open>in \<open>thunk()\<close> of one of them\<close>
  | WorkerReturned
  | External

record 'a pool =
  pl_queue :: "'a qsys"
  pl_workers :: "'a wpc list"
  pl_halted :: "nat set"
  pl_ran :: "'a list"

definition set_worker :: "nat \<Rightarrow> 'a wpc \<Rightarrow> 'a pool \<Rightarrow> 'a pool" where
  "set_worker t w s = s\<lparr>pl_workers := (pl_workers s)[t := w]\<rparr>"

definition run_now :: "'a \<Rightarrow> 'a pool \<Rightarrow> 'a pool" where
  "run_now x s = s\<lparr>pl_ran := pl_ran s @ [x]\<rparr>"

definition queue_call :: "'a qact \<Rightarrow> 'a pool \<Rightarrow> 'a pool option" where
  "queue_call a s =
     (case qsys_act a (pl_queue s) of None \<Rightarrow> None | Some q \<Rightarrow> Some (s\<lparr>pl_queue := q\<rparr>))"

text \<open>Code of the users runs, which may post.\<close>

fun may_post :: "'a wpc \<Rightarrow> bool" where
  "may_post (Polling x) = True"
| "may_post (Calling x) = True"
| "may_post (CallingDrained x xs) = True"
| "may_post External = True"
| "may_post _ = False"

text \<open>
  The step of a worker between its calls of the task queue: leave the loop or pop, call what
  was popped, eject, call what was ejected, return. A call that the thread is in has to
  return first.
\<close>

fun worker_go :: "nat \<Rightarrow> 'a wpc \<Rightarrow> 'a tpc \<Rightarrow> 'a pool \<Rightarrow> 'a pool option" where
  "worker_go t (Polling x) p s =
     (if t \<in> pl_halted s then map_option (set_worker t Draining) (queue_call (CallEject t) s)
      else map_option (set_worker t Popping) (queue_call (CallPop t x) s))"
| "worker_go t Popping (Returned (RPop True (Some x))) s = Some (run_now x (set_worker t (Calling x) s))"
| "worker_go t Popping (Returned (RPop False x)) s = Some (set_worker t (Polling x) s)"
| "worker_go t (Calling x) p s = (if calling p then None else Some (set_worker t (Polling (Some x)) s))"
| "worker_go t Draining (Returned (REject xs)) s = Some (set_worker t (Drained xs) s)"
| "worker_go t (Drained []) p s = Some (set_worker t WorkerReturned s)"
| "worker_go t (Drained (x # xs)) p s = Some (run_now x (set_worker t (CallingDrained x xs) s))"
| "worker_go t (CallingDrained x xs) p s =
     (if calling p then None else Some (set_worker t (Drained xs) s))"
| "worker_go t w p s = None"

text \<open>
  Post, go on inside a call of the task queue, have a \<open>try_lock\<close> fail for no reason, go on in
  the thread function; and a worker finds that all completion queues report their shutdown.
\<close>

datatype 'a pact = Post nat 'a | Inside nat | LockFails nat | Worker nat | Halt nat

fun pool_act :: "'a pact \<Rightarrow> 'a pool \<Rightarrow> 'a pool option" where
  "pool_act (Post t x) s =
     (if t < length (pl_workers s) \<and> may_post (pl_workers s ! t) then queue_call (CallPush t x) s else None)"
| "pool_act (Inside t) s = queue_call (Run t) s"
| "pool_act (LockFails t) s = queue_call (Spurious t) s"
| "pool_act (Worker t) s =
     (if t < length (pl_workers s)
      then worker_go t (pl_workers s ! t) (qs_threads (pl_queue s) ! t) s else None)"
| "pool_act (Halt t) s = Some (s\<lparr>pl_halted := insert t (pl_halted s)\<rparr>)"

abbreviation pool_step :: "'a pool \<Rightarrow> 'a pool \<Rightarrow> bool" where
  "pool_step \<equiv> step_of pool_act"

text \<open>A context with so many threads has one queue more; \<open>callers\<close> other threads post.\<close>

definition start_pool :: "u32 \<Rightarrow> nat \<Rightarrow> 'a pool" where
  "start_pool n_threads callers =
     \<lparr>pl_queue = start_qsys (n_threads + 1) (unat n_threads + callers),
      pl_workers = replicate (unat n_threads) (Polling None) @ replicate callers External,
      pl_halted = {}, pl_ran = []\<rparr>"

definition pool_init :: "'a pool \<Rightarrow> bool" where
  "pool_init s \<longleftrightarrow> (\<exists>n_threads callers. n_threads + 1 \<noteq> 0 \<and> s = start_pool n_threads callers)"

section \<open>The queue inside the pool\<close>

text \<open>Every step of the pool is a step of the task queue or leaves it alone.\<close>

lemma queue_call_step:
  "queue_call a s = Some s' \<Longrightarrow> qstep (pl_queue s) (pl_queue s') \<and> qsys_act a (pl_queue s) = Some (pl_queue s') \<and>
     pl_workers s' = pl_workers s \<and> pl_halted s' = pl_halted s \<and> pl_ran s' = pl_ran s"
  by (auto simp: queue_call_def step_of_def split: option.splits)

lemma set_worker_simps [simp]:
  "pl_queue (set_worker t w s) = pl_queue s" "pl_workers (set_worker t w s) = (pl_workers s)[t := w]"
  "pl_halted (set_worker t w s) = pl_halted s" "pl_ran (set_worker t w s) = pl_ran s"
  by (simp_all add: set_worker_def)

lemma run_now_simps [simp]:
  "pl_queue (run_now x s) = pl_queue s" "pl_workers (run_now x s) = pl_workers s"
  "pl_halted (run_now x s) = pl_halted s" "pl_ran (run_now x s) = pl_ran s @ [x]"
  by (simp_all add: run_now_def)

lemma worker_go_queue:
  "worker_go t w p s = Some s' \<Longrightarrow> pl_queue s' = pl_queue s \<or> qstep (pl_queue s) (pl_queue s')"
  by (cases "(t, w, p, s)" rule: worker_go.cases)
     (auto split: if_splits dest: queue_call_step)

lemma pool_act_queue:
  "pool_act a s = Some s' \<Longrightarrow> pl_queue s' = pl_queue s \<or> qstep (pl_queue s) (pl_queue s')"
  by (cases a) (auto split: if_splits dest: queue_call_step worker_go_queue)

interpretation pool: forward_simulation pool_init pool_step qinit qstep pl_queue
proof
  fix s :: "'a pool"
  assume "pool_init s"
  then show "qinit (pl_queue s)" by (auto simp: pool_init_def start_pool_def qinit_def) blast
next
  fix s t :: "'a pool"
  assume "pool_step s t"
  then show "pl_queue t = pl_queue s \<or> qstep (pl_queue s) (pl_queue t)"
    by (auto simp: step_of_def [of pool_act] dest: pool_act_queue)
qed

section \<open>What the workers hold\<close>

fun in_pop :: "'a tpc \<Rightarrow> bool" where
  "in_pop (PopEnter x) = True"
| "in_pop (PopTry x offset i) = True"
| "in_pop (PopHold x offset i) = True"
| "in_pop (PopUnlock b x offset i) = True"
| "in_pop (Returned (RPop b x)) = True"
| "in_pop p = False"

fun in_eject :: "'a tpc \<Rightarrow> bool" where
  "in_eject EjectSignal = True"
| "in_eject (EjectLock i xs) = True"
| "in_eject (EjectHold i xs) = True"
| "in_eject (EjectUnlock i xs) = True"
| "in_eject (EjectLoad xs) = True"
| "in_eject (Returned (REject xs)) = True"
| "in_eject p = False"

text \<open>
  A thread pops and ejects only where its thread function does; elsewhere it may be pushing,
  but not when no code of the users runs.
\<close>

fun fits :: "'a wpc \<Rightarrow> 'a tpc \<Rightarrow> bool" where
  "fits Popping p = in_pop p"
| "fits Draining p = in_eject p"
| "fits (Drained xs) p = (\<not> calling p)"
| "fits WorkerReturned p = (\<not> calling p)"
| "fits w p = (calling p \<longrightarrow> \<not> in_pop p \<and> \<not> in_eject p)"

text \<open>The thunks a worker has been handed by the task queue and has not called yet.\<close>

fun holding :: "'a wpc \<times> 'a tpc \<Rightarrow> 'a multiset" where
  "holding (Popping, p) = delivers p"
| "holding (Draining, p) = delivers p"
| "holding (Drained xs, p) = mset xs"
| "holding (CallingDrained x xs, p) = mset xs"
| "holding (w, p) = {#}"

abbreviation pool_threads :: "'a pool \<Rightarrow> ('a wpc \<times> 'a tpc) list" where
  "pool_threads s \<equiv> zip (pl_workers s) (qs_threads (pl_queue s))"

definition pool_inv :: "'a pool \<Rightarrow> bool" where
  "pool_inv s \<longleftrightarrow> length (pl_workers s) = length (qs_threads (pl_queue s)) \<and>
     (\<forall>(w, p) \<in> set (pool_threads s). fits w p) \<and>
     qs_delivered (pl_queue s) = mset (pl_ran s) + sum_list (map holding (pool_threads s))"

lemma delivers_calling: "calling p \<Longrightarrow> delivers p = {#}"
  by (cases p) auto

lemma run_pc_calling: "run_pc t p q = Some r \<Longrightarrow> calling p"
  by (cases p) auto

lemma run_pc_in_pop:
  "run_pc t p q = Some (p', q') \<Longrightarrow> in_pop p' = in_pop p \<and> in_eject p' = in_eject p"
  by (cases p) (auto split: if_splits prod.splits)

lemma spurious_in_pop:
  "spurious_pc p q = Some p' \<Longrightarrow> in_pop p' = in_pop p \<and> in_eject p' = in_eject p \<and> calling p \<and> calling p'"
  by (cases p) (auto split: if_splits)

lemma delivers_pushing: "\<not> in_pop p \<Longrightarrow> \<not> in_eject p \<Longrightarrow> delivers p = {#}"
  by (cases p rule: delivers.cases) auto

text \<open>One thread moves, in its thread function, in its call, or both.\<close>

lemma pool_inv_move:
  assumes "pool_inv s" and "t < length (pl_workers s)"
    and "pl_workers s' = (pl_workers s)[t := w']"
    and "qs_threads (pl_queue s') = (qs_threads (pl_queue s))[t := p']"
    and "fits w' p'"
    and "qs_delivered (pl_queue s') + mset (pl_ran s) +
         holding (pl_workers s ! t, qs_threads (pl_queue s) ! t) =
       qs_delivered (pl_queue s) + mset (pl_ran s') + holding (w', p')"
  shows "pool_inv s'"
proof -
  have zip: "pool_threads s' = (pool_threads s)[t := (w', p')]"
    by (simp add: assms(3,4) update_zip)
  have t: "t < length (pool_threads s)" "pool_threads s ! t = (pl_workers s ! t, qs_threads (pl_queue s) ! t)"
    using assms(1,2) by (simp_all add: pool_inv_def)
  let ?H = "sum_list (map holding (pool_threads s))" and ?H' = "sum_list (map holding (pool_threads s'))"
  have "?H' + holding (pool_threads s ! t) = ?H + holding (w', p')"
    unfolding zip by (rule sum_list_update_thread [OF t(1)])
  moreover have "qs_delivered (pl_queue s) = mset (pl_ran s) + ?H"
    using assms(1) by (simp add: pool_inv_def)
  ultimately have "qs_delivered (pl_queue s') + (mset (pl_ran s) + holding (pool_threads s ! t)) =
      (mset (pl_ran s') + ?H') + (mset (pl_ran s) + holding (pool_threads s ! t))"
    using assms(6) t(2) by (simp add: algebra_simps)
  then have "qs_delivered (pl_queue s') = mset (pl_ran s') + ?H'" by (rule add_right_imp_eq)
  moreover have "\<forall>(w, p) \<in> set (pool_threads s'). fits w p"
    using assms(1,5) set_update_subset_insert [of "pool_threads s" t "(w', p')"]
    by (auto simp: zip pool_inv_def)
  ultimately show ?thesis using assms(1,3,4) by (simp add: pool_inv_def)
qed

lemma fits_at:
  "pool_inv s \<Longrightarrow> t < length (pl_workers s) \<Longrightarrow> fits (pl_workers s ! t) (qs_threads (pl_queue s) ! t)"
  using nth_mem [of t "pool_threads s"] by (fastforce simp: pool_inv_def)

lemma pool_inv_stay:
  assumes "pool_inv s" and "t < length (pl_workers s)"
    and "pl_workers s' = (pl_workers s)[t := w']" and "pl_queue s' = pl_queue s"
    and "fits w' (qs_threads (pl_queue s) ! t)"
    and "mset (pl_ran s) + holding (pl_workers s ! t, qs_threads (pl_queue s) ! t) =
       mset (pl_ran s') + holding (w', qs_threads (pl_queue s) ! t)"
  shows "pool_inv s'"
  by (rule pool_inv_move [OF assms(1-3), of "qs_threads (pl_queue s) ! t"])
     (use assms(4-6) in \<open>simp_all add: algebra_simps\<close>)

text \<open>The worker's own step: between calls, or entering one.\<close>

lemma start_call_eq:
  "start_call t p s = Some s' \<longleftrightarrow>
     t < length (qs_threads s) \<and> \<not> calling (qs_threads s ! t) \<and>
     s' = s\<lparr>qs_threads := (qs_threads s)[t := p]\<rparr>"
  by (auto simp: start_call_def)

lemma queue_call_eq:
  "queue_call a s = Some s' \<longleftrightarrow> (\<exists>q. qsys_act a (pl_queue s) = Some q \<and> s' = s\<lparr>pl_queue := q\<rparr>)"
  by (auto simp: queue_call_def split: option.splits)

lemma pool_inv_worker:
  assumes "worker_go t (pl_workers s ! t) (qs_threads (pl_queue s) ! t) s = Some s'"
    and "pool_inv s" and "t < length (pl_workers s)"
  shows "pool_inv s'"
proof -
  let ?w = "pl_workers s ! t" and ?p = "qs_threads (pl_queue s) ! t"
  note move = pool_inv_move [OF assms(2,3)]
  note fit = fits_at [OF assms(2,3)]
  note stay = pool_inv_stay [OF assms(2,3)]
  show ?thesis
  proof (cases "(t, ?w, ?p, s)" rule: worker_go.cases)
    case (1 t' x p s'')
    show ?thesis
    proof (cases "t \<in> pl_halted s")
      case True
      with 1 assms(1) show ?thesis
        by (auto simp: queue_call_eq start_call_eq intro!: move [of _ Draining EjectSignal])
    next
      case False
      with 1 assms(1) show ?thesis
        by (auto simp: queue_call_eq start_call_eq intro!: move [of _ Popping "PopEnter x"])
    qed
  next
    case (2 t' x s'')
    with assms(1) show ?thesis by (auto intro!: stay [of _ "Calling x"])
  next
    case (3 t' x s'')
    with assms(1) show ?thesis by (auto intro!: stay [of _ "Polling x"])
  next
    case (4 t' x p s'')
    with assms(1) fit show ?thesis by (auto split: if_splits intro!: stay [of _ "Polling (Some x)"])
  next
    case (5 t' xs s'')
    with assms(1) show ?thesis by (auto intro!: stay [of _ "Drained xs"])
  next
    case (6 t' p s'')
    with assms(1) fit show ?thesis by (auto intro!: stay [of _ WorkerReturned])
  next
    case (7 t' x xs p s'')
    with assms(1) fit show ?thesis by (auto intro!: stay [of _ "CallingDrained x xs"])
  next
    case (8 t' x xs p s'')
    with assms(1) fit show ?thesis by (auto split: if_splits intro!: stay [of _ "Drained xs"])
  qed (use assms(1) in auto)
qed

lemma pool_inv_inside:
  assumes "qsys_act (Run t) (pl_queue s) = Some q" and "pool_inv s"
  shows "pool_inv (s\<lparr>pl_queue := q\<rparr>)"
proof -
  let ?w = "pl_workers s ! t" and ?p = "qs_threads (pl_queue s) ! t"
  from assms(1) obtain p' q' where run: "run_pc t ?p (qs_tsq (pl_queue s)) = Some (p', q')"
    and t: "t < length (qs_threads (pl_queue s))"
    and q: "q = \<lparr>qs_tsq = q', qs_threads = (qs_threads (pl_queue s))[t := p'],
      qs_accepted = qs_accepted (pl_queue s) + accepts p', qs_delivered = qs_delivered (pl_queue s) + delivers p'\<rparr>"
    by (auto split: if_splits option.splits)
  have tw: "t < length (pl_workers s)" using t assms(2) by (simp add: pool_inv_def)
  note kind = run_pc_in_pop [OF run] run_pc_calling [OF run]
  have "fits ?w p'" and "holding (?w, p') = delivers p' + holding (?w, ?p)"
    using fits_at [OF assms(2) tw] kind delivers_calling [of ?p] delivers_pushing [of p']
    by (cases ?w; simp)+
  then show ?thesis
    by (intro pool_inv_move [OF assms(2) tw, of _ ?w p']) (simp_all add: q)
qed

lemma pool_inv_step:
  assumes "pool_act a s = Some s'" and "pool_inv s"
  shows "pool_inv s'"
proof (cases a)
  case (Post t x)
  with assms(1) have t: "t < length (pl_workers s)" "may_post (pl_workers s ! t)"
    and s': "s' = s\<lparr>pl_queue := (pl_queue s)\<lparr>qs_threads := (qs_threads (pl_queue s))[t := PushEnter x]\<rparr>\<rparr>"
    by (auto simp: queue_call_eq start_call_eq split: if_splits)
  show ?thesis
    by (rule pool_inv_move [OF assms(2) t(1), of _ "pl_workers s ! t" "PushEnter x"])
       (use t(2) in \<open>auto simp: s' elim!: may_post.elims\<close>)
next
  case (Inside t)
  with assms pool_inv_inside show ?thesis by (auto simp: queue_call_eq simp del: qsys_act.simps)
next
  case (LockFails t)
  with assms(1) obtain p' where t: "t < length (qs_threads (pl_queue s))"
    and p': "spurious_pc (qs_threads (pl_queue s) ! t) (qs_tsq (pl_queue s)) = Some p'"
    and s': "s' = s\<lparr>pl_queue := (pl_queue s)\<lparr>qs_threads := (qs_threads (pl_queue s))[t := p']\<rparr>\<rparr>"
    by (auto simp: queue_call_eq split: if_splits option.splits)
  have tw: "t < length (pl_workers s)" using t assms(2) by (simp add: pool_inv_def)
  note kind = spurious_in_pop [OF p']
  then have "fits (pl_workers s ! t) p'"
    "holding (pl_workers s ! t, p') = holding (pl_workers s ! t, qs_threads (pl_queue s) ! t)"
    using fits_at [OF assms(2) tw] by (cases "pl_workers s ! t"; simp add: delivers_calling)+
  then show ?thesis
    by (intro pool_inv_move [OF assms(2) tw, of _ "pl_workers s ! t" p']) (simp_all add: s')
next
  case (Worker t)
  with assms pool_inv_worker show ?thesis by (auto split: if_splits)
next
  case (Halt t)
  with assms show ?thesis by (auto simp: pool_inv_def)
qed

lemma sum_list_empty: "(\<And>x. x \<in> set xs \<Longrightarrow> f x = {#}) \<Longrightarrow> sum_list (map f xs) = {#}"
  by (induction xs) auto

lemma pool_inv_init: "pool_init s \<Longrightarrow> pool_inv s"
proof -
  assume "pool_init s"
  then obtain n callers where s: "s = start_pool n callers" by (auto simp: pool_init_def)
  have "holding wp = {#} \<and> fits (fst wp) (snd wp)" if "wp \<in> set (pool_threads s)" for wp
    using set_zip_leftD [of "fst wp" "snd wp"] set_zip_rightD [of "fst wp" "snd wp"] that
    by (cases wp) (fastforce simp: s start_pool_def start_qsys_def)
  moreover from this have "sum_list (map holding (pool_threads s)) = {#}"
    by (intro sum_list_empty) blast
  moreover have "length (pl_workers s) = length (qs_threads (pl_queue s))"
    "qs_delivered (pl_queue s) = {#}" "pl_ran s = []"
    by (simp_all add: s start_pool_def start_qsys_def)
  ultimately show ?thesis unfolding pool_inv_def by fastforce
qed

interpretation work: invariant_system pool_init pool_step pool_inv
  by unfold_locales (auto simp: step_of_def intro: pool_inv_init pool_inv_step)

section \<open>After the last round\<close>

text \<open>The queues are sealed, and worker \<open>e\<close> goes over them or has done so.\<close>

definition emptied :: "nat \<Rightarrow> 'a pool \<Rightarrow> bool" where
  "emptied e s \<longleftrightarrow>
     (if pl_workers s ! e = Draining then swept (qs_threads (pl_queue s) ! e) (qs_tsq (pl_queue s))
      else empty_below (length (ts_queues (qs_tsq (pl_queue s)))) (qs_tsq (pl_queue s)))"

definition drain_begins :: "nat \<Rightarrow> 'a pool \<Rightarrow> bool" where
  "drain_begins e s \<longleftrightarrow> reach pool_init pool_step s \<and> sealed (pl_queue s) \<and> e < length (pl_workers s) \<and>
     (\<exists>xs. qs_threads (pl_queue s) ! e = EjectLock 0 xs)"

definition drained_inv :: "nat \<Rightarrow> 'a pool \<Rightarrow> bool" where
  "drained_inv e s \<longleftrightarrow> pool_inv s \<and> threads_wf (pl_queue s) \<and> sealed (pl_queue s) \<and>
     e < length (pl_workers s) \<and> emptied e s"

text \<open>Under the seal an empty queue stays empty, and what was swept stays swept.\<close>

lemma sealed_act:
  assumes "qsys_act a q = Some q'" and "threads_wf q" and "sealed q"
  shows "threads_wf q' \<and> sealed q' \<and>
    length (ts_queues (qs_tsq q')) = length (ts_queues (qs_tsq q)) \<and>
    (empty_below k (qs_tsq q) \<longrightarrow> empty_below k (qs_tsq q')) \<and>
    (e < length (qs_threads q) \<and> swept (qs_threads q ! e) (qs_tsq q) \<longrightarrow>
       swept (qs_threads q' ! e) (qs_tsq q'))"
proof -
  have "drain_inv e q'" if "e < length (qs_threads q)" "swept (qs_threads q ! e) (qs_tsq q)"
    using drain_inv_step [OF assms(1), of e] assms(2,3) that by (simp add: drain_inv_def)
  moreover have wf: "threads_wf q'" "length (ts_queues (qs_tsq q')) = length (ts_queues (qs_tsq q))"
    using threads_wf_step [OF assms(1,2)] assms(2) by (auto simp: threads_wf_def tsq_wf_def)
  moreover from assms(1) have "sealed q' \<and> (empty_below k (qs_tsq q) \<longrightarrow> empty_below k (qs_tsq q'))"
  proof (cases rule: qsys_act_cases)
    case (run t p' q'')
    have quiet: "\<not> may_insert (qs_threads q ! t)" using assms(3) run(2) by (simp add: sealed_def list_all_length)
    with run_pc_may_insert [OF run(3)] run_pc_done [OF run(3)] assms(3) run(4)
      run_pc_empty_below [OF run(3) quiet] threads_wf_nth [OF assms(2) run(2)]
    show ?thesis by (auto simp: sealed_def intro: list_all_update)
  next
    case (inert t p')
    from inert(8) have "\<not> may_insert p'" if "\<not> may_insert (qs_threads q ! t)"
      using that by (cases "qs_threads q ! t") (auto split: if_splits)
    with inert(1,2) assms(3) show ?thesis by (auto simp: sealed_def list_all_length nth_list_update)
  qed
  ultimately show ?thesis by (auto simp: drain_inv_def)
qed

lemma drained_inv_queue:
  assumes "qsys_act a (pl_queue s) = Some (pl_queue s')" and "pl_workers s' = pl_workers s"
    and "pool_inv s'" and "drained_inv e s"
  shows "drained_inv e s'"
proof -
  let ?k = "length (ts_queues (qs_tsq (pl_queue s)))"
  from assms(4) have "threads_wf (pl_queue s)" "sealed (pl_queue s)" "e < length (qs_threads (pl_queue s))"
    by (auto simp: drained_inv_def pool_inv_def)
  with sealed_act [OF assms(1), of ?k e] assms(2-4) show ?thesis
    by (auto simp: drained_inv_def emptied_def split: if_splits)
qed

text \<open>Leaving \<open>stop_and_eject\<close>, worker \<open>e\<close> has swept all queues; entering it changes nothing.\<close>

lemma drained_inv_stay:
  assumes "pl_queue s' = pl_queue s" and "pl_workers s' = (pl_workers s)[t := w]" and "w \<noteq> Draining"
    and "pl_workers s ! t = Draining \<longrightarrow> (\<exists>xs. qs_threads (pl_queue s) ! t = Returned (REject xs))"
    and "pool_inv s'" and "drained_inv e s"
  shows "drained_inv e s'"
  using assms by (cases "t = e") (auto simp: drained_inv_def emptied_def split: if_splits)

lemma drained_inv_enter:
  assumes "qsys_act a (pl_queue s) = Some (pl_queue s')" and "pl_workers s' = (pl_workers s)[t := w]"
    and "pl_workers s ! t \<noteq> Draining"
    and "w = Draining \<longrightarrow> swept (qs_threads (pl_queue s') ! t) (qs_tsq (pl_queue s'))"
    and "pool_inv s'" and "drained_inv e s"
  shows "drained_inv e s'"
proof -
  let ?k = "length (ts_queues (qs_tsq (pl_queue s)))"
  from assms(6) have "threads_wf (pl_queue s)" "sealed (pl_queue s)" "e < length (qs_threads (pl_queue s))"
    by (auto simp: drained_inv_def pool_inv_def)
  note sealed = sealed_act [OF assms(1) this(1,2), of ?k e]
  show ?thesis
  proof (cases "t = e")
    case True
    with sealed assms(2-6) show ?thesis by (auto simp: drained_inv_def emptied_def)
  next
    case False
    then have "pl_workers s' ! e = pl_workers s ! e" by (simp add: assms(2))
    with sealed assms(2,5,6) show ?thesis
      by (auto simp: drained_inv_def emptied_def pool_inv_def split: if_splits)
  qed
qed

lemma drained_inv_worker:
  assumes "worker_go t (pl_workers s ! t) (qs_threads (pl_queue s) ! t) s = Some s'"
    and "t < length (pl_workers s)" and "pool_inv s'" and "drained_inv e s"
  shows "drained_inv e s'"
proof -
  let ?w = "pl_workers s ! t" and ?p = "qs_threads (pl_queue s) ! t"
  note stay = drained_inv_stay [OF _ _ _ _ assms(3,4)]
  show ?thesis
  proof (cases "(t, ?w, ?p, s)" rule: worker_go.cases)
    case (1 t' x p s'')
    then have w: "?w = Polling x" by auto
    show ?thesis
    proof (cases "t \<in> pl_halted s")
      case True
      with assms(1) w obtain q where q: "qsys_act (CallEject t) (pl_queue s) = Some q"
        and s': "s' = set_worker t Draining (s\<lparr>pl_queue := q\<rparr>)"
        by (auto simp: queue_call_eq simp del: qsys_act.simps)
      from q have "swept (qs_threads q ! t) (qs_tsq q)" by (auto simp: start_call_eq)
      with q w s' drained_inv_enter [OF _ _ _ _ assms(3,4), of "CallEject t" t Draining] show ?thesis
        by (simp del: qsys_act.simps)
    next
      case False
      with assms(1) w obtain q where q: "qsys_act (CallPop t x) (pl_queue s) = Some q"
        and s': "s' = set_worker t Popping (s\<lparr>pl_queue := q\<rparr>)"
        by (auto simp: queue_call_eq simp del: qsys_act.simps)
      with w drained_inv_enter [OF _ _ _ _ assms(3,4), of "CallPop t x" t Popping] show ?thesis
        by (simp del: qsys_act.simps)
    qed
  next
    case (2 t' x s'')
    with assms(1) show ?thesis by (auto intro!: stay [of t "Calling x"])
  next
    case (3 t' x s'')
    with assms(1) show ?thesis by (auto intro!: stay [of t "Polling x"])
  next
    case (4 t' x p s'')
    with assms(1) show ?thesis by (auto split: if_splits intro!: stay [of t "Polling (Some x)"])
  next
    case (5 t' xs s'')
    with assms(1) show ?thesis by (auto intro!: stay [of t "Drained xs"])
  next
    case (6 t' p s'')
    with assms(1) show ?thesis by (auto intro!: stay [of t WorkerReturned])
  next
    case (7 t' x xs p s'')
    with assms(1) show ?thesis by (auto intro!: stay [of t "CallingDrained x xs"])
  next
    case (8 t' x xs p s'')
    with assms(1) show ?thesis by (auto split: if_splits intro!: stay [of t "Drained xs"])
  qed (use assms(1) in auto)
qed

lemma drained_inv_step:
  assumes "pool_act a s = Some s'" and "drained_inv e s"
  shows "drained_inv e s'"
proof -
  have inv: "pool_inv s'" using pool_inv_step [OF assms(1)] assms(2) by (simp add: drained_inv_def)
  show ?thesis
  proof (cases a)
    case (Worker t)
    with assms drained_inv_worker [OF _ _ inv] show ?thesis by (auto split: if_splits)
  next
    case (Halt t)
    with assms inv show ?thesis by (auto simp: drained_inv_def emptied_def)
  qed (use assms drained_inv_queue [OF _ _ inv assms(2)] in
      \<open>auto simp: queue_call_eq simp del: qsys_act.simps split: if_splits\<close>)
qed

lemma drained_inv_start: "drain_begins e s \<Longrightarrow> drained_inv e s"
proof -
  assume start: "drain_begins e s"
  then have r: "reach pool_init pool_step s" by (simp add: drain_begins_def)
  have inv: "pool_inv s" using r by (rule work.inv_reach)
  have wf: "threads_wf (pl_queue s)" using pool.reach_abs [OF r] qsys.inv_reach by (auto simp: qs_inv_def)
  from start obtain xs where e: "e < length (pl_workers s)" "qs_threads (pl_queue s) ! e = EjectLock 0 xs"
    by (auto simp: drain_begins_def)
  with fits_at [OF inv e(1)] have "pl_workers s ! e = Draining" by (cases "pl_workers s ! e") auto
  with start inv wf e show ?thesis by (simp add: drained_inv_def emptied_def drain_begins_def empty_below_def)
qed

interpretation drained: invariant_system "drain_begins e" pool_step "drained_inv e" for e
  by unfold_locales (auto simp: step_of_def [of pool_act] intro: drained_inv_start drained_inv_step)

section \<open>Properties\<close>

text \<open>Nobody is inside a thunk or a call: the workers have returned, the others do not post.\<close>

definition at_end :: "'a pool \<Rightarrow> bool" where
  "at_end s \<longleftrightarrow> list_all (\<lambda>w. w = WorkerReturned \<or> w = External) (pl_workers s) \<and>
     list_all (\<lambda>p. \<not> calling p) (qs_threads (pl_queue s))"

lemma at_end_balance:
  assumes "reach pool_init pool_step s" and "at_end s"
  shows "qs_accepted (pl_queue s) = mset (pl_ran s) + tsq_bag (qs_tsq (pl_queue s))"
proof -
  have inv: "pool_inv s" using assms(1) by (rule work.inv_reach)
  have q: "qs_inv (pl_queue s)" using pool.reach_abs [OF assms(1)] by (rule qsys.inv_reach)
  have "holding wp = {#}" if "wp \<in> set (pool_threads s)" for wp
    using assms(2) that by (cases wp) (auto simp: at_end_def list_all_iff dest!: set_zip_leftD)
  then have "sum_list (map holding (pool_threads s)) = {#}" by (rule sum_list_empty)
  moreover have "sum_list (map carried (qs_threads (pl_queue s))) = {#}"
    "sum_list (map emplaced (qs_threads (pl_queue s))) = {#}"
    by (rule sum_list_empty; use assms(2) idle_inert in \<open>auto simp: at_end_def list_all_iff\<close>)+
  ultimately show ?thesis
    using inv q by (simp add: pool_inv_def qs_inv_def thunks_balanced_def add.commute)
qed

lemma ran_accepted:
  assumes "reach pool_init pool_step s"
  shows "mset (pl_ran s) \<subseteq># qs_accepted (pl_queue s) + sum_list (map emplaced (qs_threads (pl_queue s)))"
proof -
  have inv: "pool_inv s" using assms by (rule work.inv_reach)
  have "qs_inv (pl_queue s)" using pool.reach_abs [OF assms] by (rule qsys.inv_reach)
  then have "qs_delivered (pl_queue s) \<subseteq>#
      qs_accepted (pl_queue s) + sum_list (map emplaced (qs_threads (pl_queue s)))"
    by (metis mset_subset_eq_add_right qs_inv_def thunks_balanced_def)
  moreover have "mset (pl_ran s) \<subseteq># qs_delivered (pl_queue s)" using inv by (simp add: pool_inv_def)
  ultimately show ?thesis by (meson subset_mset.order_trans)
qed

text \<open>A context with one worker, and one other thread, for concrete runs.\<close>

lemma start_pool_one:
  "start_pool 1 1 =
     \<lparr>pl_queue = \<lparr>qs_tsq = make_tsq 2, qs_threads = [TIdle, TIdle], qs_accepted = {#}, qs_delivered = {#}\<rparr>,
      pl_workers = [Polling None, External], pl_halted = {}, pl_ran = []\<rparr>"
  by (simp add: start_pool_def start_qsys_def replicate_two)

lemmas pool_simps = start_pool_one [unfolded One_nat_def] queue_call_def set_worker_def run_now_def run_simps

lemma run_pool:
  assumes "run_acts pool_act acts (start_pool n k) = Some s" and "n + 1 \<noteq> 0"
  shows "reach pool_init pool_step s"
  by (rule run_acts_reach [OF assms(1)], rule reach_init) (use assms(2) in \<open>auto simp: pool_init_def\<close>)

text \<open>
  C7. Every thunk that was accepted is called once: whatever the number of workers and of other
  threads, whatever the thunks and events post, and however the threads are scheduled, no
  thunk is called that was not posted, none is called more often than its post was accepted
  (or is about to be), and when all workers have returned and nobody posts any more the
  thunks called are exactly those accepted, except for what is left in the queues.
\<close>

theorem accepted_thunks_called_once:
  assumes "reach pool_init pool_step s"
  shows "mset (pl_ran s) \<subseteq># qs_accepted (pl_queue s) + sum_list (map emplaced (qs_threads (pl_queue s))) \<and>
    (at_end s \<longrightarrow> qs_accepted (pl_queue s) = mset (pl_ran s) + tsq_bag (qs_tsq (pl_queue s)))"
  using ran_accepted [OF assms] at_end_balance [OF assms] by blast

lemma accepted_thunks_called_once_witness:
  "\<exists>s :: nat pool. reach pool_init pool_step s \<and> at_end s \<and> pl_ran s = [5] \<and>
     qs_accepted (pl_queue s) = mset (pl_ran s) + tsq_bag (qs_tsq (pl_queue s))"
proof -
  let ?acts = "Post 1 5 # [Inside 1, Inside 1, Inside 1, Inside 1, Inside 1, Inside 1,
    Inside 1] @ [Worker 0] @ [Inside 0, Inside 0, Inside 0, Inside 0] @ [Worker 0, Worker 0,
    Halt 0, Worker 0] @
    [Inside 0, Inside 0, Inside 0, Inside 0, Inside 0, Inside 0, Inside 0, Inside 0, Inside 0] @ [Worker 0, Worker 0]"
  obtain s where run: "run_acts pool_act ?acts (start_pool 1 1 :: nat pool) = Some s"
    and s: "pl_ran s = [5]" "at_end s"
    by (simp add: pool_simps at_end_def)
  have r: "reach pool_init pool_step s" by (rule run_pool [OF run]) simp
  from accepted_thunks_called_once [OF r] r s show ?thesis by blast
qed

text \<open>
  C8. When nothing is left behind: if some worker begins its round over the queues, in
  \<open>stop_and_eject\<close>, at a moment when no post is between its check of \<open>is_done_\<close> and its
  insertion, then when all workers have returned every thunk ever accepted has been called
  exactly once, and every later post is refused.
\<close>

theorem all_accepted_thunks_called:
  assumes "reach pool_init pool_step s0" and "sealed (pl_queue s0)"
    and "e < length (pl_workers s0)" and "qs_threads (pl_queue s0) ! e = EjectLock 0 xs"
    and "reach (\<lambda>s. s = s0) pool_step s" and "at_end s"
  shows "mset (pl_ran s) = qs_accepted (pl_queue s) \<and>
    tsq_push th (qs_tsq (pl_queue s)) = Some (False, qs_tsq (pl_queue s))"
proof -
  have "drain_begins e s0" using assms(1-4) by (auto simp: drain_begins_def)
  then have "reach (drain_begins e) pool_step s"
    using reach_weaken_init [OF assms(5)] by blast
  then have inv: "drained_inv e s" by (rule drained.inv_reach)
  then have "pl_workers s ! e \<noteq> Draining" using assms(6) by (auto simp: drained_inv_def at_end_def list_all_length)
  with inv have "\<forall>q \<in> set (ts_queues (qs_tsq (pl_queue s))). olq_queue q = []"
    by (auto simp: drained_inv_def emptied_def empty_below_def in_set_conv_nth)
  then have "tsq_bag (qs_tsq (pl_queue s)) = {#}" by (simp add: tsq_bag_def)
  moreover have r: "reach pool_init pool_step s"
    using assms(5,1) by (induction rule: reach.induct) (auto intro: reach_step)
  moreover have "ts_is_done (qs_tsq (pl_queue s))" using inv by (simp add: drained_inv_def sealed_def)
  ultimately show ?thesis using at_end_balance [OF r assms(6)] by (simp add: tsq_push_done)
qed

lemma all_accepted_thunks_called_witness:
  "\<exists>s :: nat pool. reach pool_init pool_step s \<and> pl_ran s = [5] \<and> mset (pl_ran s) = qs_accepted (pl_queue s)"
proof -
  let ?a0 = "Post 1 5 # [Inside 1, Inside 1, Inside 1, Inside 1, Inside 1, Inside 1, Inside 1] @ [Halt 0, Worker 0] @ [Inside 0]"
  let ?a1 = "[Inside 0, Inside 0, Inside 0, Inside 0, Inside 0, Inside 0, Inside 0, Inside 0] @ [Worker 0, Worker 0, Worker 0, Worker 0]"
  obtain s0 where run0: "run_acts pool_act ?a0 (start_pool 1 1 :: nat pool) = Some s0"
    and s0: "sealed (pl_queue s0)" "0 < length (pl_workers s0)" "qs_threads (pl_queue s0) ! 0 = EjectLock 0 []"
    and run1: "\<exists>s. run_acts pool_act ?a1 s0 = Some s \<and> at_end s \<and> pl_ran s = [5]"
    by (simp add: pool_simps at_end_def sealed_def)
  from run1 obtain s where s: "run_acts pool_act ?a1 s0 = Some s" "at_end s" "pl_ran s = [5]" by blast
  have r0: "reach pool_init pool_step s0" by (rule run_pool [OF run0]) simp
  have "reach (\<lambda>u. u = s0) pool_step s" by (rule run_acts_reach [OF s(1)]) (simp add: reach_init)
  from all_accepted_thunks_called [OF r0 s0 this s(2)] run_acts_reach [OF s(1) r0] s(3)
  show ?thesis by blast
qed

text \<open>
  C21. Without that condition a thunk is lost: a context with one worker has a run in which a post
  of another thread passes the check of \<open>is_done_\<close>, the worker goes over the queues, the post
  inserts its thunk and returns true, and the worker loads a push counter of 0 and returns.
  The thunk is accepted, every thread is done, nothing has been called, and nothing ever
  will.
\<close>

theorem accepted_thunk_never_called:
  "\<exists>s. reach pool_init pool_step s \<and> pl_workers s = [WorkerReturned, External] \<and>
     qs_threads (pl_queue s) ! 1 = Returned (RPush thunk True) \<and>
     qs_accepted (pl_queue s) = {#thunk#} \<and> pl_ran s = [] \<and>
     tsq_bag (qs_tsq (pl_queue s)) = {#thunk#} \<and> ts_is_done (qs_tsq (pl_queue s))"
proof -
  let ?acts = "Post 1 thunk # [Inside 1, Inside 1] @ [Halt 0, Worker 0] @ [Inside 0, Inside 0,
    Inside 0, Inside 0, Inside 0, Inside 0, Inside 0, Inside 0] @ [Inside 1, Inside 1, Inside 1,
    Inside 1, Inside 1] @ [Inside 0] @
    [Worker 0, Worker 0]"
  obtain s where run: "run_acts pool_act ?acts (start_pool 1 1) = Some s"
    and s: "pl_workers s = [WorkerReturned, External]"
      "qs_threads (pl_queue s) ! 1 = Returned (RPush thunk True)"
      "qs_accepted (pl_queue s) = {#thunk#}" "pl_ran s = []"
      "tsq_bag (qs_tsq (pl_queue s)) = {#thunk#}" "ts_is_done (qs_tsq (pl_queue s))"
    by (simp add: pool_simps tsq_bag_def)
  have "reach pool_init pool_step s" by (rule run_pool [OF run]) simp
  with s show ?thesis by blast
qed

end
