(* ===== verification/Execution_Rounds.thy ===== *)
theory Execution_Rounds
  imports Execution_Stop
begin

text \<open>
  The round of a worker over the completion queues, \<open>run_completion_queues\<close> in
  \<open>run_one_thread_\<close> of \<open>sgrpc/execution_context.cpp\<close>, one call of a queue per step, so that
  other threads may act in between; and the contract of a \<open>grpc::CompletionQueue\<close>, the locale
  \<open>completion_queue\<close>. The counters and the order of the visits are those of
  \<open>Execution_Worker\<close>; run without interference the steps do what \<open>worker_round\<close> does.
\<close>

section \<open>The contract of a completion queue\<close>

text \<open>
  What grpc documents: an event that was attached is handed out once, a queue reports
  \<open>SHUTDOWN\<close> only when it was shut down and everything attached to it was handed out, and
  shutting down loses nothing.
\<close>

locale completion_queue =
  fixes api :: "('e, 'cq) cq_api"
    and contents :: "'cq \<Rightarrow> 'e multiset"
    and halted :: "'cq \<Rightarrow> bool"
  assumes next_event: "cq_async_next api q = (GOT_EVENT e ok, q') \<Longrightarrow> contents q = add_mset e (contents q')"
    and next_timeout: "cq_async_next api q = (TIMEOUT, q') \<Longrightarrow> contents q' = contents q"
    and next_shutdown: "cq_async_next api q = (SHUTDOWN, q') \<Longrightarrow>
      halted q \<and> contents q = {#} \<and> contents q' = {#}"
    and next_halted: "cq_async_next api q = (status, q') \<Longrightarrow> halted q' = halted q"
    and shutdown_halts: "halted (cq_shutdown api q)"
    and shutdown_keeps: "contents (cq_shutdown api q) = contents q"
    and alarm_attaches: "contents (cq_set_alarm api t e q) = add_mset e (contents q)"
    and alarm_halted: "halted (cq_set_alarm api t e q) = halted q"
begin

lemma next_shrinks: "cq_async_next api q = (status, q') \<Longrightarrow> contents q' \<subseteq># contents q"
  using next_event next_timeout next_shutdown by (cases status) fastforce+

lemma empty_stays: "cq_async_next api q = (status, q') \<Longrightarrow> contents q = {#} \<Longrightarrow> contents q' = {#}"
  using next_shrinks by fastforce

lemma empty_no_event: "contents q = {#} \<Longrightarrow> cq_async_next api q \<noteq> (GOT_EVENT e ok, q')"
  using next_event by fastforce

end

interpretation fifo: completion_queue fifo_cq "\<lambda>(shut, es). mset es" "\<lambda>(shut, es). shut"
  by unfold_locales (auto simp: fifo_cq_def split: list.splits if_splits prod.splits)

text \<open>What a post does to the queue it picks: it attaches one event.\<close>

definition attaches :: "('cq \<Rightarrow> 'e multiset) \<Rightarrow> ('cq \<Rightarrow> bool) \<Rightarrow> ('cq \<Rightarrow> 'cq) \<Rightarrow> bool" where
  "attaches contents halted f \<longleftrightarrow>
     (\<exists>e. \<forall>q. contents (f q) = add_mset e (contents q) \<and> halted (f q) = halted q)"

context completion_queue
begin

lemma alarm_is_attached: "attaches contents halted (cq_set_alarm api t e)"
  by (auto simp: attaches_def alarm_attaches alarm_halted)

end

section \<open>One call per step\<close>

text \<open>
  Where a worker is in its round: at the predicate, at the head of the loop over a group (its
  number, \<open>i\<close>, \<open>current_count\<close> and the counters), in \<open>complete\<close> of an event, or through with
  the groups, with whether it is to leave its loop.
\<close>

datatype 'e round_pc =
    AtPredicate
  | AtLoop nat nat u32 cq_counts
  | Completing 'e bool nat nat u32 cq_counts
  | RoundOver bool

definition no_counts :: cq_counts where
  "no_counts = \<lparr>things_executed = 0, shutdown_cqs = 0, total_cqs = 0\<rparr>"

text \<open>Begin \<open>run_completion_queues\<close> on the next group, or compare the counters after the last.\<close>

definition enter_group :: "nat \<Rightarrow> cq_counts \<Rightarrow> ('t, 'd, 'cq) exec_context \<Rightarrow> 'e round_pc" where
  "enter_group g k c =
     (if g < length (queue_groups c)
      then (let k1 = k\<lparr>total_cqs := total_cqs k + of_nat (length (queue_groups c ! g))\<rparr>
            in AtLoop g 0 (things_executed k1) k1)
      else RoundOver (shutdown_cqs k = total_cqs k))"

fun round_go :: "('e, 'cq) cq_api \<Rightarrow> u32 \<Rightarrow> 'e round_pc \<Rightarrow> ('t, 'd, 'cq) exec_context
    \<Rightarrow> 'e round_pc \<times> ('t, 'd, 'cq) exec_context" where
  "round_go api tn AtPredicate c = (enter_group 0 no_counts c, c)"
| "round_go api tn (AtLoop g i current k) c =
     (let ps = queue_groups c ! g; p = ps ! visit_index tn (length ps) i
      in if i < length ps \<and> current = things_executed k
         then (case cq_async_next api (queue_at p c) of
                 (status, cq) \<Rightarrow>
                   (case status of
                      SHUTDOWN \<Rightarrow> AtLoop g (i + 1) current (count_result ShutdownRequested k)
                    | GOT_EVENT tag is_ok \<Rightarrow> Completing tag is_ok g i current k
                    | TIMEOUT \<Rightarrow> AtLoop g (i + 1) current (count_result ExecutedNone k),
                    set_queue_at p cq c))
         else (enter_group (g + 1) k c, c))"
| "round_go api tn (Completing tag is_ok g i current k) c =
     (AtLoop g (i + 1) current (count_result ExecutedOne k), c)"
| "round_go api tn (RoundOver leave) c = (RoundOver leave, c)"

text \<open>The place that a step polls.\<close>

fun polls :: "u32 \<Rightarrow> 'e round_pc \<Rightarrow> ('t, 'd, 'cq) exec_context \<Rightarrow> cq_place option" where
  "polls tn (AtLoop g i current k) c =
     (let ps = queue_groups c ! g
      in if i < length ps \<and> current = things_executed k then Some (ps ! visit_index tn (length ps) i) else None)"
| "polls tn pc c = None"

section \<open>What a round has seen\<close>

text \<open>
  Of the places visited so far, \<open>m\<close> reported their shutdown; if all did, all of them have the
  property \<open>seen\<close> that a report of \<open>SHUTDOWN\<close> establishes.
\<close>

definition counted :: "(cq_place \<Rightarrow> bool) \<Rightarrow> cq_counts \<Rightarrow> cq_place list \<Rightarrow> bool" where
  "counted seen k ps \<longleftrightarrow>
     (\<exists>m \<le> length ps. shutdown_cqs k = of_nat m \<and> (m = length ps \<longrightarrow> (\<forall>p \<in> set ps. seen p)))"

definition visited :: "u32 \<Rightarrow> cq_place list list \<Rightarrow> nat \<Rightarrow> nat \<Rightarrow> cq_place list" where
  "visited tn gs g i = concat (take g gs) @ take i (visits tn (gs ! g) 0)"

fun round_ok :: "(cq_place \<Rightarrow> bool) \<Rightarrow> u32 \<Rightarrow> cq_place list list \<Rightarrow> 'e round_pc \<Rightarrow> bool" where
  "round_ok seen tn gs AtPredicate = True"
| "round_ok seen tn gs (AtLoop g i current k) =
     (g < length gs \<and> i \<le> length (gs ! g) \<and> total_cqs k = of_nat (length (concat (take (Suc g) gs))) \<and>
      counted seen k (visited tn gs g i))"
| "round_ok seen tn gs (Completing tag is_ok g i current k) =
     (g < length gs \<and> i < length (gs ! g) \<and> total_cqs k = of_nat (length (concat (take (Suc g) gs))) \<and>
      counted seen k (visited tn gs g i))"
| "round_ok seen tn gs (RoundOver leave) = (leave \<longrightarrow> (\<forall>p \<in> set (concat gs). seen p))"

lemma counted_mono: "counted seen k ps \<Longrightarrow> (\<And>p. seen p \<Longrightarrow> seen' p) \<Longrightarrow> counted seen' k ps"
  unfolding counted_def by blast

lemma counted_seen:
  assumes "counted seen k ps" and "seen p"
  shows "counted seen (count_result ShutdownRequested k) (ps @ [p])"
proof -
  from assms(1) obtain m where "m \<le> length ps" "shutdown_cqs k = of_nat m" "m = length ps \<longrightarrow> (\<forall>p \<in> set ps. seen p)"
    by (auto simp: counted_def)
  with assms(2) show ?thesis unfolding counted_def by (intro exI [of _ "Suc m"]) auto
qed

text \<open>A longer list of visits without a further report.\<close>

lemma counted_more: "counted seen k ps \<Longrightarrow> length ps < length qs \<Longrightarrow> counted seen k qs"
  unfolding counted_def by (metis leD le_trans order_less_imp_le)

lemma counted_things: "counted seen (k\<lparr>things_executed := n\<rparr>) ps = counted seen k ps"
  "counted seen (k\<lparr>total_cqs := n\<rparr>) ps = counted seen k ps"
  by (simp_all add: counted_def)

lemma length_visits [simp]: "length (visits tn ps 0) = length ps"
  by (simp add: visits_def)

lemma nth_visits: "i < length ps \<Longrightarrow> visits tn ps 0 ! i = ps ! visit_index tn (length ps) i"
  by (simp add: visits_def)

lemma visited_Suc:
  "i < length (gs ! g) \<Longrightarrow>
     visited tn gs g (Suc i) = visited tn gs g i @ [gs ! g ! visit_index tn (length (gs ! g)) i]"
  by (simp add: visited_def take_Suc_conv_app_nth nth_visits)

lemma visited_mset_all:
  assumes "unat tn + length (gs ! g) \<le> 2 ^ 32" and "g < length gs"
  shows "length (visited tn gs g (length (gs ! g))) = length (concat (take (Suc g) gs)) \<and>
    set (visited tn gs g (length (gs ! g))) = set (concat (take (Suc g) gs))"
  using assms by (simp add: visited_def visits_rotate take_Suc_conv_app_nth)

text \<open>Leaving a group, after its last visit or because something ran.\<close>

lemma counted_leave:
  assumes "counted seen k (visited tn gs g i)" and "i \<le> length (gs ! g)" and "g < length gs"
    and "unat tn + length (gs ! g) \<le> 2 ^ 32"
  shows "counted seen k (concat (take (Suc g) gs))"
proof (cases "i = length (gs ! g)")
  case True
  with assms(1) visited_mset_all [OF assms(4,3)] show ?thesis by (simp add: counted_def)
next
  case False
  with assms(2,3) have "length (visited tn gs g i) < length (concat (take (Suc g) gs))"
    by (simp add: visited_def take_Suc_conv_app_nth)
  with assms(1) show ?thesis by (rule counted_more)
qed

lemma length_concat_take: "length (concat (take g gs)) \<le> length (concat gs)"
  by (metis append_take_drop_id concat_append le_add1 length_append)

lemma round_ok_enter:
  assumes "counted seen k (concat (take g gs))" and "total_cqs k = of_nat (length (concat (take g gs)))"
    and "g \<le> length gs" and "gs = queue_groups c" and "length (concat gs) < 2 ^ 32"
  shows "round_ok seen tn gs (enter_group g k c)"
proof (cases "g < length gs")
  case True
  with assms show ?thesis
    by (simp add: enter_group_def Let_def take_Suc_conv_app_nth counted_things visited_def)
next
  case False
  with assms(3) have g: "take g gs = gs" by simp
  from assms(1) g obtain m where m: "m \<le> length (concat gs)" "shutdown_cqs k = of_nat m"
    "m = length (concat gs) \<longrightarrow> (\<forall>p \<in> set (concat gs). seen p)" by (auto simp: counted_def)
  have "shutdown_cqs k = total_cqs k \<longleftrightarrow> m = length (concat gs)"
    using m(1,2) assms(2,5) g by (simp add: unsigned_counts_eq)
  with m(3) False assms(4) show ?thesis by (simp add: enter_group_def)
qed

lemma counted_none: "counted seen no_counts []" "total_cqs no_counts = 0"
  by (simp_all add: counted_def no_counts_def)

lemma round_ok_mono: "round_ok seen tn gs pc \<Longrightarrow> (\<And>p. seen p \<Longrightarrow> seen' p) \<Longrightarrow> round_ok seen' tn gs pc"
  by (cases pc) (auto intro: counted_mono)

text \<open>A step keeps what was seen, and adds what it sees.\<close>

lemma round_ok_go:
  assumes "round_go api tn pc c = (pc', c')" and "round_ok seen tn gs pc" and "gs = queue_groups c"
    and "sizes_fit tn gs" and "\<And>p. polls tn pc c = Some p \<Longrightarrow> fst (cq_async_next api (queue_at p c)) = SHUTDOWN \<Longrightarrow> seen p"
  shows "round_ok seen tn gs pc'"
proof (cases pc)
  case AtPredicate
  with assms show ?thesis
    by (auto simp: counted_none sizes_fit_def intro!: round_ok_enter)
next
  case (AtLoop g i current k)
  with assms(2) have ok: "g < length gs" "i \<le> length (gs ! g)" "counted seen k (visited tn gs g i)"
    "total_cqs k = of_nat (length (concat (take (Suc g) gs)))" by auto
  have fit: "unat tn + length (gs ! g) \<le> 2 ^ 32" "length (concat gs) < 2 ^ 32"
    using assms(4) ok(1) by (auto simp: sizes_fit_def)
  let ?p = "gs ! g ! visit_index tn (length (gs ! g)) i"
  show ?thesis
  proof (cases "i < length (gs ! g) \<and> current = things_executed k")
    case False
    then have "pc' = enter_group (Suc g) k c" using assms(1,3) AtLoop by (auto simp: Let_def)
    with counted_leave [OF ok(3,2,1) fit(1)] ok fit(2) assms(3) show ?thesis
      by (auto intro!: round_ok_enter)
  next
    case True
    then have more: "counted seen k (visited tn gs g (Suc i))"
      by (intro counted_more [OF ok(3)]) (simp add: visited_Suc)
    obtain status cq where next1: "cq_async_next api (queue_at ?p c) = (status, cq)" by fastforce
    have saw: "counted seen (count_result ShutdownRequested k) (visited tn gs g (Suc i))" if "status = SHUTDOWN"
    proof -
      have "seen ?p" by (rule assms(5)) (use True AtLoop assms(3) that next1 in \<open>auto simp: Let_def\<close>)
      with True counted_seen [OF ok(3)] show ?thesis by (simp add: visited_Suc)
    qed
    have "pc' = (case status of
        SHUTDOWN \<Rightarrow> AtLoop g (i + 1) current (count_result ShutdownRequested k)
      | GOT_EVENT tag is_ok \<Rightarrow> Completing tag is_ok g i current k
      | TIMEOUT \<Rightarrow> AtLoop g (i + 1) current (count_result ExecutedNone k))"
      using assms(1,3) AtLoop True next1 by (auto simp: Let_def)
    with ok True more saw show ?thesis by (auto split: next_status.splits)
  qed
next
  case (Completing tag is_ok g i current k)
  with assms(1,2) have "counted seen k (visited tn gs g (Suc i))"
    by (auto intro!: counted_more [of seen k "visited tn gs g i"] simp: visited_Suc)
  with Completing assms(1,2) show ?thesis by (auto simp: counted_things)
next
  case (RoundOver leave)
  with assms(1,2) show ?thesis by auto
qed

text \<open>A step polls at most one queue of the context and changes nothing else of it.\<close>

lemma polls_place:
  assumes "polls tn pc c = Some p" and "round_ok seen tn (queue_groups c) pc"
  shows "p \<in> set (queue_places c)"
proof -
  from assms obtain g i current k where pc: "pc = AtLoop g i current k" "g < length (queue_groups c)"
    "i < length (queue_groups c ! g)"
    and p: "p = queue_groups c ! g ! visit_index tn (length (queue_groups c ! g)) i"
    by (cases pc) (auto simp: Let_def split: if_splits)
  then have "visit_index tn (length (queue_groups c ! g)) i < length (queue_groups c ! g)"
    unfolding visit_index_def by (intro mod_less_divisor) auto
  with pc(2) p show ?thesis unfolding queue_places_def by (auto intro!: bexI [of _ "queue_groups c ! g"])
qed

lemma enter_group_pc: "enter_group g k c \<noteq> Completing e ok g' i current k'" "enter_group g k c \<noteq> AtPredicate"
  by (simp_all add: enter_group_def Let_def)

lemma round_go_effect:
  assumes "round_go api tn pc c = (pc', c')" and "pc \<noteq> AtPredicate"
  shows "case polls tn pc c of
      None \<Rightarrow> c' = c \<and> (\<forall>e ok g i current k. pc' \<noteq> Completing e ok g i current k)
    | Some p \<Rightarrow> (\<exists>status cq. cq_async_next api (queue_at p c) = (status, cq) \<and> c' = set_queue_at p cq c \<and>
        (\<forall>e. (\<exists>ok g i current k. pc' = Completing e ok g i current k) \<longleftrightarrow> (\<exists>ok. status = GOT_EVENT e ok)))"
  using assms
  by (cases pc) (auto simp: Let_def enter_group_pc split: if_splits prod.splits next_status.splits)

section \<open>The steps without interference\<close>

text \<open>The rounds of one worker alone, with the code of the users run at \<open>complete\<close>.\<close>

fun round_alone ::
  "(('d, 'r) cq_event, 'cq) cq_api \<Rightarrow> ('t, 'd, 'r, 'cq) user_code \<Rightarrow> u32
     \<Rightarrow> ('d, 'r) cq_event round_pc \<times> ('t, 'd, 'cq) exec_context
     \<Rightarrow> ('d, 'r) cq_event round_pc \<times> ('t, 'd, 'cq) exec_context" where
  "round_alone api user tn (Completing tag is_ok g i current k, c) =
     round_go api tn (Completing tag is_ok g i current k) (complete_event user tag is_ok c)"
| "round_alone api user tn (pc, c) = round_go api tn pc c"

definition alone ::
  "(('d, 'r) cq_event, 'cq) cq_api \<Rightarrow> ('t, 'd, 'r, 'cq) user_code \<Rightarrow> u32
     \<Rightarrow> ('d, 'r) cq_event round_pc \<times> ('t, 'd, 'cq) exec_context
     \<Rightarrow> ('d, 'r) cq_event round_pc \<times> ('t, 'd, 'cq) exec_context \<Rightarrow> bool" where
  "alone api user tn s s' \<longleftrightarrow> (\<exists>n. (round_alone api user tn ^^ n) s = s')"

definition keeps_groups :: "('t, 'd, 'r, 'cq) user_code \<Rightarrow> bool" where
  "keeps_groups user \<longleftrightarrow> (\<forall>e ok c. queue_groups (complete_event user e ok c) = queue_groups c)"

lemma alone_refl: "alone api user tn s s"
  unfolding alone_def by (rule exI [of _ 0]) simp

lemma alone_step: "alone api user tn (round_alone api user tn s) s' \<Longrightarrow> alone api user tn s s'"
proof -
  assume "alone api user tn (round_alone api user tn s) s'"
  then obtain n where "(round_alone api user tn ^^ n) (round_alone api user tn s) = s'" by (auto simp: alone_def)
  then show ?thesis unfolding alone_def by (intro exI [of _ "Suc n"]) (simp add: funpow_swap1)
qed

lemma alone_trans: "alone api user tn s s' \<Longrightarrow> alone api user tn s' s'' \<Longrightarrow> alone api user tn s s''"
  unfolding alone_def by (metis comp_apply funpow_add)

lemma visit_in_places:
  "g < length (queue_groups c) \<Longrightarrow> i < length (queue_groups c ! g) \<Longrightarrow>
     queue_groups c ! g ! visit_index tn (length (queue_groups c ! g)) i \<in> set (queue_places c)"
  unfolding queue_places_def
  by (auto simp: visit_index_def intro!: bexI [of _ "queue_groups c ! g"] nth_mem mod_less_divisor)

lemma execute_cq_groups:
  assumes "execute_cq api user p c = (r, c')" and "p \<in> set (queue_places c)" and "keeps_groups user"
  shows "queue_groups c' = queue_groups c"
  using assms
  by (auto simp: execute_cq_def Let_def keeps_groups_def set_queue_at_groups split: prod.splits next_status.splits)

text \<open>One call of \<open>execute_cq_\<close> is one step, or two with the completion of an event.\<close>

lemma alone_visit:
  assumes "i < length (queue_groups c ! g)" and "current = things_executed k"
    and "execute_cq api user (queue_groups c ! g ! visit_index tn (length (queue_groups c ! g)) i) c = (r, c')"
  shows "alone api user tn (AtLoop g i current k, c) (AtLoop g (i + 1) current (count_result r k), c')"
proof -
  let ?p = "queue_groups c ! g ! visit_index tn (length (queue_groups c ! g)) i"
  obtain status cq where n: "cq_async_next api (queue_at ?p c) = (status, cq)" by fastforce
  show ?thesis
  proof (cases status)
    case (GOT_EVENT tag is_ok)
    with n assms have "round_alone api user tn (AtLoop g i current k, c) =
        (Completing tag is_ok g i current k, set_queue_at ?p cq c)" "r = ExecutedOne"
      "c' = complete_event user tag is_ok (set_queue_at ?p cq c)"
      by (simp_all add: Let_def execute_cq_def)
    moreover have "alone api user tn (Completing tag is_ok g i current k, set_queue_at ?p cq c)
        (AtLoop g (i + 1) current (count_result ExecutedOne k), complete_event user tag is_ok (set_queue_at ?p cq c))"
      by (rule alone_step) (simp add: alone_refl)
    ultimately show ?thesis by (intro alone_step [of _ _ _ "(AtLoop g i current k, c)"]) simp
  qed (rule alone_step, use n assms in \<open>simp add: Let_def execute_cq_def alone_refl\<close>)+
qed

lemma alone_loop:
  assumes "run_cqs_loop api user tn ps current i k c = (k', c')" and "keeps_groups user"
    and "ps = queue_groups c ! g" and "g < length (queue_groups c)"
  shows "alone api user tn (AtLoop g i current k, c) (enter_group (g + 1) k' c', c') \<and>
    queue_groups c' = queue_groups c"
  using assms
proof (induction api user tn ps current i k c rule: run_cqs_loop.induct)
  case (1 api user tn ps current i k c)
  show ?case
  proof (cases "i < length ps \<and> current = things_executed k")
    case False
    then have "run_cqs_loop api user tn ps current i k c = (k, c)" by (subst run_cqs_loop.simps) (simp only: if_False)
    moreover have "round_alone api user tn (AtLoop g i current k, c) = (enter_group (g + 1) k c, c)"
      using False "1.prems"(3) by (auto simp: Let_def)
    ultimately show ?thesis
      using "1.prems"(1) alone_step [of api user tn "(AtLoop g i current k, c)"] alone_refl [of api user tn]
      by (metis prod.inject)
  next
    case True
    obtain r c1 where ex: "execute_cq api user (ps ! visit_index tn (length ps) i) c = (r, c1)" by fastforce
    have visit: "alone api user tn (AtLoop g i current k, c) (AtLoop g (i + 1) current (count_result r k), c1)"
      using alone_visit [of i c g current k api user tn r c1] True ex "1.prems"(3) by simp
    have groups: "queue_groups c1 = queue_groups c"
      using execute_cq_groups [OF ex] visit_in_places [of g c i tn] True "1.prems"(2-4) by auto
    from "1.prems"(1) True ex
    have rest: "run_cqs_loop api user tn ps current (i + 1) (count_result r k) c1 = (k', c')"
      by (subst (asm) run_cqs_loop.simps) auto
    from "1.IH" [OF True ex [symmetric] rest "1.prems"(2)] groups "1.prems"(3,4) visit
    show ?thesis by (auto intro: alone_trans)
  qed
qed

lemma alone_groups:
  assumes "run_groups api user tn (drop g (queue_groups c)) (k, c) = (k', c')" and "keeps_groups user"
  shows "alone api user tn (enter_group g k c, c) (RoundOver (shutdown_cqs k' = total_cqs k'), c') \<and>
    queue_groups c' = queue_groups c"
  using assms
proof (induction "length (queue_groups c) - g" arbitrary: g k c)
  case 0
  then show ?case by (simp add: enter_group_def alone_refl)
next
  case (Suc n)
  then have g: "g < length (queue_groups c)" by simp
  let ?k1 = "k\<lparr>total_cqs := total_cqs k + of_nat (length (queue_groups c ! g))\<rparr>"
  obtain k2 c2 where loop: "run_cqs_loop api user tn (queue_groups c ! g) (things_executed ?k1) 0 ?k1 c = (k2, c2)"
    by fastforce
  from alone_loop [OF loop Suc.prems(2) refl g]
  have one: "alone api user tn (AtLoop g 0 (things_executed ?k1) ?k1, c) (enter_group (g + 1) k2 c2, c2)"
    and groups: "queue_groups c2 = queue_groups c" by auto
  have "run_groups api user tn (drop (g + 1) (queue_groups c2)) (k2, c2) = (k', c')"
    using Suc.prems(1) loop groups g
    by (simp add: Cons_nth_drop_Suc [symmetric] run_completion_queues_def Let_def)
  from Suc.hyps(1) [OF _ this Suc.prems(2)] Suc.hyps(2) groups one g show ?case
    by (auto simp: enter_group_def [of g] Let_def intro: alone_trans)
qed

section \<open>Properties\<close>



end
