(* ===== verification/Execution_System.thy ===== *)
theory Execution_System
  imports Execution_Lifecycle Worker_Pool Execution_Rounds
begin

text \<open>
  An \<open>ExecutionContext\<close> as a whole: the calls of its functions by any number of threads
  (\<open>Execution_Lifecycle\<close>), its workers on the task queue (\<open>Worker_Pool\<close>) and in their rounds over
  the completion queues (\<open>Execution_Rounds\<close>), and grpc, which lets operations finish. The
  models share their threads, of which the first \<open>n_threads_\<close> are the workers and the others
  callers, and the context with its queues.

  A thread is inside a call of the context only where its thread function runs code of the
  users (the predicate, an event, a thunk), and goes on in the thread function only when it
  has returned from the call. A worker moves once \<open>run_while\<close> has started it, pops when its
  round over the queues has ended, leaves its loop when every queue reported its shutdown in
  that round, and can be joined when its function has returned. The calls that take a single
  step are not charged to a particular thread.
\<close>

declare set_state.simps [simp del]

section \<open>Definitions\<close>

text \<open>
  Beside the parts: the workers that were started, where each of them is in its round, and, as
  history, the events that were attached to the context's own queues and those completed
  from them.
\<close>

record ('t, 'd, 'e, 'cq) sys =
  sy_calls :: "('t, 'd, 'cq) esys"
  sy_pool :: "('t, 'd) thunk pool"
  sy_started :: "nat set"
  sy_rounds :: "'e round_pc list"
  sy_attached :: "'e multiset"
  sy_completed :: "'e list"

abbreviation sy_ctx :: "('t, 'd, 'e, 'cq) sys \<Rightarrow> ('t, 'd, 'cq) exec_context" where
  "sy_ctx s \<equiv> es_ctx (sy_calls s)"

abbreviation worker_at :: "('t, 'd, 'e, 'cq) sys \<Rightarrow> nat \<Rightarrow> ('t, 'd) thunk wpc" where
  "worker_at s t \<equiv> pl_workers (sy_pool s) ! t"

definition n_workers :: "('t, 'd, 'e, 'cq) sys \<Rightarrow> nat" where
  "n_workers s = unat (ec_n_threads (sy_ctx s))"

definition started_threads :: "('t, 'd, 'cq) esys \<Rightarrow> nat set" where
  "started_threads e = unat ` set (ec_threads (es_ctx e))"

fun polling :: "'a wpc \<Rightarrow> bool" where
  "polling (Polling x) = True"
| "polling w = False"

text \<open>Code of the users runs in the round: the predicate, or the completion of an event.\<close>

fun round_in_user_code :: "'e round_pc \<Rightarrow> bool" where
  "round_in_user_code AtPredicate = True"
| "round_in_user_code (Completing tag is_ok g i current k) = True"
| "round_in_user_code pc = False"

definition in_user_code :: "('t, 'd, 'e, 'cq) sys \<Rightarrow> nat \<Rightarrow> bool" where
  "in_user_code s t \<longleftrightarrow> may_post (worker_at s t) \<and>
     (polling (worker_at s t) \<longrightarrow> round_in_user_code (sy_rounds s ! t)) \<and>
     (t < n_workers s \<longrightarrow> t \<in> sy_started s)"

text \<open>
  The calls move only threads that are in code of the users, and make no worker return; what
  they post attaches one event to a queue, and a server's queues are not yet shut down when
  it is attached.
\<close>

fun posts :: "('t, 'd, 'cq) epc \<Rightarrow> ('cq \<Rightarrow> 'cq) option" where
  "posts (PostCounted f) = Some f"
| "posts (PostPicking f) = Some f"
| "posts (PostAttaching f j) = Some f"
| "posts p = None"

definition calls_allowed ::
  "('cq \<Rightarrow> 'e multiset) \<Rightarrow> ('cq \<Rightarrow> bool) \<Rightarrow> ('t, 'd, 'e, 'cq) sys \<Rightarrow> ('t, 'd, 'cq) esys \<Rightarrow> bool" where
  "calls_allowed contents halted s e \<longleftrightarrow>
     (\<forall>t < length (es_pcs e). es_pcs e ! t \<noteq> es_pcs (sy_calls s) ! t \<longrightarrow>
        es_pcs e ! t \<noteq> WorkerGone \<and> in_user_code s t) \<and>
     (\<forall>p \<in> set (es_pcs e). \<forall>f. posts p = Some f \<longrightarrow> attaches contents halted f) \<and>
     (\<forall>server \<in> set (drop (length (ec_servers (sy_ctx s))) (ec_servers (es_ctx e))).
        \<forall>cq \<in> set server. \<not> halted cq)"

definition own_contents :: "('cq \<Rightarrow> 'e multiset) \<Rightarrow> ('t, 'd, 'cq) exec_context \<Rightarrow> 'e multiset" where
  "own_contents contents c = sum_list (map contents (ec_cqs c))"

text \<open>
  A step on the task queue: a thread posts from code of the users, a worker pops or ejects at
  the end of its round, and begins the next round when it is through with its thunk.
\<close>

fun actor :: "'a pact \<Rightarrow> nat option" where
  "actor (Post t x) = Some t"
| "actor (Inside t) = Some t"
| "actor (LockFails t) = Some t"
| "actor (Worker t) = Some t"
| "actor (Halt t) = None"

fun work_allowed :: "('t, 'd) thunk pact \<Rightarrow> ('t, 'd, 'e, 'cq) sys \<Rightarrow> bool" where
  "work_allowed (Post t x) s = in_user_code s t"
| "work_allowed (Worker t) s = (polling (worker_at s t) \<longrightarrow> (\<exists>b. sy_rounds s ! t = RoundOver b))"
| "work_allowed a s = True"

definition next_rounds :: "nat \<Rightarrow> 'a pool \<Rightarrow> 'a pool \<Rightarrow> 'e round_pc list \<Rightarrow> 'e round_pc list" where
  "next_rounds t p p' rounds =
     (if polling (pl_workers p' ! t) \<and> \<not> polling (pl_workers p ! t) then rounds[t := AtPredicate] else rounds)"

text \<open>The event of an own queue that a step of a round takes.\<close>

fun taken :: "cq_place option \<Rightarrow> 'e round_pc \<Rightarrow> 'e list" where
  "taken (Some (OwnQueue j)) (Completing tag is_ok g i current k) = [tag]"
| "taken p pc = []"

text \<open>grpc lets operations make progress; on the queue of a server handlers and clients begin some.\<close>

definition queue_progress :: "('cq \<Rightarrow> 'e multiset) \<Rightarrow> ('cq \<Rightarrow> bool) \<Rightarrow> cq_place \<Rightarrow> 'cq \<Rightarrow> 'cq \<Rightarrow> bool" where
  "queue_progress contents halted p cq cq' \<longleftrightarrow>
     halted cq' = halted cq \<and> ((\<exists>j. p = OwnQueue j) \<longrightarrow> contents cq' = contents cq)"

definition set_ctx :: "('t, 'd, 'cq) exec_context \<Rightarrow> ('t, 'd, 'e, 'cq) sys \<Rightarrow> ('t, 'd, 'e, 'cq) sys" where
  "set_ctx c s = s\<lparr>sy_calls := (sy_calls s)\<lparr>es_ctx := c\<rparr>\<rparr>"

inductive sys_step ::
  "('e, 'cq) cq_api \<Rightarrow> ('cq \<Rightarrow> 'e multiset) \<Rightarrow> ('cq \<Rightarrow> bool)
     \<Rightarrow> ('t, 'd, 'e, 'cq) sys \<Rightarrow> ('t, 'd, 'e, 'cq) sys \<Rightarrow> bool"
  for api :: "('e, 'cq) cq_api" and contents :: "'cq \<Rightarrow> 'e multiset" and halted :: "'cq \<Rightarrow> bool" where
  sys_call: "estep api (sy_calls s) e \<Longrightarrow> calls_allowed contents halted s e \<Longrightarrow>
    sys_step api contents halted s
      (s\<lparr>sy_calls := e, sy_started := sy_started s \<union> started_threads e,
         sy_attached := sy_attached s + (own_contents contents (es_ctx e) - own_contents contents (sy_ctx s))\<rparr>)"
| sys_work: "pool_act a (sy_pool s) = Some p \<Longrightarrow> actor a = Some t \<Longrightarrow> at_pc t Outside (sy_calls s) \<Longrightarrow>
    (t < n_workers s \<longrightarrow> t \<in> sy_started s) \<Longrightarrow> work_allowed a s \<Longrightarrow>
    sys_step api contents halted s
      (s\<lparr>sy_pool := p, sy_rounds := next_rounds t (sy_pool s) p (sy_rounds s)\<rparr>)"
| sys_round: "t < n_workers s \<Longrightarrow> t \<in> sy_started s \<Longrightarrow> at_pc t Outside (sy_calls s) \<Longrightarrow>
    polling (worker_at s t) \<Longrightarrow> \<not> calling (qs_threads (pl_queue (sy_pool s)) ! t) \<Longrightarrow>
    sy_rounds s ! t = pc \<Longrightarrow> (\<forall>b. pc \<noteq> RoundOver b) \<Longrightarrow>
    round_go api (of_nat t) pc (sy_ctx s) = (pc', c) \<Longrightarrow>
    (if pc' = RoundOver True then pool_act (Halt t) (sy_pool s) else Some (sy_pool s)) = Some p \<Longrightarrow>
    sys_step api contents halted s
      ((set_ctx c s)\<lparr>sy_pool := p, sy_rounds := (sy_rounds s)[t := pc'],
         sy_completed := sy_completed s @ taken (polls (of_nat t) pc (sy_ctx s)) pc'\<rparr>)"
| sys_progress: "p \<in> set (queue_places (sy_ctx s)) \<Longrightarrow>
    queue_progress contents halted p (queue_at p (sy_ctx s)) cq \<Longrightarrow>
    sys_step api contents halted s (set_ctx (set_queue_at p cq (sy_ctx s)) s)"
| sys_gone: "t < length (pl_workers (sy_pool s)) \<Longrightarrow> worker_at s t = WorkerReturned \<Longrightarrow>
    at_pc t Outside (sy_calls s) \<Longrightarrow> t < n_workers s \<Longrightarrow>
    sys_step api contents halted s (s\<lparr>sy_calls := move t WorkerGone (sy_ctx s) (sy_calls s)\<rparr>)"

text \<open>A context is made with new queues.\<close>

definition start_sys :: "('t, 'd, 'cq) exec_context \<Rightarrow> nat \<Rightarrow> ('t, 'd, 'e, 'cq) sys" where
  "start_sys c callers =
     \<lparr>sy_calls = start_esys c (unat (ec_n_threads c) + callers),
      sy_pool = start_pool (ec_n_threads c) callers, sy_started = {},
      sy_rounds = replicate (unat (ec_n_threads c) + callers) AtPredicate,
      sy_attached = {#}, sy_completed = []\<rparr>"

definition sys_init :: "('cq \<Rightarrow> 'e multiset) \<Rightarrow> ('cq \<Rightarrow> bool) \<Rightarrow> ('t, 'd, 'e, 'cq) sys \<Rightarrow> bool" where
  "sys_init contents halted s \<longleftrightarrow>
     (\<exists>n_threads cqs c callers. make_context n_threads cqs = Inr c \<and> n_threads + 1 \<noteq> 0 \<and>
        unat n_threads + callers < 2 ^ 64 \<and> (\<forall>cq \<in> set cqs. contents cq = {#} \<and> \<not> halted cq) \<and>
        s = start_sys c callers)"

section \<open>The task queue in the whole\<close>

lemma set_ctx_simps [simp]:
  "sy_calls (set_ctx c s) = (sy_calls s)\<lparr>es_ctx := c\<rparr>" "sy_pool (set_ctx c s) = sy_pool s"
  "sy_started (set_ctx c s) = sy_started s" "sy_rounds (set_ctx c s) = sy_rounds s"
  "sy_attached (set_ctx c s) = sy_attached s" "sy_completed (set_ctx c s) = sy_completed s"
  by (simp_all add: set_ctx_def)

lemma make_context_threads: "make_context n cqs = Inr c \<Longrightarrow> ec_n_threads c = n"
  by (auto simp: make_context_def split: if_splits)

interpretation sys_pool: forward_simulation "sys_init contents halted" "sys_step api contents halted"
    pool_init pool_step "sy_pool :: ('t, 'd, 'e, 'cq) sys \<Rightarrow> ('t, 'd) thunk pool"
  for api :: "('e, 'cq) cq_api" and contents halted
proof
  fix s :: "('t, 'd, 'e, 'cq) sys"
  assume "sys_init contents halted s"
  then obtain n cqs c callers where "make_context n cqs = Inr c" "n + 1 \<noteq> 0" "s = start_sys c callers"
    by (auto simp: sys_init_def)
  then show "pool_init (sy_pool s)"
    unfolding pool_init_def start_sys_def using make_context_threads by fastforce
next
  fix s t :: "('t, 'd, 'e, 'cq) sys"
  assume "sys_step api contents halted s t"
  then show "sy_pool t = sy_pool s \<or> pool_step (sy_pool s) (sy_pool t)"
    by (cases rule: sys_step.cases) (auto simp: step_of_def simp del: pool_act.simps split: if_splits)
qed

section \<open>Starting and joining the workers\<close>

definition gone :: "('t, 'd, 'cq) esys \<Rightarrow> nat set" where
  "gone e = {t. at_pc t WorkerGone e}"

fun join_ok :: "u32 list \<Rightarrow> nat set \<Rightarrow> ('t, 'd, 'cq) epc \<Rightarrow> bool" where
  "join_ok threads g (StopJoining k) = (k \<le> length threads \<and> unat ` set (take k threads) \<subseteq> g)"
| "join_ok threads g p = True"

fun spawning :: "('t, 'd, 'cq) epc \<Rightarrow> bool" where
  "spawning (RunSpawning i) = True"
| "spawning p = False"

fun spawned :: "nat set \<Rightarrow> ('t, 'd, 'cq) epc \<Rightarrow> bool" where
  "spawned started (RunSpawning i) = ({..<i} \<subseteq> started)"
| "spawned started p = True"

definition inv_join :: "('t, 'd, 'cq) esys \<Rightarrow> bool" where
  "inv_join e \<longleftrightarrow> list_all (join_ok (ec_threads (es_ctx e)) (gone e)) (es_pcs e)"

definition inv_spawn :: "nat set \<Rightarrow> ('t, 'd, 'cq) esys \<Rightarrow> bool" where
  "inv_spawn started e \<longleftrightarrow> count_pcs spawning e \<le> 1 \<and>
     (ec_state (es_ctx e) = Ready \<longrightarrow> count_pcs spawning e = 0) \<and>
     (ec_state (es_ctx e) \<noteq> Ready \<and> count_pcs spawning e = 0 \<longrightarrow>
        {..<unat (ec_n_threads (es_ctx e))} \<subseteq> started) \<and>
     list_all (spawned started) (es_pcs e) \<and>
     started \<subseteq> started_threads e \<union> gone e"

lemma join_ok_mono: "join_ok threads g p \<Longrightarrow> g \<subseteq> g' \<Longrightarrow> join_ok threads g' p"
  by (cases p) auto

lemma join_ok_append: "join_ok threads g p \<Longrightarrow> join_ok (threads @ ts) g p"
  by (cases p) auto

lemma join_ok_idle: "\<not> claiming p \<Longrightarrow> join_ok threads g p"
  by (cases p) auto

lemma spawned_mono: "spawned st p \<Longrightarrow> st \<subseteq> st' \<Longrightarrow> spawned st' p"
  by (cases p) auto

lemma at_pc_move: "at_pc u q (move t p c e) \<longleftrightarrow> (if u = t then t < length (es_pcs e) \<and> p = q else at_pc u q e)"
  by (auto simp: at_pc_def)

lemma gone_move:
  "at_pc t p e \<Longrightarrow> p \<noteq> WorkerGone \<Longrightarrow>
     gone (move t p' c e) = (if p' = WorkerGone then insert t (gone e) else gone e)"
  by (auto simp: gone_def at_pc_move) (auto simp: at_pc_def)

lemma gone_frame [simp]:
  "gone (e\<lparr>es_shut := a\<rparr>) = gone e" "gone (e\<lparr>es_attached := b\<rparr>) = gone e"
  "gone (e\<lparr>es_late := d\<rparr>) = gone e" "gone (e\<lparr>es_added := l\<rparr>) = gone e" "gone (e\<lparr>es_ran := l\<rparr>) = gone e"
  by (simp_all add: gone_def at_pc_def)

lemma set_queue_at_threads:
  "ec_threads (set_queue_at p cq c) = ec_threads c \<and> ec_n_threads (set_queue_at p cq c) = ec_n_threads c"
  by (cases p) simp_all

text \<open>Only one thread claims the shutdown.\<close>

lemma only_claimer:
  assumes "inv_claim e" and "at_pc t p e" and "claiming p" and "u < length (es_pcs e)" and "u \<noteq> t"
  shows "\<not> claiming (es_pcs e ! u)"
proof -
  have "length (filter claiming (es_pcs e)) \<le> 1" using assms(1) by (auto simp: inv_claim_def count_pcs_def)
  from one_filter [OF this, of t u] assms(2-5) show ?thesis by (auto simp: at_pc_def)
qed

lemma list_all_update_mono:
  "list_all P xs \<Longrightarrow> (\<And>x. P x \<Longrightarrow> Q x) \<Longrightarrow> Q y \<Longrightarrow> list_all Q (xs[t := y])"
  by (intro list_all_update) (auto simp: list_all_iff)

lemma inv_join_step:
  assumes "estep api e e'" and "inv_join e" and "inv_claim e"
  shows "inv_join e'"
proof -
  note old = assms(2) [unfolded inv_join_def]
  from assms(1) show ?thesis
  proof cases
    case (post_check t f c)
    with old show ?thesis
      by (cases "get_state c \<le> Running") (auto simp: inv_join_def gone_move intro!: list_all_update)
  next
    case (stop_join t k c)
    then have "unat (ec_threads c ! k) \<in> gone e" by (simp add: gone_def)
    with stop_join at_pc_shut [OF stop_join(2) old] old show ?thesis
      by (auto simp: inv_join_def gone_move take_Suc_conv_app_nth intro!: list_all_update)
  next
    case (stop_joined t k c)
    have "join_ok [] (gone e) p" if "p \<in> set ((es_pcs e)[t := StopNotifying])" for p
    proof -
      from that have "p = StopNotifying \<or> (\<exists>u < length (es_pcs e). u \<noteq> t \<and> p = es_pcs e ! u)"
        by (metis in_set_conv_nth length_list_update nth_list_update_neq nth_list_update_eq)
      then show ?thesis
        using only_claimer [OF assms(3) stop_joined(2)] by (auto intro: join_ok_idle)
    qed
    with stop_joined show ?thesis by (simp add: inv_join_def gone_move list_all_iff)
  next
    case (run_spawn t i c)
    have "list_all (join_ok (ec_threads (es_ctx e) @ [word_of_nat i]) (gone e)) ((es_pcs e)[t := RunSpawning (i + 1)])"
      by (rule list_all_update_mono [OF old]) (simp_all add: join_ok_append)
    with run_spawn show ?thesis by (simp add: inv_join_def gone_move)
  next
    case (worker_leave t c)
    have "list_all (join_ok (ec_threads (es_ctx e)) (insert t (gone e))) ((es_pcs e)[t := WorkerGone])"
      by (rule list_all_update_mono [OF old]) (auto intro: join_ok_mono)
    with worker_leave show ?thesis by (simp add: inv_join_def gone_move)
  qed (use old in \<open>auto simp: inv_join_def gone_move step_facts set_queue_at_threads
       dest!: get_next_cq_frame intro!: list_all_update\<close>)
qed

text \<open>What is started is joined or still in \<open>threads_\<close>; after \<open>run_while\<close> all workers are started.\<close>

lemma inv_spawn_more:
  "inv_spawn started e \<Longrightarrow> inv_spawn (started \<union> started_threads e) e"
  by (auto simp: inv_spawn_def list_all_iff intro: spawned_mono)

lemma inv_spawn_step:
  assumes "estep api e e'" and "inv_spawn started e" and "inv_join e"
  shows "inv_spawn (started \<union> started_threads e') e'"
proof -
  note old = assms(2) [unfolded inv_spawn_def]
  from assms(1) have "inv_spawn started e' \<or> inv_spawn (started \<union> started_threads e') e'"
  proof cases
    case (post_check t f c)
    with old show ?thesis
      by (cases "get_state c \<le> Running")
         (auto simp: inv_spawn_def gone_move count_moves started_threads_def intro!: list_all_update)
  next
    case (stop_joined t k c)
    have "unat ` set (ec_threads (es_ctx e)) \<subseteq> gone e"
      using at_pc_shut [OF stop_joined(2) assms(3) [unfolded inv_join_def]] stop_joined by auto
    moreover have "started \<subseteq> started_threads e \<union> gone e" using old by simp
    ultimately have "started \<subseteq> gone e" unfolding started_threads_def by blast
    with stop_joined old show ?thesis
      by (auto simp: inv_spawn_def gone_move count_moves started_threads_def intro!: list_all_update)
  next
    case (run_win t c st)
    with old show ?thesis
      by (auto simp: inv_spawn_def gone_move count_moves started_threads_def step_facts intro!: list_all_update)
  next
    case (run_spawn t i c)
    let ?st = "started \<union> started_threads e'"
    have "{..<i} \<subseteq> started" using at_pc_shut [OF run_spawn(2), of "spawned started"] old by simp
    moreover have "unat (word_of_nat i :: u32) = i"
      using run_spawn(4) by (metis le_unat_uoi order_less_imp_le)
    ultimately have "{..<i + 1} \<subseteq> ?st"
      using run_spawn(1) by (auto simp: started_threads_def less_Suc_eq)
    then have "list_all (spawned ?st) (es_pcs e')"
      using old run_spawn(1)
      by (auto simp: intro!: list_all_update_mono [of "spawned started"] intro: spawned_mono)
    with run_spawn old show ?thesis
      by (auto simp: inv_spawn_def gone_move count_moves started_threads_def)
  next
    case (run_done t i c)
    have "{..<i} \<subseteq> started" using at_pc_shut [OF run_done(2), of "spawned started"] old by simp
    with run_done old show ?thesis
      by (auto simp: inv_spawn_def gone_move count_moves started_threads_def intro!: list_all_update)
  qed (use old in \<open>auto simp: inv_spawn_def gone_move count_moves started_threads_def step_facts set_queue_at_threads
       dest!: get_next_cq_frame intro!: list_all_update\<close>)
  then show ?thesis using inv_spawn_more by blast
qed

section \<open>What the workers and the callers keep\<close>

text \<open>A thread stays a worker or none, and a worker that has returned stays so.\<close>

definition worker_kept :: "'a wpc \<Rightarrow> 'a wpc \<Rightarrow> bool" where
  "worker_kept w w' \<longleftrightarrow> (w' = External \<longleftrightarrow> w = External) \<and> (w = WorkerReturned \<longrightarrow> w' = WorkerReturned)"

lemma worker_go_kept:
  assumes "worker_go t w p s = Some s'" and "w = pl_workers s ! t" and "t < length (pl_workers s)"
  shows "length (pl_workers s') = length (pl_workers s) \<and>
    (\<forall>u < length (pl_workers s). worker_kept (pl_workers s ! u) (pl_workers s' ! u))"
  using assms
  by (cases "(t, w, p, s)" rule: worker_go.cases)
     (auto simp: worker_kept_def queue_call_eq nth_list_update split: if_splits simp del: qsys_act.simps)

lemma pool_act_kept:
  assumes "pool_act a s = Some s'"
  shows "length (pl_workers s') = length (pl_workers s) \<and>
    (\<forall>u < length (pl_workers s). worker_kept (pl_workers s ! u) (pl_workers s' ! u))"
proof (cases a)
  case (Worker t)
  with assms worker_go_kept [where t = t and s = s and s' = s', OF _ refl] show ?thesis by (auto split: if_splits)
qed (use assms in \<open>auto simp: queue_call_eq worker_kept_def split: if_splits simp del: qsys_act.simps\<close>)

lemma estep_frame:
  assumes "estep api e e'"
  shows "ec_n_threads (es_ctx e') = ec_n_threads (es_ctx e) \<and> length (es_pcs e') = length (es_pcs e)"
  using assms
  by cases (auto simp: step_facts set_queue_at_threads dest!: get_next_cq_frame split: if_splits)

text \<open>Only a worker whose round found everything shut down leaves its loop.\<close>

fun has_left :: "'a wpc \<Rightarrow> bool" where
  "has_left Draining = True"
| "has_left (Drained xs) = True"
| "has_left (CallingDrained x xs) = True"
| "has_left WorkerReturned = True"
| "has_left w = False"

lemma worker_go_left:
  assumes "worker_go t w p s = Some s'" and "w = pl_workers s ! t" and "t < length (pl_workers s)"
  shows "pl_halted s' = pl_halted s \<and>
    (\<forall>u < length (pl_workers s). has_left (pl_workers s' ! u) \<longrightarrow> has_left (pl_workers s ! u) \<or> u \<in> pl_halted s)"
  using assms
  by (cases "(t, w, p, s)" rule: worker_go.cases)
     (auto simp: queue_call_eq nth_list_update split: if_splits simp del: qsys_act.simps)

lemma pool_act_left:
  assumes "pool_act a s = Some s'"
  shows "(\<forall>u < length (pl_workers s). has_left (pl_workers s' ! u) \<longrightarrow> has_left (pl_workers s ! u) \<or> u \<in> pl_halted s) \<and>
    pl_halted s' = (case a of Halt t \<Rightarrow> insert t (pl_halted s) | _ \<Rightarrow> pl_halted s)"
proof (cases a)
  case (Worker t)
  with assms worker_go_left [where t = t and s = s and s' = s', OF _ refl] show ?thesis by (auto split: if_splits)
qed (use assms in \<open>auto simp: queue_call_eq split: if_splits simp del: qsys_act.simps\<close>)

text \<open>A queue that is polled or makes progress does not matter to the callers.\<close>

lemma replace_queue_frame [simp]:
  "es_pcs (e\<lparr>es_ctx := c\<rparr>) = es_pcs e" "count_pcs P (e\<lparr>es_ctx := c\<rparr>) = count_pcs P e"
  "gone (e\<lparr>es_ctx := c\<rparr>) = gone e" "at_pc t p (e\<lparr>es_ctx := c\<rparr>) = at_pc t p e"
  by (simp_all add: count_pcs_def gone_def at_pc_def)

lemma set_queue_at_places:
  "p \<in> set (queue_places c) \<Longrightarrow> queue_places (set_queue_at p cq c) = queue_places c"
  by (simp add: queue_places_def set_queue_at_groups)

lemma set_queue_at_no_queues: "ec_cqs (set_queue_at p cq c) = [] \<longleftrightarrow> ec_cqs c = []"
  by (metis length_0_conv set_queue_at_frame)

lemma einv_set_queue:
  "p \<in> set (queue_places (es_ctx e)) \<Longrightarrow> einv e \<Longrightarrow> einv (e\<lparr>es_ctx := set_queue_at p cq (es_ctx e)\<rparr>)"
  by (simp add: einv_def inv_count_def inv_claim_def inv_gate_def inv_shut_def inv_notes_def
      set_queue_at_frame set_queue_at_within set_queue_at_notifications set_queue_at_places set_queue_at_no_queues)

text \<open>Before \<open>run_while\<close> no thread has been started.\<close>

definition inv_ready :: "nat set \<Rightarrow> ('t, 'd, 'cq) esys \<Rightarrow> bool" where
  "inv_ready started e \<longleftrightarrow> (ec_state (es_ctx e) = Ready \<longrightarrow> ec_threads (es_ctx e) = [] \<and> started = {})"

lemma inv_ready_step:
  assumes "estep api e e'" and "inv_ready started e" and "inv_spawn started e" and "einv e"
  shows "inv_ready (started \<union> started_threads e') e'"
  using assms(1)
proof cases
  case (run_spawn t i c)
  have "0 < count_pcs spawning e" using count_pos [OF run_spawn(2), of spawning] by simp
  with assms(3) run_spawn show ?thesis by (auto simp: inv_spawn_def inv_ready_def)
qed (use assms(2,4) in \<open>auto simp: inv_ready_def started_threads_def step_facts set_queue_at_threads
       dest!: get_next_cq_frame split: if_splits\<close>)

definition inv_threads :: "('t, 'd, 'e, 'cq) sys \<Rightarrow> bool" where
  "inv_threads s \<longleftrightarrow> einv (sy_calls s) \<and> inv_join (sy_calls s) \<and> inv_spawn (sy_started s) (sy_calls s) \<and>
     inv_ready (sy_started s) (sy_calls s) \<and>
     length (pl_workers (sy_pool s)) = length (es_pcs (sy_calls s)) \<and>
     length (sy_rounds s) = length (es_pcs (sy_calls s)) \<and>
     0 < n_workers s \<and> n_workers s \<le> length (es_pcs (sy_calls s)) \<and>
     (\<forall>t < length (pl_workers (sy_pool s)). worker_at s t \<noteq> External \<longrightarrow> t < n_workers s) \<and>
     (\<forall>t \<in> gone (sy_calls s). worker_at s t = WorkerReturned) \<and>
     (\<forall>t < length (pl_workers (sy_pool s)). has_left (worker_at s t) \<longrightarrow> t \<in> pl_halted (sy_pool s)) \<and>
     (\<forall>t < n_workers s. t \<notin> sy_started s \<longrightarrow> sy_rounds s ! t = AtPredicate) \<and>
     pl_halted (sy_pool s) \<subseteq> sy_started s \<inter> {..<n_workers s}"

lemma inv_threads_init:
  assumes "sys_init contents halted s"
  shows "inv_threads s"
proof -
  from assms obtain n cqs c callers where c: "make_context n cqs = Inr c" and small: "unat n + callers < 2 ^ 64"
    and s: "s = start_sys c callers"
    by (auto simp: sys_init_def)
  from c have state: "ec_state c = Ready" "ec_threads c = []" "ec_n_threads c = n" "n \<noteq> 0"
    by (auto simp: make_context_def split: if_splits)
  then have "0 < unat n" by (simp add: unat_gt_0)
  have "einit (sy_calls s)" using c small state(3) by (auto simp: s start_sys_def einit_def)
  then have einv: "einv (sy_calls s)" by (rule einv_init)
  have pcs: "set (es_pcs (sy_calls s)) \<subseteq> {Outside}" by (auto simp: s start_sys_def start_esys_def)
  then have "gone (sy_calls s) = {}" "count_pcs spawning (sy_calls s) = 0"
    by (auto simp: gone_def at_pc_def count_none dest: nth_mem)
  moreover have "list_all (spawned {}) (es_pcs (sy_calls s))" "inv_join (sy_calls s)"
    using pcs by (auto simp: list_all_iff inv_join_def)
  ultimately show ?thesis
    using state einv \<open>0 < unat n\<close>
    by (auto simp: inv_threads_def inv_spawn_def inv_ready_def s start_sys_def start_esys_def start_pool_def
        n_workers_def nth_append split: if_splits)
qed

lemma set_queue_at_any_groups: "queue_groups (set_queue_at p cq c) = queue_groups c"
proof (cases p)
  case (ServerQueue k j)
  then show ?thesis
    by (cases "k < length (ec_servers c)")
       (auto simp: queue_groups_def server_places_def nth_list_update list_update_beyond)
qed (simp add: queue_groups_def)

lemma round_go_frame:
  assumes "round_go api tn pc c = (pc', c')"
  shows "c' = c \<or> (\<exists>p cq. polls tn pc c = Some p \<and> c' = set_queue_at p cq c)"
  using assms by (cases pc) (auto simp: Let_def split: if_splits prod.splits)

lemma next_rounds_simps:
  "length (next_rounds t p p' rounds) = length rounds"
  "next_rounds t p p' rounds ! u = rounds ! u \<or> next_rounds t p p' rounds ! u = AtPredicate"
  by (auto simp: next_rounds_def nth_list_update)
     (metis list_update_beyond nth_list_update_eq nth_list_update_neq not_le)

lemma inv_threads_step:
  assumes "sys_step api contents halted s s'" and "inv_threads s"
    and "\<And>t. t < length (pl_workers (sy_pool s)) \<Longrightarrow> has_left (worker_at s t) \<Longrightarrow>
      set (queue_places (sy_ctx s)) \<subseteq> es_shut (sy_calls s)"
    and "\<And>t p. t < n_workers s \<Longrightarrow> polls (of_nat t) (sy_rounds s ! t) (sy_ctx s) = Some p \<Longrightarrow>
      p \<in> set (queue_places (sy_ctx s))"
  shows "inv_threads s'"
proof -
  note old = assms(2) [unfolded inv_threads_def]
  have e: "einv (sy_calls s)" using old by blast
  from assms(1) show ?thesis
  proof cases
    case (sys_call e)
    have inv: "einv e" "inv_join e" "inv_spawn (sy_started s \<union> started_threads e) e"
      "inv_ready (sy_started s \<union> started_threads e) e"
      using einv_step [OF sys_call(2)] inv_join_step [OF sys_call(2)] inv_spawn_step [OF sys_call(2)]
        inv_ready_step [OF sys_call(2)] old by (auto simp: einv_def)
    have "gone e \<subseteq> gone (sy_calls s)"
      using sys_call(3) estep_frame [OF sys_call(2)] by (fastforce simp: gone_def at_pc_def calls_allowed_def)
    with inv old estep_frame [OF sys_call(2)] sys_call(1) show ?thesis
      by (auto simp: inv_threads_def n_workers_def)
  next
    case (sys_work a p t)
    have "u < length (pl_workers (sy_pool s))" if "u \<in> gone (sy_calls s)" for u
      using that old by (auto simp: gone_def at_pc_def)
    moreover have "pl_halted p = pl_halted (sy_pool s)"
      using pool_act_left [OF sys_work(2)] sys_work(3) by (auto split: pact.splits)
    ultimately show ?thesis
      using old sys_work(1) pool_act_kept [OF sys_work(2)] pool_act_left [OF sys_work(2)]
        next_rounds_simps [of t "sy_pool s" p "sy_rounds s"]
      by (auto simp: inv_threads_def n_workers_def worker_kept_def) metis+
  next
    case (sys_round t pc pc' c p)
    have calls: "einv ((sy_calls s)\<lparr>es_ctx := c\<rparr>)" "ec_n_threads c = ec_n_threads (sy_ctx s)"
      "ec_threads c = ec_threads (sy_ctx s)" "ec_state c = ec_state (sy_ctx s)"
      using round_go_frame [OF sys_round(9)] assms(4) [OF sys_round(2)] sys_round(7) e
        einv_set_queue [of _ "sy_calls s"]
      by (auto simp: set_queue_at_threads set_queue_at_frame)
    have pool: "pl_workers p = pl_workers (sy_pool s)" "pl_halted (sy_pool s) \<subseteq> pl_halted p"
      "pl_halted p \<subseteq> insert t (pl_halted (sy_pool s))"
      using sys_round(10) by (auto split: if_splits)
    show ?thesis
      using old calls pool sys_round(1-3)
      by (auto simp: inv_threads_def n_workers_def inv_join_def inv_spawn_def inv_ready_def started_threads_def
          nth_list_update)
  next
    case (sys_progress p cq)
    then show ?thesis
      using old einv_set_queue [OF sys_progress(2)]
      by (auto simp: inv_threads_def n_workers_def inv_join_def inv_spawn_def inv_ready_def started_threads_def
          set_queue_at_threads set_queue_at_frame)
  next
    case (sys_gone t)
    have leave: "estep api (sy_calls s) (move t WorkerGone (sy_ctx s) (sy_calls s))"
      using sys_gone assms(3) [OF sys_gone(2)] by (intro estep.worker_leave) (auto simp: n_workers_def)
    have "inv_join (move t WorkerGone (sy_ctx s) (sy_calls s))"
      using inv_join_step [OF leave] old e by (auto simp: einv_def)
    moreover have "inv_spawn (sy_started s) (move t WorkerGone (sy_ctx s) (sy_calls s))"
      using old sys_gone(4)
      by (auto simp: inv_spawn_def gone_move count_moves started_threads_def intro!: list_all_update)
    ultimately show ?thesis
      using old sys_gone einv_step [OF leave]
      by (auto simp: inv_threads_def n_workers_def gone_move inv_ready_def)
  qed
qed

end
