(* ===== verification/Execution_Events.thy ===== *)
theory Execution_Events
  imports Execution_System
begin

text \<open>
  The events of a whole \<open>ExecutionContext\<close>: what is attached to its completion queues and what
  its workers complete, while any number of threads post, run and stop it. The queues are any
  that keep the contract \<open>completion_queue\<close>; under it the invariant of the whole is an
  \<open>invariant_system\<close>.
\<close>

section \<open>The queues during the calls\<close>

lemma sum_list_update_one:
  "j < length xs \<Longrightarrow> sum_list (map f (xs[j := x])) + f (xs ! j) = sum_list (map f xs) + (f x :: 'b multiset)"
  by (rule sum_list_update_thread)

lemma own_contents_update:
  "j < length (ec_cqs c) \<Longrightarrow>
     own_contents contents (c\<lparr>ec_cqs := (ec_cqs c)[j := q]\<rparr>) + contents (ec_cqs c ! j) =
       own_contents contents c + contents q"
  by (simp add: own_contents_def sum_list_update_one)

lemma own_contents_frame [simp]:
  "own_contents contents (c\<lparr>ec_within_cq_post := a\<rparr>) = own_contents contents c"
  "own_contents contents (c\<lparr>ec_next_cq_write_index := b\<rparr>) = own_contents contents c"
  "own_contents contents (c\<lparr>ec_state := st\<rparr>) = own_contents contents c"
  "own_contents contents (c\<lparr>ec_threads := ts\<rparr>) = own_contents contents c"
  "own_contents contents (c\<lparr>ec_notifications := ns\<rparr>) = own_contents contents c"
  "own_contents contents (c\<lparr>ec_servers := sv\<rparr>) = own_contents contents c"
  by (simp_all add: own_contents_def)

lemma queue_at_frame [simp]:
  "queue_at p (c\<lparr>ec_within_cq_post := a\<rparr>) = queue_at p c"
  "queue_at p (c\<lparr>ec_next_cq_write_index := b\<rparr>) = queue_at p c"
  "queue_at p (c\<lparr>ec_state := st\<rparr>) = queue_at p c"
  "queue_at p (c\<lparr>ec_threads := ts\<rparr>) = queue_at p c"
  "queue_at p (c\<lparr>ec_notifications := ns\<rparr>) = queue_at p c"
  by (cases p; simp)+

text \<open>What the calls under way are going to do to the queues.\<close>

definition inv_posts :: "('cq \<Rightarrow> 'e multiset) \<Rightarrow> ('cq \<Rightarrow> bool) \<Rightarrow> ('t, 'd, 'cq) esys \<Rightarrow> bool" where
  "inv_posts contents halted e \<longleftrightarrow>
     (\<forall>p \<in> set (es_pcs e). (\<forall>f. posts p = Some f \<longrightarrow> attaches contents halted f) \<and>
        (\<forall>f j. p = PostAttaching f j \<longrightarrow> j < length (ec_cqs (es_ctx e))))"

lemma attaching_at:
  assumes "inv_posts contents halted e" and "at_pc t (PostAttaching f j) e"
  shows "j < length (ec_cqs (es_ctx e)) \<and>
    (\<exists>ev. \<forall>q. contents (f q) = add_mset ev (contents q) \<and> halted (f q) = halted q)"
proof -
  have "PostAttaching f j \<in> set (es_pcs e)" using assms(2) by (auto simp: at_pc_def in_set_conv_nth)
  with assms(1) show ?thesis by (fastforce simp: inv_posts_def attaches_def)
qed

lemma get_next_cq_range: "get_next_cq c = (Inr j, c') \<Longrightarrow> j < length (ec_cqs c)"
  by (auto simp: get_next_cq_def get_cq_def Let_def split: if_splits)

lemma update_pcs_in: "p \<in> set (xs[t := y]) \<Longrightarrow> p = y \<or> p \<in> set xs"
  using set_update_subset_insert [of xs t y] by auto

lemma estep_attaching:
  assumes "estep api e e'" and "PostAttaching f j \<in> set (es_pcs e')"
    and "\<And>f j. PostAttaching f j \<in> set (es_pcs e) \<Longrightarrow> j < length (ec_cqs (es_ctx e))"
  shows "j < length (ec_cqs (es_ctx e'))"
  using assms(1)
proof cases
  case (post_check t f' c)
  with assms(2,3) show ?thesis by (auto dest!: update_pcs_in split: if_splits)
next
  case (post_pick t f' j' c)
  with assms(2,3) get_next_cq_range [OF post_pick(3)] show ?thesis
    by (auto dest!: update_pcs_in get_next_cq_frame)
qed (use assms(2,3) in \<open>auto simp: step_facts dest!: update_pcs_in get_next_cq_frame split: if_splits\<close>)

text \<open>The groups change only when a server is attached, before anything runs.\<close>

lemma estep_groups:
  assumes "estep api e e'"
  shows "queue_groups (es_ctx e') = queue_groups (es_ctx e) \<or>
    (ec_state (es_ctx e) = Ready \<and> (\<exists>gs. queue_groups (es_ctx e') = queue_groups (es_ctx e) @ gs))"
  using assms
proof cases
  case (server_attach t server c)
  then show ?thesis
    by (auto simp: step_facts queue_groups_def nth_append cong: map_cong)
next
  case (stop_halt t k c p)
  then show ?thesis by (simp add: set_queue_at_any_groups)
qed (auto simp: step_facts queue_groups_def dest!: get_next_cq_frame split: if_splits)

section \<open>The invariant\<close>

text \<open>What a report of \<open>SHUTDOWN\<close> shows, for good.\<close>

definition seen_shut :: "('cq \<Rightarrow> 'e multiset) \<Rightarrow> ('t, 'd, 'cq) esys \<Rightarrow> cq_place \<Rightarrow> bool" where
  "seen_shut contents e p \<longleftrightarrow> p \<in> es_shut e \<and>
     (\<forall>j < length (ec_cqs (es_ctx e)). p = OwnQueue j \<longrightarrow> contents (ec_cqs (es_ctx e) ! j) = {#})"

text \<open>The queues can be counted and visited in 32 bits.\<close>

definition places_fit :: "('t, 'd, 'cq) exec_context \<Rightarrow> bool" where
  "places_fit c \<longleftrightarrow> (\<forall>ps \<in> set (queue_groups c). unat (ec_n_threads c) + length ps \<le> 2 ^ 32) \<and>
     length (queue_places c) < 2 ^ 32"

definition inv_queues :: "('cq \<Rightarrow> 'e multiset) \<Rightarrow> ('cq \<Rightarrow> bool) \<Rightarrow> ('t, 'd, 'e, 'cq) sys \<Rightarrow> bool" where
  "inv_queues contents halted s \<longleftrightarrow> inv_posts contents halted (sy_calls s) \<and>
     (\<forall>p \<in> set (queue_places (sy_ctx s)). halted (queue_at p (sy_ctx s)) \<longrightarrow> p \<in> es_shut (sy_calls s)) \<and>
     sy_attached s = mset (sy_completed s) + own_contents contents (sy_ctx s) \<and>
     length (sy_completed s) + size (own_contents contents (sy_ctx s)) = es_attached (sy_calls s)"

definition inv_rounds :: "('cq \<Rightarrow> 'e multiset) \<Rightarrow> ('t, 'd, 'e, 'cq) sys \<Rightarrow> bool" where
  "inv_rounds contents s \<longleftrightarrow>
     (\<forall>t < n_workers s. round_ok (seen_shut contents (sy_calls s)) (of_nat t) (queue_groups (sy_ctx s)) (sy_rounds s ! t)) \<and>
     (pl_halted (sy_pool s) \<noteq> {} \<longrightarrow> (\<forall>p \<in> set (queue_places (sy_ctx s)). seen_shut contents (sy_calls s) p))"

definition sys_inv :: "('cq \<Rightarrow> 'e multiset) \<Rightarrow> ('cq \<Rightarrow> bool) \<Rightarrow> ('t, 'd, 'e, 'cq) sys \<Rightarrow> bool" where
  "sys_inv contents halted s \<longleftrightarrow>
     (places_fit (sy_ctx s) \<longrightarrow> inv_threads s \<and> inv_queues contents halted s \<and> inv_rounds contents s)"

lemma places_fit_sizes:
  assumes "places_fit c" and "t < unat (ec_n_threads c)"
  shows "sizes_fit (of_nat t) (queue_groups c)"
proof -
  have "unat (of_nat t :: u32) \<le> t" by (simp add: unat_of_nat)
  with assms show ?thesis by (fastforce simp: places_fit_def sizes_fit_def queue_places_def)
qed

lemma places_fit_append:
  "places_fit c' \<Longrightarrow> queue_groups c' = queue_groups c @ gs \<Longrightarrow> ec_n_threads c' = ec_n_threads c \<Longrightarrow> places_fit c"
  by (auto simp: places_fit_def queue_places_def)

lemma places_fit_same:
  "queue_groups c' = queue_groups c \<Longrightarrow> ec_n_threads c' = ec_n_threads c \<Longrightarrow> places_fit c' = places_fit c"
  by (auto simp: places_fit_def queue_places_def)

section \<open>Calls, rounds and progress on the queues\<close>

lemma own_contents_set_queue:
  "(\<And>j. p = OwnQueue j \<Longrightarrow> contents cq = contents (ec_cqs c ! j)) \<Longrightarrow>
     own_contents contents (set_queue_at p cq c) = own_contents contents c"
proof (cases p)
  case (OwnQueue j)
  assume "\<And>j. p = OwnQueue j \<Longrightarrow> contents cq = contents (ec_cqs c ! j)"
  with OwnQueue own_contents_update [of j c contents cq] show ?thesis
    by (cases "j < length (ec_cqs c)") (auto simp: list_update_beyond)
qed simp

lemma queue_at_same: "p \<in> set (queue_places c) \<Longrightarrow> queue_at p (set_queue_at p cq c) = cq"
  using queue_place_cases [of p c] by auto

lemma seen_shut_set_queue:
  assumes "seen_shut contents e p" and "p' \<in> set (queue_places (es_ctx e))"
    and "\<And>j. p' = OwnQueue j \<Longrightarrow> contents (ec_cqs (es_ctx e) ! j) = {#} \<Longrightarrow> contents cq = {#}"
  shows "seen_shut contents (e\<lparr>es_ctx := set_queue_at p' cq (es_ctx e)\<rparr>) p"
proof (cases "p' = p")
  case True
  with assms show ?thesis using queue_place_cases [OF assms(2)] by (auto simp: seen_shut_def)
next
  case False
  with assms(1) show ?thesis
    by (cases p') (auto simp: seen_shut_def, metis nth_list_update_neq)
qed

lemma posting_open:
  assumes "einv e" and "at_pc t (PostAttaching f j) e"
  shows "es_shut e = {}"
  using count_pos [OF assms(2), of admitted] assms(1) by (auto simp: einv_def inv_gate_def)

context completion_queue
begin

lemma call_contents:
  assumes "estep api e e'" and "inv_posts contents halted e"
  shows "own_contents contents (es_ctx e) \<subseteq># own_contents contents (es_ctx e') \<and>
    es_attached e' = es_attached e + size (own_contents contents (es_ctx e') - own_contents contents (es_ctx e))"
  using assms(1)
proof cases
  case (post_attach t f j c)
  from attaching_at [OF assms(2) post_attach(2)] obtain ev where
    j: "j < length (ec_cqs c)" and ev: "contents (f (ec_cqs c ! j)) = add_mset ev (contents (ec_cqs c ! j))"
    using post_attach(3) by auto
  from own_contents_update [OF j, of contents "f (ec_cqs c ! j)"] ev post_attach
  have "own_contents contents (es_ctx e') = add_mset ev (own_contents contents (es_ctx e))" by simp
  with post_attach show ?thesis by simp
next
  case (stop_halt t k c p)
  have "own_contents contents (es_ctx e') = own_contents contents (es_ctx e)"
    using stop_halt(1,3) by (auto simp: shutdown_keeps intro!: own_contents_set_queue)
  with stop_halt(1) show ?thesis by simp
qed (auto simp: step_facts dest!: get_next_cq_frame split: if_splits)

lemma call_seen:
  assumes "estep api e e'" and "inv_posts contents halted e" and "einv e" and "seen_shut contents e p"
  shows "seen_shut contents e' p"
  using assms(1)
proof cases
  case (post_attach t f j c)
  with posting_open [OF assms(3) post_attach(2)] assms(4) show ?thesis by (simp add: seen_shut_def)
next
  case (stop_halt t k c p')
  have "p' \<in> set (queue_places (es_ctx e))" using stop_halt(3-5) by simp
  from seen_shut_set_queue [OF assms(4) this, of "cq_shutdown api (queue_at p' c)"] stop_halt
  show ?thesis by (auto simp: seen_shut_def shutdown_keeps)
qed (use assms(4) in \<open>auto simp: seen_shut_def step_facts dest!: get_next_cq_frame split: if_splits\<close>)

lemma call_halted:
  assumes "estep api e e'" and "inv_posts contents halted e"
    and "\<forall>server \<in> set (drop (length (ec_servers (es_ctx e))) (ec_servers (es_ctx e'))). \<forall>cq \<in> set server. \<not> halted cq"
    and "\<forall>p \<in> set (queue_places (es_ctx e)). halted (queue_at p (es_ctx e)) \<longrightarrow> p \<in> es_shut e"
  shows "\<forall>p \<in> set (queue_places (es_ctx e')). halted (queue_at p (es_ctx e')) \<longrightarrow> p \<in> es_shut e'"
  using assms(1)
proof cases
  case (post_attach t f j c)
  have "halted (queue_at p (es_ctx e')) = halted (queue_at p (es_ctx e))" for p
    using attaching_at [OF assms(2) post_attach(2)] post_attach by (cases p) (auto simp: nth_list_update)
  with post_attach assms(4) show ?thesis by simp
next
  case (stop_halt t k c p)
  have "p \<in> set (queue_places c)" using stop_halt(4,5) by simp
  with stop_halt assms(4) show ?thesis
    by (auto simp: set_queue_at_places) (metis queue_at_other)
next
  case (server_attach t server c)
  have "halted (queue_at p c) \<longrightarrow> p \<in> es_shut e" if "p \<in> set (queue_places c)" for p
    using queue_place_cases [OF that]
  proof (elim disjE exE conjE)
    fix j assume "p = OwnQueue j" "j < length (ec_cqs c)"
    with server_attach assms(4) show ?thesis
      by (fastforce simp: step_facts queue_places_def queue_groups_def)
  next
    fix k j assume p: "p = ServerQueue k j" "k < length (ec_servers c)" "j < length (ec_servers c ! k)"
    show ?thesis
    proof (cases "k < length (ec_servers (es_ctx e))")
      case True
      with p server_attach have "p \<in> set (queue_places (es_ctx e))" "queue_at p c = queue_at p (es_ctx e)"
        by (fastforce simp: step_facts queue_places_def queue_groups_def server_places_def nth_append)+
      with assms(4) show ?thesis by simp
    next
      case False
      with p server_attach assms(3) show ?thesis by (auto simp: step_facts nth_append)
    qed
  qed
  with server_attach show ?thesis by simp
qed (use assms(4) in \<open>auto simp: step_facts dest!: get_next_cq_frame split: if_splits\<close>)

end

section \<open>The steps keep the invariant\<close>

lemma sys_step_fits:
  assumes "sys_step api contents halted s s'" and "places_fit (sy_ctx s')"
  shows "places_fit (sy_ctx s)"
  using assms(1)
proof cases
  case (sys_call e)
  then have fit: "places_fit (es_ctx e)" using assms(2) by simp
  have "ec_n_threads (es_ctx e) = ec_n_threads (sy_ctx s)" using estep_frame [OF sys_call(2)] by simp
  moreover from estep_groups [OF sys_call(2)] obtain gs where
    "queue_groups (es_ctx e) = queue_groups (sy_ctx s) @ gs" by (metis append_Nil2)
  ultimately show ?thesis by (intro places_fit_append [OF fit])
next
  case (sys_round t pc pc' c p)
  have "queue_groups c = queue_groups (sy_ctx s) \<and> ec_n_threads c = ec_n_threads (sy_ctx s)"
    using round_go_frame [OF sys_round(9)] by (auto simp: set_queue_at_any_groups set_queue_at_threads)
  then have "places_fit c = places_fit (sy_ctx s)" by (intro places_fit_same) simp_all
  with sys_round(1) assms(2) show ?thesis by simp
next
  case (sys_progress p cq)
  with assms(2) show ?thesis
    by (simp add: places_fit_def queue_places_def set_queue_at_any_groups set_queue_at_threads)
next
  case (sys_work a p t)
  with assms(2) show ?thesis by simp
next
  case (sys_gone t)
  with assms(2) show ?thesis by simp
qed

lemma left_seen:
  assumes "inv_threads s" and "inv_rounds contents s" and "t < length (pl_workers (sy_pool s))"
    and "has_left (worker_at s t)" and "p \<in> set (queue_places (sy_ctx s))"
  shows "seen_shut contents (sy_calls s) p"
  using assms unfolding inv_threads_def inv_rounds_def by blast

lemma left_empty:
  assumes "inv_threads s" and "inv_rounds contents s" and "t < length (pl_workers (sy_pool s))"
    and "has_left (worker_at s t)"
  shows "set (queue_places (sy_ctx s)) \<subseteq> es_shut (sy_calls s) \<and> own_contents contents (sy_ctx s) = {#}"
proof -
  note seen = left_seen [OF assms]
  then have "contents cq = {#}" if "cq \<in> set (ec_cqs (sy_ctx s))" for cq
    using that by (fastforce simp: in_set_conv_nth seen_shut_def queue_places_def queue_groups_def)
  then have "own_contents contents (sy_ctx s) = {#}"
    unfolding own_contents_def by (rule sum_list_empty)
  with seen show ?thesis by (auto simp: seen_shut_def)
qed

lemma polled_place:
  assumes "inv_rounds contents s" and "t < n_workers s"
    and "polls (of_nat t) (sy_rounds s ! t) (sy_ctx s) = Some p"
  shows "p \<in> set (queue_places (sy_ctx s))"
  using polls_place [OF assms(3)] assms(1,2) unfolding inv_rounds_def by blast

lemma seen_shut_move [simp]: "seen_shut contents (move t p (es_ctx e) e) = seen_shut contents e"
  by (rule ext) (simp add: seen_shut_def)

lemma taken_cases:
  "taken q pc = (case (q, pc) of (Some (OwnQueue j), Completing tag is_ok g i current k) \<Rightarrow> [tag] | _ \<Rightarrow> [])"
  by (cases "(q, pc)" rule: taken.cases) (auto split: option.splits cq_place.splits round_pc.splits)

lemma own_contents_polled:
  "j < length (ec_cqs c) \<Longrightarrow> contents (ec_cqs c ! j) = add_mset e (contents cq) \<Longrightarrow>
     own_contents contents c = add_mset e (own_contents contents (c\<lparr>ec_cqs := (ec_cqs c)[j := cq]\<rparr>))"
  using own_contents_update [of j c contents cq] by simp

context completion_queue
begin

text \<open>What a step of a round does to the own queues, and what it shows.\<close>

lemma round_own:
  assumes "round_go api tn pc c = (pc', c')" and "\<And>p. polls tn pc c = Some p \<Longrightarrow> p \<in> set (queue_places c)"
  shows "own_contents contents c = mset (taken (polls tn pc c) pc') + own_contents contents c'"
proof (cases "polls tn pc c")
  case None
  with round_go_frame [OF assms(1)] show ?thesis by auto
next
  case (Some p)
  then have "pc \<noteq> AtPredicate" by auto
  from round_go_effect [OF assms(1) this] Some obtain status cq where
    n: "cq_async_next api (queue_at p c) = (status, cq)" and c': "c' = set_queue_at p cq c"
    and e: "\<And>e. (\<exists>ok g i current k. pc' = Completing e ok g i current k) \<longleftrightarrow> (\<exists>ok. status = GOT_EVENT e ok)" by auto
  from queue_place_cases [OF assms(2) [OF Some]] show ?thesis
  proof (elim disjE exE conjE)
    fix j assume p: "p = OwnQueue j" "j < length (ec_cqs c)"
    show ?thesis
    proof (cases status)
      case (GOT_EVENT ev ok)
      with e obtain ok g i current k where pc': "pc' = Completing ev ok g i current k" by blast
      have "contents (ec_cqs c ! j) = add_mset ev (contents cq)" using n p GOT_EVENT next_event by auto
      from own_contents_polled [OF p(2) this] show ?thesis using Some p c' pc' by simp
    next
      case SHUTDOWN
      then have "contents cq = contents (queue_at p c)" using n next_shutdown by auto
      moreover have "taken (polls tn pc c) pc' = []"
        using e SHUTDOWN by (auto simp: taken_cases split: option.splits cq_place.splits round_pc.splits)
      ultimately show ?thesis using p c' own_contents_set_queue [of p contents cq c] by simp
    next
      case TIMEOUT
      then have "contents cq = contents (queue_at p c)" using n next_timeout by auto
      moreover have "taken (polls tn pc c) pc' = []"
        using e TIMEOUT by (auto simp: taken_cases split: option.splits cq_place.splits round_pc.splits)
      ultimately show ?thesis using p c' own_contents_set_queue [of p contents cq c] by simp
    qed
  next
    fix k j assume "p = ServerQueue k j"
    with Some c' show ?thesis by (simp add: own_contents_def)
  qed
qed

lemma round_halted:
  assumes "round_go api tn pc c = (pc', c')" and "\<And>p. polls tn pc c = Some p \<Longrightarrow> p \<in> set (queue_places c)"
    and "p \<in> set (queue_places c)"
  shows "halted (queue_at p c') = halted (queue_at p c)"
proof (cases "polls tn pc c")
  case None
  with round_go_frame [OF assms(1)] show ?thesis by auto
next
  case (Some p')
  then have "pc \<noteq> AtPredicate" by auto
  from round_go_effect [OF assms(1) this] Some obtain status cq where
    n: "cq_async_next api (queue_at p' c) = (status, cq)" and c': "c' = set_queue_at p' cq c" by auto
  with next_halted [OF n] show ?thesis
    by (cases "p' = p") (auto simp: queue_at_same [OF assms(3)] queue_at_other)
qed

lemma round_seen:
  assumes "round_go api tn pc (es_ctx e) = (pc', c')"
    and "\<And>p. polls tn pc (es_ctx e) = Some p \<Longrightarrow> p \<in> set (queue_places (es_ctx e))"
    and "seen_shut contents e p \<or> polls tn pc (es_ctx e) = Some p \<and> p \<in> es_shut e \<and>
      fst (cq_async_next api (queue_at p (es_ctx e))) = SHUTDOWN"
  shows "seen_shut contents (e\<lparr>es_ctx := c'\<rparr>) p"
proof (cases "polls tn pc (es_ctx e)")
  case None
  with round_go_frame [OF assms(1)] assms(3) show ?thesis by (auto simp: seen_shut_def)
next
  case (Some p')
  then have "pc \<noteq> AtPredicate" by auto
  from round_go_effect [OF assms(1) this] Some obtain status cq where
    n: "cq_async_next api (queue_at p' (es_ctx e)) = (status, cq)" and c': "c' = set_queue_at p' cq (es_ctx e)" by auto
  note place = assms(2) [OF Some]
  show ?thesis
  proof (cases "seen_shut contents e p")
    case True
    then show ?thesis
      unfolding c' by (rule seen_shut_set_queue [OF _ place]) (use n empty_stays in auto)
  next
    case False
    with assms(3) Some n have p: "p' = p" "p \<in> es_shut e" "status = SHUTDOWN" by auto
    with n next_shutdown have "contents cq = {#}" by blast
    with p queue_place_cases [OF place] show ?thesis by (auto simp: seen_shut_def c')
  qed
qed

lemma inv_queues_step:
  assumes "sys_step api contents halted s s'" and "inv_queues contents halted s" and "inv_rounds contents s"
    and "inv_threads s"
  shows "inv_queues contents halted s'"
proof -
  note old = assms(2) [unfolded inv_queues_def]
  have posts: "inv_posts contents halted (sy_calls s)" using old by blast
  from assms(1) show ?thesis
  proof cases
    case (sys_call e)
    have "j < length (ec_cqs (sy_ctx s))" if "PostAttaching f j \<in> set (es_pcs (sy_calls s))" for f j
      using posts that by (simp add: inv_posts_def)
    then have "j < length (ec_cqs (es_ctx e))" if "PostAttaching f j \<in> set (es_pcs e)" for f j
      using estep_attaching [OF sys_call(2) that] by blast
    then have "inv_posts contents halted e" using sys_call(3) by (auto simp: inv_posts_def calls_allowed_def)
    moreover have "\<forall>p \<in> set (queue_places (es_ctx e)). halted (queue_at p (es_ctx e)) \<longrightarrow> p \<in> es_shut e"
      by (rule call_halted [OF sys_call(2) posts]) (use sys_call(3) old in \<open>auto simp: calls_allowed_def\<close>)
    moreover have "own_contents contents (sy_ctx s) +
        (own_contents contents (es_ctx e) - own_contents contents (sy_ctx s)) = own_contents contents (es_ctx e)"
      using call_contents [OF sys_call(2) posts] by simp
    moreover from this have "size (own_contents contents (sy_ctx s)) +
        size (own_contents contents (es_ctx e) - own_contents contents (sy_ctx s)) = size (own_contents contents (es_ctx e))"
      by (metis size_union)
    moreover note call_contents [OF sys_call(2) posts]
    ultimately show ?thesis using sys_call(1) old by (simp add: inv_queues_def add.assoc)
  next
    case (sys_work a p t)
    with old show ?thesis by (simp add: inv_queues_def)
  next
    case (sys_round t pc pc' c p)
    have place: "q \<in> set (queue_places (sy_ctx s))" if "polls (of_nat t) pc (sy_ctx s) = Some q" for q
      using polled_place [OF assms(3) sys_round(2)] sys_round(7) that by simp
    have places: "queue_places c = queue_places (sy_ctx s)" "length (ec_cqs c) = length (ec_cqs (sy_ctx s))"
      using round_go_frame [OF sys_round(9)]
      by (auto simp: queue_places_def set_queue_at_any_groups set_queue_at_frame)
    have "inv_posts contents halted ((sy_calls s)\<lparr>es_ctx := c\<rparr>)"
      using posts places(2) by (simp add: inv_posts_def)
    with old sys_round(1) places round_own [OF sys_round(9) place] round_halted [OF sys_round(9) place]
    show ?thesis by (simp add: inv_queues_def add.assoc)
  next
    case (sys_progress p cq)
    have "inv_posts contents halted ((sy_calls s)\<lparr>es_ctx := set_queue_at p cq (sy_ctx s)\<rparr>)"
      using posts by (simp add: inv_posts_def set_queue_at_frame)
    moreover have "halted (queue_at q (set_queue_at p cq (sy_ctx s))) = halted (queue_at q (sy_ctx s))"
      if "q \<in> set (queue_places (sy_ctx s))" for q
      using sys_progress(2,3) that
      by (cases "p = q") (auto simp: queue_at_same queue_at_other queue_progress_def)
    moreover have "own_contents contents (set_queue_at p cq (sy_ctx s)) = own_contents contents (sy_ctx s)"
      using sys_progress(3) by (intro own_contents_set_queue) (auto simp: queue_progress_def)
    ultimately show ?thesis
      using old sys_progress(1,2) by (simp add: inv_queues_def set_queue_at_places)
  next
    case (sys_gone t)
    have "inv_posts contents halted (move t WorkerGone (sy_ctx s) (sy_calls s))"
      using posts by (fastforce simp: inv_posts_def dest!: update_pcs_in)
    with old sys_gone(1) show ?thesis by (simp add: inv_queues_def)
  qed
qed

lemma rounds_mono:
  assumes "inv_rounds contents s" and "queue_groups (sy_ctx s') = queue_groups (sy_ctx s)"
    and "n_workers s' = n_workers s" and "pl_halted (sy_pool s') = pl_halted (sy_pool s)"
    and "\<And>p. seen_shut contents (sy_calls s) p \<Longrightarrow> seen_shut contents (sy_calls s') p"
    and "\<And>t. t < n_workers s \<Longrightarrow> sy_rounds s' ! t = sy_rounds s ! t \<or> sy_rounds s' ! t = AtPredicate"
  shows "inv_rounds contents s'"
proof -
  have "round_ok (seen_shut contents (sy_calls s')) (of_nat t) (queue_groups (sy_ctx s')) (sy_rounds s' ! t)"
    if "t < n_workers s'" for t
    using that assms(1,2,3,5) assms(6) [of t] round_ok_mono
    unfolding inv_rounds_def by (metis round_ok.simps(1))
  with assms show ?thesis by (auto simp: inv_rounds_def queue_places_def)
qed

lemma inv_rounds_step:
  assumes "sys_step api contents halted s s'" and "inv_rounds contents s" and "inv_queues contents halted s"
    and "inv_threads s" and "places_fit (sy_ctx s)"
  shows "inv_rounds contents s'"
proof -
  have e: "einv (sy_calls s)" and posts: "inv_posts contents halted (sy_calls s)"
    using assms(3,4) by (simp_all add: inv_queues_def inv_threads_def)
  from assms(1) show ?thesis
  proof cases
    case (sys_call e)
    note seen = call_seen [OF sys_call(2) posts \<open>einv (sy_calls s)\<close>]
    show ?thesis
    proof (cases "queue_groups (es_ctx e) = queue_groups (sy_ctx s)")
      case True
      with sys_call seen estep_frame [OF sys_call(2)] show ?thesis
        by (intro rounds_mono [OF assms(2)]) (auto simp: n_workers_def)
    next
      case False
      with estep_groups [OF sys_call(2)] have "ec_state (sy_ctx s) = Ready" by blast
      with assms(4) have none: "sy_started s = {}" "pl_halted (sy_pool s) = {}"
        "\<forall>t < n_workers s. sy_rounds s ! t = AtPredicate"
        by (auto simp: inv_threads_def inv_ready_def)
      with sys_call(1) estep_frame [OF sys_call(2)] show ?thesis by (simp add: inv_rounds_def n_workers_def)
    qed
  next
    case (sys_work a p t)
    have "pl_halted p = pl_halted (sy_pool s)"
      using pool_act_left [OF sys_work(2)] sys_work(3) by (auto split: pact.splits)
    with sys_work(1) next_rounds_simps [of t "sy_pool s" p "sy_rounds s"] show ?thesis
      by (intro rounds_mono [OF assms(2)]) (auto simp: n_workers_def)
  next
    case (sys_round t pc pc' c p)
    have place: "q \<in> set (queue_places (sy_ctx s))" if "polls (of_nat t) pc (sy_ctx s) = Some q" for q
      using polled_place [OF assms(2) sys_round(2)] sys_round(7) that by simp
    have groups: "queue_groups c = queue_groups (sy_ctx s)" "ec_n_threads c = ec_n_threads (sy_ctx s)"
      using round_go_frame [OF sys_round(9)] by (auto simp: set_queue_at_any_groups set_queue_at_threads)
    let ?seen = "seen_shut contents ((sy_calls s)\<lparr>es_ctx := c\<rparr>)"
    note seen = round_seen [OF sys_round(9) place]
    have mono: "?seen q" if "seen_shut contents (sy_calls s) q" for q using seen that by blast
    have now: "?seen q" if polled: "polls (of_nat t) pc (sy_ctx s) = Some q"
      and shut: "fst (cq_async_next api (queue_at q (sy_ctx s))) = SHUTDOWN" for q
    proof -
      obtain cq where "cq_async_next api (queue_at q (sy_ctx s)) = (SHUTDOWN, cq)"
        using shut by (metis prod.collapse)
      then have "halted (queue_at q (sy_ctx s))" using next_shutdown by blast
      with place [OF polled] assms(3) have "q \<in> es_shut (sy_calls s)" by (simp add: inv_queues_def)
      with seen polled shut show ?thesis by blast
    qed
    have all: "round_ok ?seen (of_nat u) (queue_groups (sy_ctx s)) (sy_rounds s ! u)" if "u < n_workers s" for u
      using assms(2) that mono round_ok_mono unfolding inv_rounds_def by blast
    have fit: "sizes_fit (of_nat t) (queue_groups (sy_ctx s))"
      using places_fit_sizes [OF assms(5)] sys_round(2) by (simp add: n_workers_def)
    have me: "round_ok ?seen (of_nat t) (queue_groups (sy_ctx s)) pc'"
      by (rule round_ok_go [OF sys_round(9) _ refl fit]) (use all [OF sys_round(2)] sys_round(7) now in auto)
    have len: "t < length (sy_rounds s)"
      using assms(4) sys_round(2) by (auto simp: inv_threads_def)
    have halt: "\<forall>q \<in> set (queue_places (sy_ctx s)). ?seen q" if "pl_halted p \<noteq> {}"
    proof (cases "pc' = RoundOver True")
      case True
      with me show ?thesis by (auto simp: queue_places_def)
    next
      case False
      with sys_round(10) that have "pl_halted (sy_pool s) \<noteq> {}" by simp
      with assms(2) mono show ?thesis by (simp add: inv_rounds_def)
    qed
    show ?thesis
      using all me halt groups sys_round(1) len
      by (auto simp: inv_rounds_def n_workers_def nth_list_update queue_places_def)
  next
    case (sys_progress p cq)
    have "seen_shut contents ((sy_calls s)\<lparr>es_ctx := set_queue_at p cq (sy_ctx s)\<rparr>) q"
      if "seen_shut contents (sy_calls s) q" for q
      by (rule seen_shut_set_queue [OF that sys_progress(2)])
         (use sys_progress(3) in \<open>auto simp: queue_progress_def\<close>)
    with sys_progress(1) show ?thesis
      by (intro rounds_mono [OF assms(2)])
         (auto simp: n_workers_def set_queue_at_any_groups set_queue_at_threads)
  next
    case (sys_gone t)
    then show ?thesis by (intro rounds_mono [OF assms(2)]) (auto simp: n_workers_def)
  qed
qed

lemma sys_inv_init:
  assumes "sys_init contents halted s"
  shows "sys_inv contents halted s"
proof -
  from assms obtain n cqs c callers where c: "make_context n cqs = Inr c"
    and fresh: "\<forall>cq \<in> set cqs. contents cq = {#} \<and> \<not> halted cq" and s: "s = start_sys c callers"
    by (auto simp: sys_init_def)
  from c have ctx: "ec_cqs c = cqs" "ec_servers c = []" by (auto simp: make_context_def split: if_splits)
  have own: "own_contents contents c = {#}"
    using fresh by (auto simp: own_contents_def ctx intro: sum_list_empty)
  have "\<not> halted (queue_at p c)" if "p \<in> set (queue_places c)" for p
    using queue_place_cases [OF that] fresh by (auto simp: ctx)
  with own have "inv_queues contents halted s"
    by (auto simp: inv_queues_def inv_posts_def s start_sys_def start_esys_def)
  moreover have "inv_rounds contents s"
    by (auto simp: inv_rounds_def s start_sys_def start_esys_def start_pool_def n_workers_def)
  ultimately show ?thesis using inv_threads_init [OF assms] by (simp add: sys_inv_def)
qed

lemma sys_inv_step:
  assumes "sys_inv contents halted s" and "sys_step api contents halted s s'"
  shows "sys_inv contents halted s'"
  unfolding sys_inv_def
proof
  assume "places_fit (sy_ctx s')"
  then have fit: "places_fit (sy_ctx s)" by (rule sys_step_fits [OF assms(2)])
  with assms(1) have old: "inv_threads s" "inv_queues contents halted s" "inv_rounds contents s"
    by (simp_all add: sys_inv_def)
  have "inv_threads s'"
  proof (rule inv_threads_step [OF assms(2) old(1)])
    fix t assume "t < length (pl_workers (sy_pool s))" "has_left (worker_at s t)"
    from left_seen [OF old(1,3) this] show "set (queue_places (sy_ctx s)) \<subseteq> es_shut (sy_calls s)"
      by (auto simp: seen_shut_def)
  next
    fix t p assume "t < n_workers s" "polls (of_nat t) (sy_rounds s ! t) (sy_ctx s) = Some p"
    then show "p \<in> set (queue_places (sy_ctx s))" by (rule polled_place [OF old(3)])
  qed
  with inv_queues_step [OF assms(2) old(2,3,1)] inv_rounds_step [OF assms(2) old(3,2,1) fit]
  show "inv_threads s' \<and> inv_queues contents halted s' \<and> inv_rounds contents s'" by blast
qed

end

text \<open>A context on queues that keep the contract keeps the invariant.\<close>

sublocale completion_queue \<subseteq> whole: invariant_system
  "sys_init contents halted" "sys_step api contents halted" "sys_inv contents halted"
  by unfold_locales (auto intro: sys_inv_init sys_inv_step)

context completion_queue
begin

lemma whole_parts:
  assumes "reach (sys_init contents halted) (sys_step api contents halted) s" and "places_fit (sy_ctx s)"
  shows "inv_threads s \<and> inv_queues contents halted s \<and> inv_rounds contents s"
  using whole.inv_reach [OF assms(1)] assms(2) by (simp add: sys_inv_def)

text \<open>When the context is \<open>Stopped\<close> its workers are gone, and they had seen the queues empty.\<close>

lemma stopped_whole:
  assumes "reach (sys_init contents halted) (sys_step api contents halted) s" and "places_fit (sy_ctx s)"
    and "ec_state (sy_ctx s) = Stopped" and "ec_threads (sy_ctx s) = []"
    and "\<forall>i. RunSpawning i \<notin> set (es_pcs (sy_calls s))"
  shows "(\<forall>t < n_workers s. worker_at s t = WorkerReturned \<and> at_pc t WorkerGone (sy_calls s)) \<and>
    list_all (\<lambda>w. w = WorkerReturned \<or> w = External) (pl_workers (sy_pool s)) \<and>
    set (queue_places (sy_ctx s)) \<subseteq> es_shut (sy_calls s) \<and>
    own_contents contents (sy_ctx s) = {#}"
proof -
  from whole_parts [OF assms(1,2)] have inv: "inv_threads s" "inv_queues contents halted s" "inv_rounds contents s"
    by blast+
  have "count_pcs spawning (sy_calls s) = 0"
    using assms(5) by (auto simp: count_none elim!: spawning.elims)
  then have "{..<n_workers s} \<subseteq> gone (sy_calls s)"
    using inv(1) assms(3,4) by (auto simp: inv_threads_def inv_spawn_def n_workers_def started_threads_def)
  then have all: "\<forall>t < n_workers s. worker_at s t = WorkerReturned \<and> at_pc t WorkerGone (sy_calls s)"
    using inv(1) by (auto simp: inv_threads_def gone_def)
  moreover have "list_all (\<lambda>w. w = WorkerReturned \<or> w = External) (pl_workers (sy_pool s))"
    using inv(1) all by (auto simp: inv_threads_def list_all_length)
  moreover have "set (queue_places (sy_ctx s)) \<subseteq> es_shut (sy_calls s) \<and> own_contents contents (sy_ctx s) = {#}"
    by (rule left_empty [OF inv(1,3), of 0]) (use inv(1) all in \<open>auto simp: inv_threads_def\<close>)
  ultimately show ?thesis by blast
qed

end

end
