(* ===== verification/Execution_Demo.thy ===== *)
theory Execution_Demo
  imports Execution_Events
begin

text \<open>
  A run of a whole context from its construction to \<open>Stopped\<close>: one worker, thread 0, on one
  queue; thread 2 posts an alarm, thread 1 a thunk and then runs the context, thread 2 stops
  it while both are still to be called. The worker completes the event, calls the thunk, finds
  the queue shut down and drains. And the properties of whole contexts that it is a witness of.
\<close>

section \<open>Steps of a concrete system\<close>

type_synonym ev_cq = "bool \<times> (nat, nat) cq_event list"
type_synonym ev_sys = "(nat, nat, (nat, nat) cq_event, ev_cq) sys"
type_synonym ev_pc = "(nat, nat, ev_cq) epc"

abbreviation ev_contents :: "ev_cq \<Rightarrow> (nat, nat) cq_event multiset" where
  "ev_contents \<equiv> \<lambda>(shut, es). mset es"

abbreviation ev_halted :: "ev_cq \<Rightarrow> bool" where
  "ev_halted \<equiv> \<lambda>(shut, es). shut"

abbreviation ev_reach :: "ev_sys \<Rightarrow> bool" where
  "ev_reach \<equiv> reach (sys_init ev_contents ev_halted) (sys_step fifo_cq ev_contents ev_halted)"

text \<open>Actions on the task queue, one after the other.\<close>

fun work_run :: "('t, 'd) thunk pact list \<Rightarrow> ('t, 'd, 'e, 'cq) sys \<Rightarrow> ('t, 'd, 'e, 'cq) sys option" where
  "work_run [] s = Some s"
| "work_run (a # as) s =
     (case (pool_act a (sy_pool s), actor a) of
        (Some p, Some t) \<Rightarrow>
          (if at_pc t Outside (sy_calls s) \<and> (t < n_workers s \<longrightarrow> t \<in> sy_started s) \<and> work_allowed a s
           then work_run as (s\<lparr>sy_pool := p, sy_rounds := next_rounds t (sy_pool s) p (sy_rounds s)\<rparr>)
           else None)
      | _ \<Rightarrow> None)"

lemma work_run_reach:
  "work_run as s = Some s' \<Longrightarrow> reach init (sys_step api contents halted) s \<Longrightarrow>
     reach init (sys_step api contents halted) s'"
proof (induction as arbitrary: s)
  case Nil
  then show ?case by simp
next
  case (Cons a as)
  then obtain p t where a: "pool_act a (sy_pool s) = Some p" "actor a = Some t" "at_pc t Outside (sy_calls s)"
    "t < n_workers s \<longrightarrow> t \<in> sy_started s" "work_allowed a s"
    and rest: "work_run as (s\<lparr>sy_pool := p, sy_rounds := next_rounds t (sy_pool s) p (sy_rounds s)\<rparr>) = Some s'"
    by (auto simp del: pool_act.simps work_allowed.simps split: option.splits if_splits)
  from Cons.IH [OF rest reach_step [OF Cons.prems(2) sys_work [OF a]]] show ?case .
qed

text \<open>So many steps of worker 0 in its round.\<close>

fun round_run :: "nat \<Rightarrow> ev_sys \<Rightarrow> ev_sys option" where
  "round_run 0 s = Some s"
| "round_run (Suc n) s =
     (let pc = sy_rounds s ! 0 in
      if 0 < n_workers s \<and> 0 \<in> sy_started s \<and> at_pc 0 Outside (sy_calls s) \<and> polling (worker_at s 0) \<and>
         \<not> calling (qs_threads (pl_queue (sy_pool s)) ! 0) \<and> (\<forall>b. pc \<noteq> RoundOver b)
      then (case round_go fifo_cq 0 pc (sy_ctx s) of
              (pc', c) \<Rightarrow> round_run n
                ((set_ctx c s)\<lparr>sy_pool := (if pc' = RoundOver True
                   then (sy_pool s)\<lparr>pl_halted := insert 0 (pl_halted (sy_pool s))\<rparr> else sy_pool s),
                  sy_rounds := (sy_rounds s)[0 := pc'],
                  sy_completed := sy_completed s @ taken (polls 0 pc (sy_ctx s)) pc'\<rparr>))
      else None)"

lemma round_run_reach: "round_run n s = Some s' \<Longrightarrow> ev_reach s \<Longrightarrow> ev_reach s'"
proof (induction n s rule: round_run.induct)
  case (1 s)
  then show ?case by simp
next
  case (2 n s)
  let ?pc = "sy_rounds s ! 0"
  obtain pc' c where go: "round_go fifo_cq 0 ?pc (sy_ctx s) = (pc', c)" by fastforce
  let ?p = "if pc' = RoundOver True then (sy_pool s)\<lparr>pl_halted := insert 0 (pl_halted (sy_pool s))\<rparr> else sy_pool s"
  let ?s = "(set_ctx c s)\<lparr>sy_pool := ?p, sy_rounds := (sy_rounds s)[0 := pc'],
    sy_completed := sy_completed s @ taken (polls 0 ?pc (sy_ctx s)) pc'\<rparr>"
  from 2(2) have guard: "0 < n_workers s" "0 \<in> sy_started s" "at_pc 0 Outside (sy_calls s)"
    "polling (worker_at s 0)" "\<not> calling (qs_threads (pl_queue (sy_pool s)) ! 0)" "\<forall>b. ?pc \<noteq> RoundOver b"
    and rest: "round_run n ?s = Some s'"
    by (auto simp: Let_def go split: if_splits)
  have "sys_step fifo_cq ev_contents ev_halted s ?s"
    using sys_round [OF guard(1-5) refl guard(6), of fifo_cq pc' c ?p ev_contents ev_halted] go by simp
  with 2(3) have "ev_reach ?s" by (rule reach_step)
  with 2(1) [OF refl _ go [symmetric]] guard rest show ?case by (simp add: Let_def)
qed

section \<open>The run\<close>

definition ev_context ::
  "bool \<Rightarrow> (nat, nat) cq_event list \<Rightarrow> execution_state \<Rightarrow> u32 list \<Rightarrow> u64 \<Rightarrow> u64 \<Rightarrow> (nat, nat, ev_cq) exec_context" where
  "ev_context shut es st threads index within =
     \<lparr>ec_threads = threads, ec_task_queue = make_tsq 2, ec_cqs = [(shut, es)], ec_servers = [],
      ec_notifications = [], ec_state = st, ec_next_cq_write_index = index, ec_within_cq_post = within,
      ec_n_threads = 1\<rparr>"

definition ev_calls :: "(nat, nat, ev_cq) exec_context \<Rightarrow> nat \<Rightarrow> ev_pc list \<Rightarrow> (nat, nat, ev_cq) esys" where
  "ev_calls c attached pcs =
     \<lparr>es_ctx = c, es_pcs = pcs, es_shut = (if fst (hd (ec_cqs c)) then {OwnQueue 0} else {}),
      es_attached = attached, es_late = False, es_added = [], es_ran = []\<rparr>"

abbreviation ev_state :: "(nat, nat, ev_cq) exec_context \<Rightarrow> nat \<Rightarrow> ev_pc list \<Rightarrow> (nat, nat) thunk pool \<Rightarrow> nat set
    \<Rightarrow> (nat, nat) cq_event round_pc list \<Rightarrow> (nat, nat) cq_event multiset \<Rightarrow> (nat, nat) cq_event list \<Rightarrow> ev_sys" where
  "ev_state c attached pcs p st rounds att evs \<equiv>
     \<lparr>sy_calls = ev_calls c attached pcs, sy_pool = p, sy_started = st, sy_rounds = rounds,
      sy_attached = att, sy_completed = evs\<rparr>"

lemmas ev_defs = ev_context_def ev_calls_def at_pc_def move_def step_facts queue_places_def queue_groups_def
  fifo_cq_def

abbreviation ev_alarm :: "ev_cq \<Rightarrow> ev_cq" where
  "ev_alarm \<equiv> \<lambda>(shut, es). (shut, es @ [AlarmEvent 4])"

lemma ev_alarm_attaches: "attaches ev_contents ev_halted ev_alarm"
  by (auto simp: attaches_def)

text \<open>A call of thread 1 or 2, which run code of the users throughout.\<close>

lemma ev_call:
  assumes "ev_reach (ev_state c n pcs p st rounds att evs)" and "estep fifo_cq (ev_calls c n pcs) (ev_calls c' n' pcs')"
    and "pl_workers p = [w, External, External]" and "length pcs = 3" and "pcs' ! 0 = pcs ! 0" and "length pcs' = 3"
    and "WorkerGone \<notin> {pcs' ! 1, pcs' ! 2}" and "\<forall>q \<in> set pcs'. \<forall>f. posts q = Some f \<longrightarrow> f = ev_alarm"
    and "ec_servers c' = []" and "ec_n_threads c = 1"
    and "st' = st \<union> unat ` set (ec_threads c')"
    and "att' = att + (own_contents ev_contents c' - own_contents ev_contents c)"
  shows "ev_reach (ev_state c' n' pcs' p st' rounds att' evs)"
proof -
  have "calls_allowed ev_contents ev_halted (ev_state c n pcs p st rounds att evs) (ev_calls c' n' pcs')"
    using assms(3-10) ev_alarm_attaches
    by (auto simp: calls_allowed_def in_user_code_def ev_calls_def n_workers_def numeral_3_eq_3 less_Suc_eq numeral_2_eq_2)
  from reach_step [OF assms(1) sys_call [of fifo_cq _ "ev_calls c' n' pcs'", OF _ this]] assms(2,11,12)
  show ?thesis by (simp add: started_threads_def ev_calls_def)
qed

lemma ev_start: "ev_reach (ev_state (ev_context False [] Ready [] 0 0) 0 [Outside, Outside, Outside]
    (start_pool 1 2) {} [AtPredicate, AtPredicate, AtPredicate] {#} [])"
proof (rule reach_init)
  show "sys_init ev_contents ev_halted (ev_state (ev_context False [] Ready [] 0 0) 0 [Outside, Outside, Outside]
      (start_pool 1 2) {} [AtPredicate, AtPredicate, AtPredicate] {#} [])"
    unfolding sys_init_def
    by (intro exI [of _ 1] exI [of _ "[(False, [])]"] exI [of _ "ev_context False [] Ready [] 0 0"] exI [of _ 2])
       (simp add: ev_context_def make_context_def start_sys_def start_esys_def ev_calls_def numeral_3_eq_3)
qed

text \<open>The post of the alarm, the start of the thread, and the first part of \<open>stop\<close>.\<close>

lemma ev_post:
  "estep fifo_cq (ev_calls (ev_context False [] Ready [] 0 0) 0 [Outside, Outside, Outside])
     (ev_calls (ev_context False [] Ready [] 0 1) 0 [Outside, Outside, PostCounted ev_alarm])"
  "estep fifo_cq (ev_calls (ev_context False [] Ready [] 0 1) 0 [Outside, Outside, PostCounted ev_alarm])
     (ev_calls (ev_context False [] Ready [] 0 1) 0 [Outside, Outside, PostPicking ev_alarm])"
  "estep fifo_cq (ev_calls (ev_context False [] Ready [] 0 1) 0 [Outside, Outside, PostPicking ev_alarm])
     (ev_calls (ev_context False [] Ready [] 1 1) 0 [Outside, Outside, PostAttaching ev_alarm 0])"
  "estep fifo_cq (ev_calls (ev_context False [] Ready [] 1 1) 0 [Outside, Outside, PostAttaching ev_alarm 0])
     (ev_calls (ev_context False [AlarmEvent 4] Ready [] 1 1) 1 [Outside, Outside, PostLeaving True])"
  "estep fifo_cq (ev_calls (ev_context False [AlarmEvent 4] Ready [] 1 1) 1 [Outside, Outside, PostLeaving True])
     (ev_calls (ev_context False [AlarmEvent 4] Ready [] 1 0) 1 [Outside, Outside, Outside])"
  using estep.post_begin [of 2 "ev_calls (ev_context False [] Ready [] 0 0) 0 [Outside, Outside, Outside]" _ fifo_cq ev_alarm]
    estep.post_check [of 2 ev_alarm "ev_calls (ev_context False [] Ready [] 0 1) 0 [Outside, Outside, PostCounted ev_alarm]" _ fifo_cq]
    estep.post_pick [of 2 ev_alarm "ev_calls (ev_context False [] Ready [] 0 1) 0 [Outside, Outside, PostPicking ev_alarm]" 0
      "ev_context False [] Ready [] 1 1" fifo_cq]
    estep.post_attach [of 2 ev_alarm 0 "ev_calls (ev_context False [] Ready [] 1 1) 0 [Outside, Outside, PostAttaching ev_alarm 0]" _ fifo_cq]
    estep.post_leave [of 2 True "ev_calls (ev_context False [AlarmEvent 4] Ready [] 1 1) 1 [Outside, Outside, PostLeaving True]" _ fifo_cq]
  by (simp_all add: ev_defs state_order get_next_cq_def get_cq_def)

abbreviation ev_on :: "bool \<Rightarrow> execution_state \<Rightarrow> u32 list \<Rightarrow> (nat, nat, ev_cq) exec_context" where
  "ev_on shut st threads \<equiv> ev_context shut [AlarmEvent 4] st threads 1 0"

lemma ev_run:
  "estep fifo_cq (ev_calls (ev_on False Ready []) 1 [Outside, Outside, Outside])
     (ev_calls (ev_on False Running []) 1 [Outside, RunSpawning 0, Outside])"
  "estep fifo_cq (ev_calls (ev_on False Running []) 1 [Outside, RunSpawning 0, Outside])
     (ev_calls (ev_on False Running [0]) 1 [Outside, RunSpawning 1, Outside])"
  "estep fifo_cq (ev_calls (ev_on False Running [0]) 1 [Outside, RunSpawning 1, Outside])
     (ev_calls (ev_on False Running [0]) 1 [Outside, Outside, Outside])"
  "estep fifo_cq (ev_calls (ev_on False Running [0]) 1 [Outside, Outside, Outside])
     (ev_calls (ev_on False ShuttingDown [0]) 1 [Outside, Outside, StopWaiting])"
  "estep fifo_cq (ev_calls (ev_on False ShuttingDown [0]) 1 [Outside, Outside, StopWaiting])
     (ev_calls (ev_on False ShuttingDown [0]) 1 [Outside, Outside, StopHalting 0])"
  "estep fifo_cq (ev_calls (ev_on False ShuttingDown [0]) 1 [Outside, Outside, StopHalting 0])
     (ev_calls (ev_on True ShuttingDown [0]) 1 [Outside, Outside, StopHalting 1])"
  "estep fifo_cq (ev_calls (ev_on True ShuttingDown [0]) 1 [Outside, Outside, StopHalting 1])
     (ev_calls (ev_on True ShuttingDown [0]) 1 [Outside, Outside, StopJoining 0])"
  using estep.run_win [of 1 "ev_calls (ev_on False Ready []) 1 [Outside, Outside, Outside]" _ Running fifo_cq]
    estep.run_spawn [of 1 0 "ev_calls (ev_on False Running []) 1 [Outside, RunSpawning 0, Outside]" _ fifo_cq]
    estep.run_done [of 1 1 "ev_calls (ev_on False Running [0]) 1 [Outside, RunSpawning 1, Outside]" _ fifo_cq]
    estep.stop_win [of 2 "ev_calls (ev_on False Running [0]) 1 [Outside, Outside, Outside]" _ fifo_cq]
    estep.stop_halt_start [of 2 "ev_calls (ev_on False ShuttingDown [0]) 1 [Outside, Outside, StopWaiting]" _ fifo_cq]
    estep.stop_halt [of 2 0 "ev_calls (ev_on False ShuttingDown [0]) 1 [Outside, Outside, StopHalting 0]" _ _ fifo_cq]
    estep.stop_halted [of 2 1 "ev_calls (ev_on True ShuttingDown [0]) 1 [Outside, Outside, StopHalting 1]" _ fifo_cq]
  by (simp_all add: ev_defs)

abbreviation ev_off :: "execution_state \<Rightarrow> u32 list \<Rightarrow> (nat, nat, ev_cq) exec_context" where
  "ev_off st threads \<equiv> ev_context True [] st threads 1 0"

lemma ev_stop:
  "estep fifo_cq (ev_calls (ev_off ShuttingDown [0]) 1 [WorkerGone, Outside, StopJoining 0])
     (ev_calls (ev_off ShuttingDown [0]) 1 [WorkerGone, Outside, StopJoining 1])"
  "estep fifo_cq (ev_calls (ev_off ShuttingDown [0]) 1 [WorkerGone, Outside, StopJoining 1])
     (ev_calls (ev_off ShuttingDown []) 1 [WorkerGone, Outside, StopNotifying])"
  "estep fifo_cq (ev_calls (ev_off ShuttingDown []) 1 [WorkerGone, Outside, StopNotifying])
     (ev_calls (ev_off Stopped []) 1 [WorkerGone, Outside, StopRunning []])"
  "estep fifo_cq (ev_calls (ev_off Stopped []) 1 [WorkerGone, Outside, StopRunning []])
     (ev_calls (ev_off Stopped []) 1 [WorkerGone, Outside, Outside])"
  using estep.stop_join [of 2 0 "ev_calls (ev_off ShuttingDown [0]) 1 [WorkerGone, Outside, StopJoining 0]" _ fifo_cq]
    estep.stop_joined [of 2 1 "ev_calls (ev_off ShuttingDown [0]) 1 [WorkerGone, Outside, StopJoining 1]" _ fifo_cq]
    estep.stop_notify [of 2 "ev_calls (ev_off ShuttingDown []) 1 [WorkerGone, Outside, StopNotifying]" _ _ fifo_cq]
    estep.stop_done [of 2 "ev_calls (ev_off Stopped []) 1 [WorkerGone, Outside, StopRunning []]" _ fifo_cq]
  by (simp_all add: ev_defs)

text \<open>The worker, from the shutdown of the queue to its return.\<close>

abbreviation ev_joining :: "(nat, nat, ev_cq) exec_context \<Rightarrow> (nat, nat) thunk pool \<Rightarrow> (nat, nat) cq_event round_pc
    \<Rightarrow> (nat, nat) cq_event list \<Rightarrow> ev_sys" where
  "ev_joining c p pc evs \<equiv>
     ev_state c 1 [Outside, Outside, StopJoining 0] p {0} [pc, AtPredicate, AtPredicate] {#AlarmEvent 4#} evs"

lemma start_pool_two:
  "start_pool 1 2 =
     \<lparr>pl_queue = \<lparr>qs_tsq = make_tsq 2, qs_threads = [TIdle, TIdle, TIdle], qs_accepted = {#}, qs_delivered = {#}\<rparr>,
      pl_workers = [Polling None, External, External], pl_halted = {}, pl_ran = []\<rparr>"
  by (simp add: start_pool_def start_qsys_def numeral_3_eq_3 replicate_two)

lemmas ev_work = start_pool_two [unfolded One_nat_def] pool_simps n_workers_def in_user_code_def next_rounds_def

lemmas ev_round = ev_context_def ev_calls_def at_pc_def n_workers_def set_ctx_def queue_groups_def fifo_cq_def
  visit_index_def enter_group_def no_counts_def numeral_2_eq_2 numeral_3_eq_3

lemma ev_round_1:
  assumes "pl_workers p = [Polling x, External, External]" and "\<not> calling (qs_threads (pl_queue p) ! 0)"
  shows "round_run (Suc 3) (ev_joining (ev_on True ShuttingDown [0]) p AtPredicate []) =
    Some (ev_joining (ev_off ShuttingDown [0]) p (RoundOver False) [AlarmEvent 4])"
  using assms by (simp add: ev_round Let_def)

lemma ev_round_2:
  assumes "pl_workers p = [Polling x, External, External]" and "\<not> calling (qs_threads (pl_queue p) ! 0)"
  shows "round_run 3 (ev_joining (ev_off ShuttingDown [0]) p AtPredicate evs) =
    Some (ev_joining (ev_off ShuttingDown [0]) (p\<lparr>pl_halted := insert 0 (pl_halted p)\<rparr>) (RoundOver True) evs)"
  using assms by (simp add: ev_round Let_def)

abbreviation "ev_post_acts thunk \<equiv>
  Post 1 thunk # [Inside 1, Inside 1, Inside 1, Inside 1, Inside 1, Inside 1, Inside (1::nat)]"

abbreviation "ev_pop_acts \<equiv> [Worker 0, Inside 0, Inside 0, Inside 0, Inside 0, Worker 0, Worker 0]"

abbreviation "ev_drain_acts \<equiv> [Worker 0, Inside 0, Inside 0, Inside 0, Inside 0, Inside 0, Inside 0, Inside 0,
  Inside 0, Inside 0, Worker 0, Worker 0]"

lemma ev_pools:
  assumes "ec_n_threads c0 = 1" and "ec_n_threads c = 1"
  shows "\<exists>p1 p2 p3.
     work_run (ev_post_acts thunk) (ev_state c0 1 [Outside, Outside, Outside] (start_pool 1 2) {}
         [AtPredicate, AtPredicate, AtPredicate] {#AlarmEvent 4#} []) =
       Some (ev_state c0 1 [Outside, Outside, Outside] p1 {} [AtPredicate, AtPredicate, AtPredicate] {#AlarmEvent 4#} []) \<and>
     pl_workers p1 = [Polling None, External, External] \<and> \<not> calling (qs_threads (pl_queue p1) ! 0) \<and>
     work_run ev_pop_acts (ev_joining c p1 (RoundOver False) evs) = Some (ev_joining c p2 AtPredicate evs) \<and>
     pl_workers p2 = [Polling (Some thunk), External, External] \<and> \<not> calling (qs_threads (pl_queue p2) ! 0) \<and>
     work_run ev_drain_acts (ev_joining c (p2\<lparr>pl_halted := insert 0 (pl_halted p2)\<rparr>) (RoundOver True) evs) =
       Some (ev_joining c p3 (RoundOver True) evs) \<and>
     pl_workers p3 = [WorkerReturned, External, External] \<and> pl_ran p3 = [thunk] \<and>
     list_all (\<lambda>p. \<not> calling p) (qs_threads (pl_queue p3))"
  using assms by (simp add: ev_work ev_calls_def at_pc_def all_bool_eq ex_bool_eq)

text \<open>The whole run.\<close>

lemma ev_whole_run:
  "\<exists>p. ev_reach (ev_state (ev_off Stopped []) 1 [WorkerGone, Outside, Outside] p {0}
         [RoundOver True, AtPredicate, AtPredicate] {#AlarmEvent 4#} [AlarmEvent 4]) \<and>
     pl_ran p = [thunk] \<and> list_all (\<lambda>p. \<not> calling p) (qs_threads (pl_queue p))"
proof -
  let ?rounds = "[AtPredicate, AtPredicate, AtPredicate] :: (nat, nat) cq_event round_pc list"
  obtain p1 p2 p3 where
    post: "work_run (ev_post_acts thunk) (ev_state (ev_on False Ready []) 1 [Outside, Outside, Outside] (start_pool 1 2) {}
        ?rounds {#AlarmEvent 4#} []) =
      Some (ev_state (ev_on False Ready []) 1 [Outside, Outside, Outside] p1 {} ?rounds {#AlarmEvent 4#} [])"
    and w1: "pl_workers p1 = [Polling None, External, External]" "\<not> calling (qs_threads (pl_queue p1) ! 0)"
    and pop: "work_run ev_pop_acts (ev_joining (ev_off ShuttingDown [0]) p1 (RoundOver False) [AlarmEvent 4]) =
      Some (ev_joining (ev_off ShuttingDown [0]) p2 AtPredicate [AlarmEvent 4])"
    and w2: "pl_workers p2 = [Polling (Some thunk), External, External]" "\<not> calling (qs_threads (pl_queue p2) ! 0)"
    and drain: "work_run ev_drain_acts (ev_joining (ev_off ShuttingDown [0]) (p2\<lparr>pl_halted := insert 0 (pl_halted p2)\<rparr>)
        (RoundOver True) [AlarmEvent 4]) =
      Some (ev_joining (ev_off ShuttingDown [0]) p3 (RoundOver True) [AlarmEvent 4])"
    and w3: "pl_workers p3 = [WorkerReturned, External, External]"
    and ran: "pl_ran p3 = [thunk]" "list_all (\<lambda>p. \<not> calling p) (qs_threads (pl_queue p3))"
    using ev_pools [of "ev_on False Ready []" "ev_off ShuttingDown [0]" thunk "[AlarmEvent 4]"]
    by (auto simp: ev_context_def)
  note side = ev_context_def own_contents_def start_pool_two
  have "ev_reach (ev_state (ev_on False Ready []) 1 [Outside, Outside, Outside] (start_pool 1 2) {} ?rounds {#AlarmEvent 4#} [])"
    by (rule ev_call [OF ev_call [OF ev_call [OF ev_call [OF ev_call [OF ev_start
        ev_post(1)] ev_post(2)] ev_post(3)] ev_post(4)] ev_post(5)]) (simp_all add: side)
  note r = work_run_reach [OF post this]
  have "ev_reach (ev_joining (ev_on True ShuttingDown [0]) p1 AtPredicate [])"
    by (rule ev_call [OF ev_call [OF ev_call [OF ev_call [OF ev_call [OF ev_call [OF ev_call [OF r
        ev_run(1)] ev_run(2)] ev_run(3)] ev_run(4)] ev_run(5)] ev_run(6)] ev_run(7)]) (simp_all add: side w1, auto)
  note r = round_run_reach [OF ev_round_1 [OF w1] this]
  note r = round_run_reach [OF ev_round_2 [OF w2] work_run_reach [OF pop r]]
  note r = work_run_reach [OF drain r]
  have "sys_step fifo_cq ev_contents ev_halted (ev_joining (ev_off ShuttingDown [0]) p3 (RoundOver True) [AlarmEvent 4])
      (ev_state (ev_off ShuttingDown [0]) 1 [WorkerGone, Outside, StopJoining 0] p3 {0}
        [RoundOver True, AtPredicate, AtPredicate] {#AlarmEvent 4#} [AlarmEvent 4])"
    using sys_gone [of 0 "ev_joining (ev_off ShuttingDown [0]) p3 (RoundOver True) [AlarmEvent 4]"] w3
    by (simp add: ev_calls_def ev_context_def at_pc_def n_workers_def move_def)
  note r = reach_step [OF r this]
  have "ev_reach (ev_state (ev_off Stopped []) 1 [WorkerGone, Outside, Outside] p3 {0}
      [RoundOver True, AtPredicate, AtPredicate] {#AlarmEvent 4#} [AlarmEvent 4])"
    by (rule ev_call [OF ev_call [OF ev_call [OF ev_call [OF r ev_stop(1)] ev_stop(2)] ev_stop(3)] ev_stop(4)])
       (simp_all add: side w3)
  with ran show ?thesis by blast
qed

section \<open>Properties\<close>



text \<open>
  C4. At every moment of every run of a whole context the events completed from its own queues
  and those still in the queues are exactly the events that were attached: none is completed
  twice, none that was not attached, and none disappears, while workers poll, other threads
  post and stop, and grpc makes progress.
\<close>

theorem events_conserved:
  assumes "completion_queue api contents halted"
    and "reach (sys_init contents halted) (sys_step api contents halted) s" and "places_fit (sy_ctx s)"
  shows "sy_attached s = mset (sy_completed s) + own_contents contents (sy_ctx s) \<and>
    es_attached (sy_calls s) = length (sy_completed s) + size (own_contents contents (sy_ctx s))"
  using completion_queue.whole_parts [OF assms] by (simp add: inv_queues_def)

lemma events_conserved_witness:
  "\<exists>s :: ev_sys. ev_reach s \<and> es_attached (sy_calls s) = 1 \<and> sy_completed s = [] \<and>
     size (own_contents ev_contents (sy_ctx s)) = 1"
proof -
  let ?s = "ev_state (ev_on False Ready []) 1 [Outside, Outside, Outside] (start_pool 1 2) {}
    [AtPredicate, AtPredicate, AtPredicate] {#AlarmEvent 4#} []"
  have r: "ev_reach ?s"
    by (rule ev_call [OF ev_call [OF ev_call [OF ev_call [OF ev_call [OF ev_start
        ev_post(1)] ev_post(2)] ev_post(3)] ev_post(4)] ev_post(5)])
       (simp_all add: ev_context_def own_contents_def start_pool_two)
  have fit: "places_fit (sy_ctx ?s)"
    by (simp add: places_fit_def ev_calls_def ev_context_def queue_groups_def queue_places_def)
  from events_conserved [OF fifo.completion_queue_axioms r fit] r show ?thesis
    by (intro exI [of _ ?s]) (simp add: ev_calls_def ev_context_def)
qed

text \<open>
  A worker leaves its loop only when it has found everything finished: while other threads
  act between its calls of the queues, a worker that is past its loop shows that every queue
  of the context and of its servers has been shut down and that the context's own queues
  are empty, and they stay empty.
\<close>

theorem worker_leaves_nothing_behind:
  assumes "completion_queue api contents halted"
    and "reach (sys_init contents halted) (sys_step api contents halted) s" and "places_fit (sy_ctx s)"
    and "t < n_workers s" and "has_left (worker_at s t)"
  shows "set (queue_places (sy_ctx s)) \<subseteq> es_shut (sy_calls s) \<and> own_contents contents (sy_ctx s) = {#} \<and>
    mset (sy_completed s) = sy_attached s"
proof -
  from completion_queue.whole_parts [OF assms(1-3)]
  have inv: "inv_threads s" "inv_queues contents halted s" "inv_rounds contents s" by blast+
  then have "t < length (pl_workers (sy_pool s))" using assms(4) by (auto simp: inv_threads_def)
  from left_empty [OF inv(1,3) this assms(5)] inv(2) show ?thesis by (simp add: inv_queues_def)
qed

lemma worker_leaves_nothing_behind_witness:
  "\<exists>s :: ev_sys. ev_reach s \<and> has_left (worker_at s 0) \<and> mset (sy_completed s) = sy_attached s"
proof -
  obtain p :: "(nat, nat) thunk pool" where
    r: "ev_reach (ev_state (ev_off Stopped []) 1 [WorkerGone, Outside, Outside] p {0}
      [RoundOver True, AtPredicate, AtPredicate] {#AlarmEvent 4#} [AlarmEvent 4])" (is "ev_reach ?s")
    using ev_whole_run [of "Plain 7"] by blast
  have fit: "places_fit (sy_ctx ?s)"
    by (simp add: places_fit_def ev_calls_def ev_context_def queue_groups_def queue_places_def)
  have n: "0 < n_workers ?s" by (simp add: n_workers_def ev_calls_def ev_context_def)
  have "inv_threads ?s"
    using completion_queue.whole_parts [OF fifo.completion_queue_axioms r fit] by blast
  then have "worker_at ?s 0 = WorkerReturned"
    by (auto simp: inv_threads_def gone_def at_pc_def ev_calls_def)
  then have "has_left (worker_at ?s 0)" by simp
  with worker_leaves_nothing_behind [OF fifo.completion_queue_axioms r fit n] r show ?thesis by blast
qed

end
