(* ===== verification/Completion_Events.thy ===== *)
theory Completion_Events
  imports Rpc_Status
begin

text \<open>
  The lifetimes of the three kinds of \<open>CompletionQueueEvent\<close>: \<open>detail::Alarm\<close>
  (\<open>sgrpc/detail/alarm.hpp\<close>), \<open>InflightRpc\<close> (\<open>sgrpc/detail/inflight_rpc.hpp\<close>) and
  \<open>ServerRpcHandler\<close> (\<open>sgrpc/server_rpc_handler.hpp\<close>). Each is made with \<open>new\<close>, hands its
  own address to grpc as the tag of an operation, and is called back with \<open>complete\<close> when
  the operation is done.

  The objects live on a heap of addresses. Grpc is the multiset of the tags of its
  outstanding operations; it delivers each of them once, in any order, with \<open>is_ok\<close> and the
  received request as it likes.
\<close>

section \<open>Definitions\<close>

text \<open>
  An alarm has its thunk, an rpc its completion (a \<open>std::function\<close> may be empty), a handler
  its \<open>delete_on_next_complete_\<close>.
\<close>

datatype ('d, 'f) event_object =
    AlarmObject "'d option"
  | RpcObject "'f option"
  | HandlerObject bool

text \<open>What a handler passes to \<open>response_writer_.Finish\<close>.\<close>

datatype 'resp answer = FinishOk 'resp | FinishError grpc_status_code string

datatype ('d, 'f, 'resp) event_log =
    ThunkCalled nat 'd bool
  | CompletionCalled nat 'f bool
  | Answered nat "'resp answer"

text \<open>
  \<open>LogicResultType\<close> is a response, computed at once (it may throw), or a sender, whose work
  is started on the scheduler and ends later.
\<close>

datatype ('req, 'resp) rpc_logic = Immediate "'req \<Rightarrow> exn + 'resp" | Scheduled

record ('d, 'f, 'resp) events =
  ev_heap :: "nat \<Rightarrow> ('d, 'f) event_object option"
  ev_next :: nat
  ev_ops :: "nat multiset"
  ev_work :: "nat multiset"
  ev_log :: "('d, 'f, 'resp) event_log list"

datatype event_error = UseAfterFree | EmptyCompletion

definition new_object ::
  "('d, 'f) event_object \<Rightarrow> ('d, 'f, 'resp) events \<Rightarrow> ('d, 'f, 'resp) events" where
  "new_object obj s = s\<lparr>ev_heap := (ev_heap s)(ev_next s \<mapsto> obj), ev_next := ev_next s + 1,
     ev_ops := add_mset (ev_next s) (ev_ops s)\<rparr>"

text \<open>The constructors: set the alarm, start the call and \<open>Finish\<close>, bind the request.\<close>

definition new_alarm :: "'d option \<Rightarrow> ('d, 'f, 'resp) events \<Rightarrow> ('d, 'f, 'resp) events" where
  "new_alarm thunk = new_object (AlarmObject thunk)"

definition new_rpc :: "'f option \<Rightarrow> ('d, 'f, 'resp) events \<Rightarrow> ('d, 'f, 'resp) events" where
  "new_rpc completion = new_object (RpcObject completion)"

definition new_handler :: "('d, 'f, 'resp) events \<Rightarrow> ('d, 'f, 'resp) events" where
  "new_handler = new_object (HandlerObject False)"

definition delete_object :: "nat \<Rightarrow> ('d, 'f, 'resp) events \<Rightarrow> ('d, 'f, 'resp) events" where
  "delete_object this s = s\<lparr>ev_heap := (ev_heap s)(this := None)\<rparr>"

definition log_event ::
  "('d, 'f, 'resp) event_log \<Rightarrow> ('d, 'f, 'resp) events \<Rightarrow> ('d, 'f, 'resp) events" where
  "log_event l s = s\<lparr>ev_log := ev_log s @ [l]\<rparr>"

definition complete_alarm ::
  "nat \<Rightarrow> 'd option \<Rightarrow> bool \<Rightarrow> ('d, 'f, 'resp) events \<Rightarrow> ('d, 'f, 'resp) events" where
  "complete_alarm this thunk is_ok s =
     (case thunk of None \<Rightarrow> s | Some d \<Rightarrow> log_event (ThunkCalled this d is_ok) s)"

text \<open>An exception of the completion is swallowed.\<close>

definition complete_rpc ::
  "nat \<Rightarrow> 'f option \<Rightarrow> bool \<Rightarrow> ('d, 'f, 'resp) events \<Rightarrow> event_error + ('d, 'f, 'resp) events" where
  "complete_rpc this completion is_ok s =
     (case completion of
        None \<Rightarrow> Inl EmptyCompletion
      | Some f \<Rightarrow> Inr (delete_object this (log_event (CompletionCalled this f is_ok) s)))"

definition finish ::
  "nat \<Rightarrow> 'resp answer \<Rightarrow> ('d, 'f, 'resp) events \<Rightarrow> ('d, 'f, 'resp) events" where
  "finish this answer s = log_event (Answered this answer) (s\<lparr>ev_ops := add_mset this (ev_ops s)\<rparr>)"

definition complete_handler ::
  "('req, 'resp) rpc_logic \<Rightarrow> nat \<Rightarrow> bool \<Rightarrow> bool \<Rightarrow> 'req \<Rightarrow> ('d, 'f, 'resp) events
     \<Rightarrow> ('d, 'f, 'resp) events" where
  "complete_handler logic this delete_on_next_complete is_okay request s =
     (if delete_on_next_complete \<or> \<not> is_okay then delete_object this s
      else (let s1 = new_handler s;
                s2 = s1\<lparr>ev_heap := (ev_heap s1)(this \<mapsto> HandlerObject True)\<rparr>
            in case logic of
                 Immediate f \<Rightarrow>
                   (case f request of
                      Inr response \<Rightarrow> finish this (FinishOk response) s2
                    | Inl e \<Rightarrow> finish this (FinishError INTERNAL '''') s2)
               | Scheduled \<Rightarrow> s2\<lparr>ev_work := add_mset this (ev_work s2)\<rparr>))"

text \<open>\<open>static_cast<CompletionQueueEvent*>(tag)->complete(is_ok)\<close>.\<close>

definition complete ::
  "('req, 'resp) rpc_logic \<Rightarrow> nat \<Rightarrow> bool \<Rightarrow> 'req \<Rightarrow> ('d, 'f, 'resp) events
     \<Rightarrow> event_error + ('d, 'f, 'resp) events" where
  "complete logic tag is_ok request s =
     (case ev_heap s tag of
        None \<Rightarrow> Inl UseAfterFree
      | Some (AlarmObject thunk) \<Rightarrow> Inr (complete_alarm tag thunk is_ok s)
      | Some (RpcObject completion) \<Rightarrow> complete_rpc tag completion is_ok s
      | Some (HandlerObject d) \<Rightarrow> Inr (complete_handler logic tag d is_ok request s))"

text \<open>
  The end of scheduled work: \<open>then\<close> writes the response, \<open>upon_error\<close> an error. Work that is
  stopped, or never run because the scheduler refuses it, ends with neither.
\<close>

datatype 'resp work_end = WorkValue 'resp | WorkError | WorkStopped

definition end_work ::
  "nat \<Rightarrow> 'resp work_end \<Rightarrow> ('d, 'f, 'resp) events \<Rightarrow> event_error + ('d, 'f, 'resp) events" where
  "end_work this outcome s =
     (let s1 = s\<lparr>ev_work := ev_work s - {#this#}\<rparr>
      in case outcome of
           WorkStopped \<Rightarrow> Inr s1
         | WorkValue response \<Rightarrow>
             (if ev_heap s this = None then Inl UseAfterFree
              else Inr (finish this (FinishOk response) s1))
         | WorkError \<Rightarrow>
             (if ev_heap s this = None then Inl UseAfterFree
              else Inr (finish this (FinishError UNKNOWN ''TBA'') s1)))"

text \<open>What can happen: something is posted or wired, grpc delivers an operation, work ends.\<close>

datatype ('d, 'f, 'req, 'resp) grpc_act =
    PostAlarm "'d option" | PostRpc 'f | WireHandler
  | Deliver nat bool 'req | EndWork nat "'resp work_end"

fun do_act ::
  "('req, 'resp) rpc_logic \<Rightarrow> ('d, 'f, 'req, 'resp) grpc_act \<Rightarrow> ('d, 'f, 'resp) events
     \<Rightarrow> (event_error + ('d, 'f, 'resp) events) option" where
  "do_act logic (PostAlarm thunk) s = Some (Inr (new_alarm thunk s))"
| "do_act logic (PostRpc completion) s = Some (Inr (new_rpc (Some completion) s))"
| "do_act logic WireHandler s = Some (Inr (new_handler s))"
| "do_act logic (Deliver tag is_ok request) s =
     (if tag \<in># ev_ops s
      then Some (complete logic tag is_ok request (s\<lparr>ev_ops := ev_ops s - {#tag#}\<rparr>))
      else None)"
| "do_act logic (EndWork tag outcome) s =
     (if tag \<in># ev_work s then Some (end_work tag outcome s) else None)"

definition no_events :: "('d, 'f, 'resp) events" where
  "no_events = \<lparr>ev_heap = Map.empty, ev_next = 0, ev_ops = {#}, ev_work = {#}, ev_log = []\<rparr>"

text \<open>A history of actions; \<open>Some (Inl e)\<close> if one of them goes wrong.\<close>

fun run_events ::
  "('req, 'resp) rpc_logic \<Rightarrow> ('d, 'f, 'req, 'resp) grpc_act list \<Rightarrow> ('d, 'f, 'resp) events
     \<Rightarrow> (event_error + ('d, 'f, 'resp) events) option" where
  "run_events logic [] s = Some (Inr s)"
| "run_events logic (a # as) s =
     (case do_act logic a s of
        None \<Rightarrow> None
      | Some (Inl e) \<Rightarrow> Some (Inl e)
      | Some (Inr s1) \<Rightarrow> run_events logic as s1)"

section \<open>Ownership\<close>

text \<open>How often the log has a call of a completion, and an answer, for a tag.\<close>

definition called :: "('d, 'f, 'resp) events \<Rightarrow> nat \<Rightarrow> nat" where
  "called s tag = length (filter (\<lambda>l. case l of CompletionCalled t f ok \<Rightarrow> t = tag | _ \<Rightarrow> False) (ev_log s))"

definition answered :: "('d, 'f, 'resp) events \<Rightarrow> nat \<Rightarrow> nat" where
  "answered s tag = length (filter (\<lambda>l. case l of Answered t a \<Rightarrow> t = tag | _ \<Rightarrow> False) (ev_log s))"

text \<open>
  For an object: its outstanding operations, its scheduled work, the calls of its completion
  and its answers.
\<close>

fun object_ok :: "('d, 'f) event_object option \<Rightarrow> nat \<Rightarrow> nat \<Rightarrow> nat \<Rightarrow> nat \<Rightarrow> bool" where
  "object_ok None ops work calls answers \<longleftrightarrow> ops = 0 \<and> work = 0 \<and> calls \<le> 1 \<and> answers \<le> 1"
| "object_ok (Some (AlarmObject thunk)) ops work calls answers \<longleftrightarrow>
     ops \<le> 1 \<and> work = 0 \<and> calls = 0 \<and> answers = 0"
| "object_ok (Some (RpcObject f)) ops work calls answers \<longleftrightarrow>
     f \<noteq> None \<and> ops = 1 \<and> work = 0 \<and> calls = 0 \<and> answers = 0"
| "object_ok (Some (HandlerObject d)) ops work calls answers \<longleftrightarrow>
     calls = 0 \<and> (if d then ops + work \<le> 1 \<and> answers + work \<le> 1 \<and> (ops = 1 \<longrightarrow> answers = 1)
                  else ops = 1 \<and> work = 0 \<and> answers = 0)"

definition owned :: "('d, 'f, 'resp) events \<Rightarrow> bool" where
  "owned s \<longleftrightarrow>
     (\<forall>tag. object_ok (ev_heap s tag) (count (ev_ops s) tag) (count (ev_work s) tag) (called s tag) (answered s tag)) \<and>
     (\<forall>tag \<ge> ev_next s. ev_heap s tag = None \<and> called s tag = 0 \<and> answered s tag = 0)"

lemma owned_tag:
  "owned s \<Longrightarrow> object_ok (ev_heap s tag) (count (ev_ops s) tag) (count (ev_work s) tag) (called s tag) (answered s tag)"
  by (simp add: owned_def)

lemma owned_fresh:
  "owned s \<Longrightarrow> ev_next s \<le> tag \<Longrightarrow> ev_heap s tag = None \<and> count (ev_ops s) tag = 0 \<and>
     count (ev_work s) tag = 0 \<and> called s tag = 0 \<and> answered s tag = 0"
  using owned_tag [of s tag] by (auto simp: owned_def)

lemma owned_live: "owned s \<Longrightarrow> ev_heap s tag \<noteq> None \<Longrightarrow> tag < ev_next s"
  using owned_fresh [of s tag] by (meson not_le)

lemma log_counts [simp]:
  "called (log_event l s) tag = called s tag + (case l of CompletionCalled t f ok \<Rightarrow> if t = tag then 1 else 0 | _ \<Rightarrow> 0)"
  "answered (log_event l s) tag = answered s tag + (case l of Answered t a \<Rightarrow> if t = tag then 1 else 0 | _ \<Rightarrow> 0)"
  by (simp_all add: called_def answered_def log_event_def split: event_log.split)

lemma log_frame [simp]:
  "ev_heap (log_event l s) = ev_heap s" "ev_next (log_event l s) = ev_next s"
  "ev_ops (log_event l s) = ev_ops s" "ev_work (log_event l s) = ev_work s"
  by (simp_all add: log_event_def)

lemma counts_frame [simp]:
  "called (s\<lparr>ev_heap := h\<rparr>) tag = called s tag" "answered (s\<lparr>ev_heap := h\<rparr>) tag = answered s tag"
  "called (s\<lparr>ev_next := n\<rparr>) tag = called s tag" "answered (s\<lparr>ev_next := n\<rparr>) tag = answered s tag"
  "called (s\<lparr>ev_ops := m\<rparr>) tag = called s tag" "answered (s\<lparr>ev_ops := m\<rparr>) tag = answered s tag"
  "called (s\<lparr>ev_work := m\<rparr>) tag = called s tag" "answered (s\<lparr>ev_work := m\<rparr>) tag = answered s tag"
  by (simp_all add: called_def answered_def)

lemmas event_defs = new_alarm_def new_rpc_def new_handler_def new_object_def delete_object_def
  complete_alarm_def complete_rpc_def finish_def

fun fresh_kind :: "('d, 'f) event_object \<Rightarrow> bool" where
  "fresh_kind (AlarmObject thunk) = True"
| "fresh_kind (RpcObject f) = (f \<noteq> None)"
| "fresh_kind (HandlerObject d) = (\<not> d)"

lemma owned_new:
  assumes "owned s" and "fresh_kind obj"
  shows "owned (new_object obj s)"
  unfolding owned_def
proof (intro conjI allI impI)
  fix tag
  show "object_ok (ev_heap (new_object obj s) tag) (count (ev_ops (new_object obj s)) tag)
      (count (ev_work (new_object obj s)) tag) (called (new_object obj s) tag) (answered (new_object obj s) tag)"
    using owned_tag [OF assms(1), of tag] owned_fresh [OF assms(1), of "ev_next s"] assms(2)
    by (cases "tag = ev_next s"; cases obj) (auto simp: new_object_def)
next
  fix tag assume "ev_next (new_object obj s) \<le> tag"
  with owned_fresh [OF assms(1), of tag]
  show "ev_heap (new_object obj s) tag = None" "called (new_object obj s) tag = 0"
    "answered (new_object obj s) tag = 0" by (auto simp: new_object_def)
qed

text \<open>A change at one live address.\<close>

lemma owned_at:
  assumes "owned s" and "ev_heap s this \<noteq> None"
    and "\<And>tag. tag \<noteq> this \<Longrightarrow> ev_heap s' tag = ev_heap s tag \<and> count (ev_ops s') tag = count (ev_ops s) tag \<and>
      count (ev_work s') tag = count (ev_work s) tag \<and> called s' tag = called s tag \<and> answered s' tag = answered s tag"
    and "object_ok (ev_heap s' this) (count (ev_ops s') this) (count (ev_work s') this) (called s' this) (answered s' this)"
    and "ev_next s' = ev_next s"
  shows "owned s'"
  unfolding owned_def
proof (intro conjI allI impI)
  fix tag
  show "object_ok (ev_heap s' tag) (count (ev_ops s') tag) (count (ev_work s') tag) (called s' tag) (answered s' tag)"
    using assms(3,4) owned_tag [OF assms(1), of tag] by (cases "tag = this") auto
next
  fix tag assume "ev_next s' \<le> tag"
  then have "ev_next s \<le> tag" and "tag \<noteq> this"
    using assms(5) owned_live [OF assms(1,2)] by auto
  with owned_fresh [OF assms(1)] assms(3) [of tag]
  show "ev_heap s' tag = None" "called s' tag = 0" "answered s' tag = 0" by auto
qed

lemma owned_deliver:
  assumes "owned s" and "tag \<in># ev_ops s"
  shows "\<exists>s'. complete logic tag is_ok request (s\<lparr>ev_ops := ev_ops s - {#tag#}\<rparr>) = Inr s' \<and> owned s'"
proof -
  have pos: "0 < count (ev_ops s) tag" using assms(2) by simp
  with owned_tag [OF assms(1), of tag] obtain obj where obj: "ev_heap s tag = Some obj"
    by (cases "ev_heap s tag") auto
  let ?s = "s\<lparr>ev_ops := ev_ops s - {#tag#}\<rparr>"
  note old = owned_tag [OF assms(1), of tag]
  have live: "ev_heap s tag \<noteq> None" by (simp add: obj)
  show ?thesis
  proof (cases obj)
    case (AlarmObject thunk)
    have "owned (complete_alarm tag thunk is_ok ?s)"
      by (rule owned_at [OF assms(1) live])
         (use old obj AlarmObject in \<open>auto simp: complete_alarm_def split: option.splits\<close>)
    with obj AlarmObject show ?thesis by (simp add: complete_def)
  next
    case (RpcObject f)
    with old obj obtain completion where f: "f = Some completion" by auto
    have "owned (delete_object tag (log_event (CompletionCalled tag completion is_ok) ?s))"
      by (rule owned_at [OF assms(1) live])
         (use old obj RpcObject pos in \<open>auto simp: delete_object_def\<close>)
    with obj RpcObject f show ?thesis by (simp add: complete_def complete_rpc_def)
  next
    case (HandlerObject d)
    have one: "count (ev_ops s) tag = 1" "count (ev_work s) tag = 0" "called s tag = 0"
      "answered s tag \<le> 1"
      using old obj HandlerObject pos by (cases d; force simp del: count_greater_zero_iff)+
    have next_tag: "tag \<noteq> ev_next s" using owned_live [OF assms(1) live] by simp
    show ?thesis
    proof (cases "d \<or> \<not> is_ok")
      case True
      have "owned (delete_object tag ?s)"
        by (rule owned_at [OF assms(1) live])
           (use one in \<open>simp_all add: delete_object_def\<close>)
      with obj HandlerObject True show ?thesis by (simp add: complete_def complete_handler_def)
    next
      case False
      have new: "owned (new_handler s)" unfolding new_handler_def by (rule owned_new [OF assms(1)]) simp
      have live': "ev_heap (new_handler s) tag \<noteq> None" using live by (simp add: event_defs)
      have old': "d = False" "count (ev_ops s) tag = 1" "count (ev_work s) tag = 0"
        "called s tag = 0" "answered s tag = 0" using old obj HandlerObject False by auto
      have "owned (complete_handler logic tag d is_ok request ?s)"
        by (rule owned_at [OF new live'])
           (use old' False next_tag in \<open>auto simp: complete_handler_def event_defs Let_def
             split: rpc_logic.splits sum.splits\<close>)
      with obj HandlerObject show ?thesis by (simp add: complete_def)
    qed
  qed
qed

lemma owned_end_work:
  assumes "owned s" and "tag \<in># ev_work s"
  shows "\<exists>s'. end_work tag outcome s = Inr s' \<and> owned s'"
proof -
  note old = owned_tag [OF assms(1), of tag]
  have pos: "0 < count (ev_work s) tag" using assms(2) by simp
  with old obtain obj where obj: "ev_heap s tag = Some obj" by (cases "ev_heap s tag") auto
  with old pos have handler: "obj = HandlerObject True" "count (ev_work s) tag = 1"
    "count (ev_ops s) tag = 0" "called s tag = 0" "answered s tag = 0"
    by (cases obj; force simp del: count_greater_zero_iff split: if_splits)+
  have live: "ev_heap s tag \<noteq> None" by (simp add: obj)
  have work: "owned (finish tag a (s\<lparr>ev_work := ev_work s - {#tag#}\<rparr>))" for a
    by (rule owned_at [OF assms(1) live]) (use obj handler in \<open>auto simp: finish_def\<close>)
  have stopped: "owned (s\<lparr>ev_work := ev_work s - {#tag#}\<rparr>)"
    by (rule owned_at [OF assms(1) live]) (use obj handler in auto)
  from work stopped obj show ?thesis by (cases outcome) (simp_all add: end_work_def)
qed

lemma owned_act:
  assumes "owned s" and "do_act logic a s = Some r"
  shows "\<exists>s'. r = Inr s' \<and> owned s'"
proof (cases a)
  case (PostAlarm thunk)
  with assms owned_new [OF assms(1), of "AlarmObject thunk"] show ?thesis by (auto simp: new_alarm_def)
next
  case (PostRpc f)
  with assms owned_new [OF assms(1), of "RpcObject (Some f)"] show ?thesis by (auto simp: new_rpc_def)
next
  case WireHandler
  with assms owned_new [OF assms(1), of "HandlerObject False"] show ?thesis by (auto simp: new_handler_def)
next
  case (Deliver tag ok req)
  with assms owned_deliver [OF assms(1)] show ?thesis by (auto split: if_splits)
next
  case (EndWork tag outcome)
  with assms owned_end_work [OF assms(1)] show ?thesis by (auto split: if_splits)
qed

lemma owned_none: "owned no_events"
  by (simp add: owned_def no_events_def called_def answered_def)

lemma owned_run:
  "run_events logic acts s = Some r \<Longrightarrow> owned s \<Longrightarrow> \<exists>s'. r = Inr s' \<and> owned s'"
proof (induction acts arbitrary: s)
  case Nil
  then show ?case by auto
next
  case (Cons a acts)
  from Cons.prems(1) obtain x where x: "do_act logic a s = Some x" by (auto split: option.splits)
  from owned_act [OF Cons.prems(2) x] obtain s1 where "x = Inr s1" "owned s1" by blast
  with Cons x show ?case by auto
qed

section \<open>Counting objects\<close>

definition kind_ind :: "(('d, 'f) event_object \<Rightarrow> bool) \<Rightarrow> ('d, 'f) event_object option \<Rightarrow> nat" where
  "kind_ind P x = (case x of Some obj \<Rightarrow> if P obj then 1 else 0 | None \<Rightarrow> 0)"

definition tally :: "(('d, 'f) event_object \<Rightarrow> bool) \<Rightarrow> ('d, 'f, 'resp) events \<Rightarrow> nat" where
  "tally P s = (\<Sum>t < ev_next s. kind_ind P (ev_heap s t))"

fun is_alarm :: "('d, 'f) event_object \<Rightarrow> bool" where
  "is_alarm (AlarmObject thunk) = True"
| "is_alarm _ = False"

fun is_rpc :: "('d, 'f) event_object \<Rightarrow> bool" where
  "is_rpc (RpcObject f) = True"
| "is_rpc _ = False"

fun is_listening :: "('d, 'f) event_object \<Rightarrow> bool" where
  "is_listening (HandlerObject d) = (\<not> d)"
| "is_listening _ = False"

lemma tally_new: "tally P (new_object obj s) = tally P s + kind_ind P (Some obj)"
  by (simp add: tally_def new_object_def)

lemma tally_update:
  assumes "this < ev_next s"
  shows "tally P (s\<lparr>ev_heap := (ev_heap s)(this := x)\<rparr>) + kind_ind P (ev_heap s this) = tally P s + kind_ind P x"
proof -
  have "(\<Sum>t \<in> {..<ev_next s} - {this}. kind_ind P (((ev_heap s)(this := x)) t)) =
      (\<Sum>t \<in> {..<ev_next s} - {this}. kind_ind P (ev_heap s t))"
    by (rule sum.cong) auto
  then show ?thesis
    using assms by (simp add: tally_def sum.remove [of "{..<ev_next s}" this])
qed

lemma tally_frame [simp]:
  "tally P (s\<lparr>ev_ops := m\<rparr>) = tally P s" "tally P (s\<lparr>ev_work := m\<rparr>) = tally P s"
  "tally P (log_event l s) = tally P s"
  by (simp_all add: tally_def)

definition all_calls :: "('d, 'f, 'resp) events \<Rightarrow> nat" where
  "all_calls s = length (filter (\<lambda>l. case l of CompletionCalled t f ok \<Rightarrow> True | _ \<Rightarrow> False) (ev_log s))"

lemma all_calls_simps [simp]:
  "all_calls (log_event l s) = all_calls s + (case l of CompletionCalled t f ok \<Rightarrow> 1 | _ \<Rightarrow> 0)"
  "all_calls (s\<lparr>ev_ops := m\<rparr>) = all_calls s" "all_calls (s\<lparr>ev_work := m\<rparr>) = all_calls s"
  "all_calls (s\<lparr>ev_heap := h\<rparr>) = all_calls s" "all_calls (new_object obj s) = all_calls s"
  by (simp_all add: all_calls_def log_event_def new_object_def split: event_log.split)

text \<open>What an action posts, and whether it delivers a failure.\<close>

fun posts_alarm :: "('d, 'f, 'req, 'resp) grpc_act \<Rightarrow> bool" where
  "posts_alarm (PostAlarm d) = True"
| "posts_alarm _ = False"

fun posts_rpc :: "('d, 'f, 'req, 'resp) grpc_act \<Rightarrow> bool" where
  "posts_rpc (PostRpc f) = True"
| "posts_rpc _ = False"

fun wires :: "('d, 'f, 'req, 'resp) grpc_act \<Rightarrow> bool" where
  "wires WireHandler = True"
| "wires _ = False"

fun delivers_failure :: "('d, 'f, 'req, 'resp) grpc_act \<Rightarrow> bool" where
  "delivers_failure (Deliver tag is_ok req) = (\<not> is_ok)"
| "delivers_failure _ = False"

lemma kind_ind_simps [simp]:
  "kind_ind P None = 0" "kind_ind P (Some obj) = (if P obj then 1 else 0)"
  by (simp_all add: kind_ind_def)

text \<open>The counters of the objects after one delivery.\<close>

lemma complete_tally:
  assumes "complete logic tag is_ok req s = Inr s'" and "tag < ev_next s"
  shows "tally is_alarm s' = tally is_alarm s \<and>
    tally is_rpc s' + all_calls s' = tally is_rpc s + all_calls s \<and>
    (is_ok \<longrightarrow> tally is_listening s' = tally is_listening s)"
proof -
  from assms(1) obtain obj where obj: "ev_heap s tag = Some obj"
    by (cases "ev_heap s tag") (auto simp: complete_def)
  show ?thesis
  proof (cases obj)
    case (AlarmObject thunk)
    with assms(1) obj show ?thesis by (auto simp: complete_def complete_alarm_def split: option.splits)
  next
    case (RpcObject f)
    with assms(1) obj obtain g where
      s': "s' = (log_event (CompletionCalled tag g is_ok) s)\<lparr>ev_heap := (ev_heap s)(tag := None)\<rparr>"
      by (auto simp: complete_def complete_rpc_def delete_object_def split: option.splits)
    have gone: "tally P s' + kind_ind P (Some obj) = tally P s" for P
      using tally_update [of tag "log_event (CompletionCalled tag g is_ok) s" P None] assms(2) obj
      by (simp add: s')
    have "all_calls s' = all_calls s + 1" by (simp add: s')
    with gone [of is_alarm] gone [of is_rpc] gone [of is_listening] RpcObject show ?thesis by simp
  next
    case (HandlerObject d)
    show ?thesis
    proof (cases "d \<or> \<not> is_ok")
      case True
      with assms(1) obj HandlerObject have s': "s' = s\<lparr>ev_heap := (ev_heap s)(tag := None)\<rparr>"
        by (auto simp: complete_def complete_handler_def delete_object_def)
      have "tally P s' + kind_ind P (Some obj) = tally P s" for P
        using tally_update [of tag s P None] assms(2) obj by (simp add: s')
      from this [of is_alarm] this [of is_rpc] this [of is_listening] HandlerObject True
      show ?thesis by (auto simp: s')
    next
      case False
      let ?s1 = "new_handler s"
      let ?s2 = "?s1\<lparr>ev_heap := (ev_heap ?s1)(tag \<mapsto> HandlerObject True)\<rparr>"
      have tag: "tag < ev_next ?s1" "ev_heap ?s1 tag = Some (HandlerObject d)"
        using assms(2) obj HandlerObject by (simp_all add: event_defs)
      have new: "tally P ?s1 = tally P s + kind_ind P (Some (HandlerObject False))" for P
        by (simp add: new_handler_def tally_new)
      have two: "tally P ?s2 + kind_ind P (Some (HandlerObject d)) =
          tally P s + kind_ind P (Some (HandlerObject False)) + kind_ind P (Some (HandlerObject True))" for P
        using tally_update [OF tag(1), of P "Some (HandlerObject True)"] tag(2) new [of P] by simp
      have same: "tally P s' = tally P ?s2" "all_calls s' = all_calls s" for P
        using assms(1) obj HandlerObject False
        by (auto simp: complete_def complete_handler_def finish_def Let_def new_handler_def
            split: rpc_logic.splits sum.splits)
      from two [of is_alarm] two [of is_rpc] two [of is_listening] same False show ?thesis by simp
    qed
  qed
qed

lemma do_act_tally:
  assumes "owned s" and "do_act logic a s = Some (Inr s')"
  shows "tally is_alarm s' = tally is_alarm s + (if posts_alarm a then 1 else 0) \<and>
    tally is_rpc s' + all_calls s' = tally is_rpc s + all_calls s + (if posts_rpc a then 1 else 0) \<and>
    (\<not> delivers_failure a \<longrightarrow> tally is_listening s' = tally is_listening s + (if wires a then 1 else 0))"
proof (cases a)
  case (Deliver tag is_ok req)
  with assms(2) have tag: "tag \<in># ev_ops s"
    and step: "complete logic tag is_ok req (s\<lparr>ev_ops := ev_ops s - {#tag#}\<rparr>) = Inr s'"
    by (auto split: if_splits)
  have "tag < ev_next s"
  proof (rule ccontr)
    assume "\<not> tag < ev_next s"
    with owned_fresh [OF assms(1), of tag] tag show False by (simp add: count_eq_zero_iff)
  qed
  with complete_tally [OF step] Deliver show ?thesis by simp
next
  case (EndWork tag outcome)
  with assms(2) show ?thesis
    by (cases outcome) (auto simp: end_work_def finish_def Let_def split: if_splits)
qed (use assms(2) in \<open>auto simp: new_alarm_def new_rpc_def new_handler_def tally_new\<close>)

lemma run_tally:
  assumes "run_events logic acts s = Some (Inr s')" and "owned s"
  shows "tally is_alarm s' = tally is_alarm s + length (filter posts_alarm acts) \<and>
    tally is_rpc s' + all_calls s' = tally is_rpc s + all_calls s + length (filter posts_rpc acts) \<and>
    (list_all (\<lambda>a. \<not> delivers_failure a) acts \<longrightarrow>
       tally is_listening s' = tally is_listening s + length (filter wires acts))"
  using assms
proof (induction acts arbitrary: s)
  case Nil
  then show ?case by simp
next
  case (Cons a acts)
  from Cons.prems(1) obtain x where x: "do_act logic a s = Some x" by (auto split: option.splits)
  from owned_act [OF Cons.prems(2) x] obtain s1 where s1: "x = Inr s1" "owned s1" by blast
  with Cons.prems(1) x have "run_events logic acts s1 = Some (Inr s')" by simp
  from Cons.IH [OF this s1(2)] do_act_tally [OF Cons.prems(2), of logic a s1] x s1(1)
  show ?case by auto
qed

text \<open>A handler whose work was stopped has nothing left that could come back to it.\<close>

definition stuck :: "nat \<Rightarrow> ('d, 'f, 'resp) events \<Rightarrow> bool" where
  "stuck tag s \<longleftrightarrow> ev_heap s tag = Some (HandlerObject True) \<and> count (ev_ops s) tag = 0 \<and>
     count (ev_work s) tag = 0 \<and> answered s tag = 0"

lemma stuck_complete:
  assumes "complete logic tag' is_ok req s = Inr s'" and "tag' \<noteq> tag" and "stuck tag s" and "tag \<noteq> ev_next s"
  shows "stuck tag s'"
  using assms
  by (auto simp: complete_def complete_alarm_def complete_rpc_def delete_object_def complete_handler_def
      finish_def new_handler_def new_object_def stuck_def answered_def log_event_def Let_def
      split: option.splits event_object.splits if_splits rpc_logic.splits sum.splits)

lemma stuck_act:
  assumes "owned s" and "stuck tag s" and "do_act logic a s = Some (Inr s')"
  shows "stuck tag s'"
proof -
  have next_tag: "tag \<noteq> ev_next s"
    using owned_fresh [OF assms(1), of "ev_next s"] assms(2) by (auto simp: stuck_def)
  show ?thesis
  proof (cases a)
    case (Deliver tag' is_ok req)
    with assms(3) have "tag' \<in># ev_ops s"
      and step: "complete logic tag' is_ok req (s\<lparr>ev_ops := ev_ops s - {#tag'#}\<rparr>) = Inr s'"
      by (auto split: if_splits)
    with assms(2) have "tag' \<noteq> tag" by (auto simp: stuck_def count_eq_zero_iff)
    with step show ?thesis
      by (rule stuck_complete) (use assms(2) next_tag \<open>tag' \<noteq> tag\<close> in \<open>auto simp: stuck_def\<close>)
  next
    case (EndWork tag' outcome)
    with assms(3) have "tag' \<in># ev_work s" and step: "end_work tag' outcome s = Inr s'"
      by (auto split: if_splits)
    with assms(2) have "tag' \<noteq> tag" by (auto simp: stuck_def count_eq_zero_iff)
    with step assms(2) show ?thesis
      by (cases outcome) (auto simp: end_work_def finish_def stuck_def Let_def split: if_splits)
  qed (use assms(2,3) next_tag in \<open>auto simp: stuck_def event_defs answered_def\<close>)
qed

lemma stuck_run:
  assumes "run_events logic acts s = Some (Inr s')" and "owned s" and "stuck tag s"
  shows "stuck tag s'"
  using assms
proof (induction acts arbitrary: s)
  case Nil
  then show ?case by simp
next
  case (Cons a acts)
  from Cons.prems(1) obtain x where x: "do_act logic a s = Some x" by (auto split: option.splits)
  from owned_act [OF Cons.prems(2) x] obtain s1 where s1: "x = Inr s1" "owned s1" by blast
  with Cons.prems(1) x have "run_events logic acts s1 = Some (Inr s')" by simp
  with Cons.IH [OF this s1(2)] stuck_act [OF Cons.prems(2,3), of logic a s1] x s1(1) show ?case by simp
qed

text \<open>What immediate logic answers, and that it leaves no work behind.\<close>

definition answer_of :: "('req \<Rightarrow> exn + 'resp) \<Rightarrow> 'req \<Rightarrow> 'resp answer" where
  "answer_of f req = (case f req of Inr response \<Rightarrow> FinishOk response | Inl e \<Rightarrow> FinishError INTERNAL '''')"

definition finishing :: "('d, 'f, 'resp) events \<Rightarrow> bool" where
  "finishing s \<longleftrightarrow> ev_work s = {#} \<and>
     (\<forall>tag. ev_heap s tag = Some (HandlerObject True) \<longrightarrow> 0 < count (ev_ops s) tag)"

lemma immediate_complete:
  assumes "complete (Immediate f) tag is_ok req s = Inr s'" and "ev_work s = {#}"
    and "\<forall>t. ev_heap s t = Some (HandlerObject True) \<longrightarrow> t = tag \<or> 0 < count (ev_ops s) t"
  shows "finishing s' \<and>
    (\<forall>t a. Answered t a \<in> set (ev_log s') \<longrightarrow>
       Answered t a \<in> set (ev_log s) \<or> (t = tag \<and> is_ok \<and> a = answer_of f req))"
  using assms
  by (auto simp: complete_def complete_alarm_def complete_rpc_def delete_object_def complete_handler_def
      finish_def new_handler_def new_object_def log_event_def answer_of_def finishing_def Let_def
      split: option.splits event_object.splits if_splits sum.splits)

lemma immediate_act:
  assumes "do_act (Immediate f) a s = Some (Inr s')" and "finishing s"
  shows "finishing s' \<and>
    (\<forall>t x. Answered t x \<in> set (ev_log s') \<longrightarrow>
       Answered t x \<in> set (ev_log s) \<or> (\<exists>req. a = Deliver t True req \<and> x = answer_of f req))"
proof (cases a)
  case (Deliver tag is_ok req)
  with assms(1) have step: "complete (Immediate f) tag is_ok req (s\<lparr>ev_ops := ev_ops s - {#tag#}\<rparr>) = Inr s'"
    by (auto split: if_splits)
  have others: "t = tag \<or> 0 < count (ev_ops s - {#tag#}) t"
    if "ev_heap s t = Some (HandlerObject True)" for t
    using assms(2) that by (cases "t = tag") (auto simp: finishing_def)
  show ?thesis
    using immediate_complete [OF step] others assms(2) Deliver
    by (simp add: finishing_def del: count_greater_zero_iff count_diff) blast
qed (use assms in \<open>auto simp: event_defs finishing_def split: if_splits\<close>)

lemma immediate_run:
  assumes "run_events (Immediate f) acts s = Some (Inr s')" and "finishing s"
  shows "finishing s' \<and>
    (\<forall>t x. Answered t x \<in> set (ev_log s') \<longrightarrow>
       Answered t x \<in> set (ev_log s) \<or> (\<exists>req. Deliver t True req \<in> set acts \<and> x = answer_of f req))"
  using assms
proof (induction acts arbitrary: s)
  case Nil
  then show ?case by simp
next
  case (Cons a acts)
  then obtain s1 where s1: "do_act (Immediate f) a s = Some (Inr s1)"
    "run_events (Immediate f) acts s1 = Some (Inr s')" by (auto split: option.splits sum.splits)
  note first = immediate_act [OF s1(1) Cons.prems(2)]
  note rest = Cons.IH [OF s1(2) conjunct1 [OF first]]
  show ?case
  proof (intro conjI allI impI)
    show "finishing s'" using rest by simp
  next
    fix t x assume "Answered t x \<in> set (ev_log s')"
    with rest have "Answered t x \<in> set (ev_log s1) \<or> (\<exists>req. Deliver t True req \<in> set acts \<and> x = answer_of f req)"
      by blast
    with first show "Answered t x \<in> set (ev_log s) \<or>
        (\<exists>req. Deliver t True req \<in> set (a # acts) \<and> x = answer_of f req)" by auto
  qed
qed

section \<open>Properties\<close>

text \<open>
  C12. The objects that grpc calls back are alive: whatever is posted and wired, and in
  whatever order and with whatever success grpc delivers the operations and scheduled work
  ends, no delivery uses a freed object or finds an empty completion, an rpc always has
  exactly one operation outstanding, and no completion is called and no handler answers
  twice.
\<close>

theorem completion_events_safe:
  assumes "run_events logic acts no_events = Some r"
  shows "\<exists>s. r = Inr s \<and>
    (\<forall>tag. tag \<in># ev_ops s + ev_work s \<longrightarrow> ev_heap s tag \<noteq> None) \<and>
    (\<forall>tag f. ev_heap s tag = Some (RpcObject f) \<longrightarrow> count (ev_ops s) tag = 1) \<and>
    (\<forall>tag. called s tag \<le> 1 \<and> answered s tag \<le> 1)"
proof -
  from owned_run [OF assms owned_none] obtain s where s: "r = Inr s" "owned s" by blast
  have "called s tag \<le> 1 \<and> answered s tag \<le> 1" for tag
    using owned_tag [OF s(2), of tag]
    by (cases "ev_heap s tag" rule: option.exhaust; (cases "the (ev_heap s tag)")?) (auto split: if_splits)
  moreover have "ev_heap s tag \<noteq> None" if "tag \<in># ev_ops s + ev_work s" for tag
    using owned_tag [OF s(2), of tag] that by (cases "ev_heap s tag") (auto simp: count_eq_zero_iff)
  moreover have "count (ev_ops s) tag = 1" if "ev_heap s tag = Some (RpcObject f)" for tag f
    using owned_tag [OF s(2), of tag] that by simp
  ultimately show ?thesis using s(1) by blast
qed

lemma completion_events_witness:
  "\<exists>r s. run_events (Immediate (\<lambda>n. Inr (n + 1))) [WireHandler, PostRpc CHR ''f'', Deliver 0 True 4, Deliver 1 False 0]
       (no_events :: (char, char, nat) events) = Some r \<and> r = Inr s \<and> (\<forall>tag. answered s tag \<le> 1)"
proof -
  let ?acts = "[WireHandler, PostRpc CHR ''f'', Deliver 0 True 4, Deliver 1 False 0]
    :: (char, char, nat, nat) grpc_act list"
  obtain r where r: "run_events (Immediate (\<lambda>n. Inr (n + 1))) ?acts no_events = Some r"
    by (simp add: no_events_def event_defs complete_def complete_handler_def log_event_def Let_def)
  from completion_events_safe [OF r] r show ?thesis by blast
qed

text \<open>
  C35. When grpc has nothing outstanding, every rpc that was posted has had its completion
  called and is freed and no handler is left, but for those whose scheduled work was
  stopped; but every alarm ever posted is still on the heap: an alarm is never deleted, by
  its own \<open>complete\<close> or by anything else.
\<close>

theorem alarms_leak:
  assumes "run_events logic acts no_events = Some (Inr s)"
  shows "tally is_alarm s = length (filter posts_alarm acts) \<and>
    (ev_ops s = {#} \<longrightarrow>
       all_calls s = length (filter posts_rpc acts) \<and>
       (\<forall>tag f. ev_heap s tag \<noteq> Some (RpcObject f) \<and> ev_heap s tag \<noteq> Some (HandlerObject False)))"
proof -
  from owned_run [OF assms owned_none] have own: "owned s" by auto
  from run_tally [OF assms owned_none] have t: "tally is_alarm s = length (filter posts_alarm acts)"
    "tally is_rpc s + all_calls s = length (filter posts_rpc acts)"
    by (simp_all add: tally_def all_calls_def no_events_def)
  have none: "ev_heap s tag \<noteq> Some (RpcObject f) \<and> ev_heap s tag \<noteq> Some (HandlerObject False)"
    if "ev_ops s = {#}" for tag f
    using owned_tag [OF own, of tag] that by auto
  have "tally is_rpc s = 0" if "ev_ops s = {#}"
    using none [OF that] by (auto simp: tally_def kind_ind_def split: option.splits elim!: is_rpc.elims)
  with t none show ?thesis by auto
qed

lemma alarms_leak_witness:
  "\<exists>s :: (char, char, nat) events.
     run_events (Immediate Inr) [PostAlarm (Some CHR ''d''), Deliver 0 True (4 :: nat)] no_events = Some (Inr s) \<and>
     ev_ops s = {#} \<and> tally is_alarm s = 1"
proof -
  let ?acts = "[PostAlarm (Some CHR ''d''), Deliver 0 True 4] :: (char, char, nat, nat) grpc_act list"
  obtain s :: "(char, char, nat) events" where s: "run_events (Immediate Inr) ?acts no_events = Some (Inr s)"
    and ops: "ev_ops s = {#}"
    by (simp add: no_events_def event_defs complete_def log_event_def)
  from alarms_leak [OF s] s ops show ?thesis by auto
qed



text \<open>
  With logic that is a sender, a request whose work ends as stopped, or never runs
  because the context refuses it, is never answered: whatever happens afterwards, its
  handler stays on the heap and nothing is ever written to the client.
\<close>

theorem stopped_work_never_answers:
  assumes "run_events Scheduled (WireHandler # Deliver 0 True req # EndWork 0 WorkStopped # acts) no_events
      = Some (Inr s)"
  shows "answered s 0 = 0 \<and> ev_heap s 0 = Some (HandlerObject True)"
proof -
  let ?first = "[WireHandler, Deliver 0 True req, EndWork 0 WorkStopped]"
  obtain s3 where s3: "run_events Scheduled ?first no_events = Some (Inr s3)" and stuck: "stuck 0 s3"
    and rest: "run_events Scheduled acts s3 = Some (Inr s)"
    using assms
    by (auto simp: no_events_def event_defs complete_def complete_handler_def end_work_def
        stuck_def answered_def Let_def)
  from owned_run [OF s3 owned_none] have "owned s3" by auto
  from stuck_run [OF rest this stuck] show ?thesis by (simp add: stuck_def)
qed

lemma stopped_work_witness:
  "\<exists>s :: (char, char, nat) events.
     run_events Scheduled [WireHandler, Deliver 0 True (4 :: nat), EndWork 0 WorkStopped, Deliver 1 False 0] no_events
       = Some (Inr s) \<and> answered s 0 = 0"
proof -
  obtain s :: "(char, char, nat) events" where s: "run_events Scheduled
      [WireHandler, Deliver 0 True (4 :: nat), EndWork 0 WorkStopped, Deliver 1 False 0] no_events = Some (Inr s)"
    by (simp add: no_events_def event_defs complete_def complete_handler_def end_work_def Let_def)
  from stopped_work_never_answers [OF s] s show ?thesis by auto
qed

end
