(* ===== verification/Posted_Objects.thy ===== *)
theory Posted_Objects
  imports Completion_Events
begin

text \<open>
  What becomes of the alarms and rpcs that are posted to a completion queue, among the handlers
  of servers on the same heap: their own thunk or completion is called once, when their
  operation is done.
\<close>

section \<open>Definitions\<close>

fun posted_object :: "('a, 'f, 'req, 'resp) grpc_act \<Rightarrow> ('a, 'f) event_object option" where
  "posted_object (PostAlarm thunk) = Some (AlarmObject thunk)"
| "posted_object (PostRpc completion) = Some (RpcObject (Some completion))"
| "posted_object act = None"

fun is_handler :: "('a, 'f) event_object option \<Rightarrow> bool" where
  "is_handler (Some (HandlerObject b)) = True"
| "is_handler obj = False"

text \<open>What happens on the queues of the servers: requests and answers.\<close>

fun server_act :: "('a, 'f, 'req, 'resp) grpc_act \<Rightarrow> ('a, 'f, 'resp) events \<Rightarrow> bool" where
  "server_act WireHandler s = True"
| "server_act (Deliver tag is_ok request) s = is_handler (ev_heap s tag)"
| "server_act (EndWork tag outcome) s = True"
| "server_act act s = False"

section \<open>What becomes of a posted object\<close>

definition thunk_calls :: "('a, 'f, 'resp) events \<Rightarrow> nat \<Rightarrow> nat" where
  "thunk_calls s tag = length (filter (\<lambda>l. case l of ThunkCalled t d ok \<Rightarrow> t = tag | _ \<Rightarrow> False) (ev_log s))"

text \<open>
  An rpc is alive until its own completion has been called, once; an alarm calls its own
  thunk when its operation is done.
\<close>

fun posted_ok :: "('a, 'f, 'resp) events \<Rightarrow> nat \<times> ('a, 'f) event_object \<Rightarrow> bool" where
  "posted_ok s (tag, RpcObject completion) =
     (\<exists>f. completion = Some f \<and>
        (ev_heap s tag = Some (RpcObject (Some f)) \<or>
         ev_heap s tag = None \<and> called s tag = 1 \<and> (\<exists>ok. CompletionCalled tag f ok \<in> set (ev_log s))))"
| "posted_ok s (tag, AlarmObject thunk) =
     (ev_heap s tag = Some (AlarmObject thunk) \<and>
      (\<forall>d. thunk = Some d \<longrightarrow> thunk_calls s tag + count (ev_ops s) tag = 1 \<and>
         (0 < thunk_calls s tag \<longrightarrow> (\<exists>ok. ThunkCalled tag d ok \<in> set (ev_log s)))))"
| "posted_ok s (tag, HandlerObject b) = False"

definition posted_done :: "('a, 'f, 'resp) events \<Rightarrow> nat \<times> ('a, 'f) event_object \<Rightarrow> bool" where
  "posted_done s p \<longleftrightarrow>
     (case p of
        (tag, RpcObject completion) \<Rightarrow> ev_heap s tag = None \<and> called s tag = 1 \<and>
          (\<exists>f ok. completion = Some f \<and> CompletionCalled tag f ok \<in> set (ev_log s))
      | (tag, AlarmObject thunk) \<Rightarrow>
          (\<forall>d. thunk = Some d \<longrightarrow> thunk_calls s tag = 1 \<and> (\<exists>ok. ThunkCalled tag d ok \<in> set (ev_log s)))
      | (tag, HandlerObject b) \<Rightarrow> False)"

lemma thunk_calls_simps [simp]:
  "thunk_calls (log_event l s) tag = thunk_calls s tag + (case l of ThunkCalled t d ok \<Rightarrow> if t = tag then 1 else 0 | _ \<Rightarrow> 0)"
  "thunk_calls (s\<lparr>ev_heap := h\<rparr>) tag = thunk_calls s tag" "thunk_calls (s\<lparr>ev_ops := m\<rparr>) tag = thunk_calls s tag"
  "thunk_calls (s\<lparr>ev_next := n\<rparr>) tag = thunk_calls s tag" "thunk_calls (s\<lparr>ev_work := m\<rparr>) tag = thunk_calls s tag"
  by (simp_all add: thunk_calls_def log_event_def split: event_log.split)

text \<open>Thunks are called through alarms only.\<close>

definition calls_past :: "('a, 'f, 'resp) events \<Rightarrow> bool" where
  "calls_past s \<longleftrightarrow> (\<forall>tag \<ge> ev_next s. thunk_calls s tag = 0)"

lemma log_event_set [simp]: "set (ev_log (log_event l s)) = insert l (set (ev_log s))"
  by (simp add: log_event_def)

text \<open>The objects at other addresses do not notice.\<close>

definition same_at :: "nat \<Rightarrow> ('a, 'f, 'resp) events \<Rightarrow> ('a, 'f, 'resp) events \<Rightarrow> bool" where
  "same_at tag s s' \<longleftrightarrow> ev_heap s' tag = ev_heap s tag \<and> count (ev_ops s') tag = count (ev_ops s) tag \<and>
     called s' tag = called s tag \<and> thunk_calls s' tag = thunk_calls s tag \<and> set (ev_log s) \<subseteq> set (ev_log s')"

lemma posted_ok_same: "posted_ok s (tag, obj) \<Longrightarrow> same_at tag s s' \<Longrightarrow> posted_ok s' (tag, obj)"
  by (cases obj) (auto simp: same_at_def)

lemma same_at_new: "tag \<noteq> ev_next s \<Longrightarrow> same_at tag s (new_object obj s)"
  by (simp add: same_at_def new_object_def called_def thunk_calls_def)

lemma same_at_complete:
  assumes "complete logic tag' is_ok req (s\<lparr>ev_ops := ev_ops s - {#tag'#}\<rparr>) = Inr s'"
    and "tag \<noteq> tag'" and "tag \<noteq> ev_next s"
  shows "same_at tag s s'"
  using assms
  by (auto simp: complete_def complete_alarm_def complete_rpc_def delete_object_def complete_handler_def
      finish_def new_handler_def new_object_def same_at_def Let_def
      split: option.splits event_object.splits if_splits rpc_logic.splits sum.splits)

lemma same_at_end_work: "end_work tag' outcome s = Inr s' \<Longrightarrow> tag \<noteq> tag' \<Longrightarrow> same_at tag s s'"
  by (cases outcome) (auto simp: end_work_def finish_def same_at_def Let_def split: if_splits)

lemma posted_known:
  assumes "owned s" and "posted_ok s (tag, obj)"
  shows "tag < ev_next s"
proof (rule ccontr)
  assume "\<not> tag < ev_next s"
  with owned_fresh [OF assms(1), of tag] have "ev_heap s tag = None" "called s tag = 0" by simp_all
  with assms(2) show False by (cases obj) auto
qed

lemma live_op:
  assumes "owned s" and "tag \<in># ev_ops s"
  shows "tag < ev_next s \<and> ev_heap s tag \<noteq> None"
proof -
  have "ev_heap s tag \<noteq> None"
    using owned_tag [OF assms(1), of tag] assms(2) by (cases "ev_heap s tag") (auto simp: count_eq_zero_iff)
  with owned_live [OF assms(1)] show ?thesis by blast
qed

lemma live_work:
  assumes "owned s" and "tag \<in># ev_work s"
  shows "tag < ev_next s \<and> is_handler (ev_heap s tag)"
proof -
  have "is_handler (ev_heap s tag)"
    using owned_tag [OF assms(1), of tag] assms(2)
    by (cases "ev_heap s tag"; cases "the (ev_heap s tag)") (auto simp: count_eq_zero_iff)
  moreover from this have "ev_heap s tag \<noteq> None" by (cases "ev_heap s tag") simp_all
  ultimately show ?thesis using owned_live [OF assms(1)] by blast
qed

text \<open>Every action keeps it.\<close>

lemma posted_delivered:
  assumes "owned s" and "posted_ok s (tag, obj)" and "tag \<in># ev_ops s"
    and "complete logic tag is_ok req (s\<lparr>ev_ops := ev_ops s - {#tag#}\<rparr>) = Inr s'"
  shows "posted_ok s' (tag, obj)"
proof (cases obj)
  case (RpcObject completion)
  with assms(2) live_op [OF assms(1,3)] obtain f where f: "completion = Some f" "ev_heap s tag = Some (RpcObject (Some f))"
    by auto
  with owned_tag [OF assms(1), of tag] have "called s tag = 0" by simp
  with f assms(4) RpcObject show ?thesis by (auto simp: complete_def complete_rpc_def delete_object_def)
next
  case (AlarmObject thunk)
  with assms(2,3) have "ev_heap s tag = Some (AlarmObject thunk)"
    "thunk = Some d \<Longrightarrow> thunk_calls s tag = 0 \<and> count (ev_ops s) tag = 1" for d
    by (auto simp: count_greater_zero_iff [symmetric] simp del: count_greater_zero_iff)
  with assms(4) AlarmObject show ?thesis by (auto simp: complete_def complete_alarm_def split: option.splits)
qed (use assms(2) in simp)

lemma posted_act:
  assumes "owned s" and "posted_ok s (tag, obj)" and "do_act logic act s = Some (Inr s')"
  shows "posted_ok s' (tag, obj)"
proof -
  note known = posted_known [OF assms(1,2)]
  note keep = posted_ok_same [OF assms(2)]
  show ?thesis
  proof (cases act)
    case (Deliver tag' is_ok req)
    with assms(3) have del: "tag' \<in># ev_ops s" "complete logic tag' is_ok req (s\<lparr>ev_ops := ev_ops s - {#tag'#}\<rparr>) = Inr s'"
      by (auto split: if_splits)
    show ?thesis
    proof (cases "tag = tag'")
      case True
      then show ?thesis using posted_delivered [OF assms(1,2), of logic is_ok req s'] del by simp
    next
      case False
      with known same_at_complete [OF del(2)] keep show ?thesis by blast
    qed
  next
    case (EndWork tag' outcome)
    with assms(3) have work: "tag' \<in># ev_work s" "end_work tag' outcome s = Inr s'" by (auto split: if_splits)
    have "tag \<noteq> tag'" using live_work [OF assms(1) work(1)] assms(2) by (cases obj) auto
    with same_at_end_work [OF work(2)] keep show ?thesis by blast
  qed (use assms(3) known in \<open>auto simp: new_alarm_def new_rpc_def new_handler_def intro!: keep same_at_new\<close>)
qed

lemma calls_past_act:
  assumes "owned s" and "calls_past s" and "do_act logic act s = Some (Inr s')"
  shows "calls_past s'"
proof (cases act)
  case (Deliver tag' is_ok req)
  with assms(3) have del: "tag' \<in># ev_ops s" "complete logic tag' is_ok req (s\<lparr>ev_ops := ev_ops s - {#tag'#}\<rparr>) = Inr s'"
    by (auto split: if_splits)
  have "tag' < ev_next s" using live_op [OF assms(1) del(1)] by simp
  moreover from del(2) have "ev_next s \<le> ev_next s'"
    by (auto simp: complete_def complete_alarm_def complete_rpc_def complete_handler_def event_defs Let_def
        split: option.splits event_object.splits if_splits rpc_logic.splits sum.splits)
  moreover have "thunk_calls s' tag = thunk_calls s tag" if "tag \<noteq> tag'" for tag
    using del(2) that
    by (auto simp: complete_def complete_alarm_def complete_rpc_def complete_handler_def event_defs Let_def
        split: option.splits event_object.splits if_splits rpc_logic.splits sum.splits)
  ultimately show ?thesis using assms(2) by (simp add: calls_past_def)
next
  case (EndWork tag' outcome)
  with assms(2,3) show ?thesis
    by (cases outcome) (auto simp: end_work_def finish_def calls_past_def Let_def split: if_splits)
qed (use assms(2,3) in \<open>auto simp: event_defs calls_past_def thunk_calls_def\<close>)

section \<open>The operations of the context's own queues\<close>

definition own_ops :: "('a, 'f, 'resp) events \<Rightarrow> nat multiset" where
  "own_ops s = filter_mset (\<lambda>tag. \<not> is_handler (ev_heap s tag)) (ev_ops s)"

lemma own_ops_new:
  assumes "owned s" and "obj \<noteq> HandlerObject False \<Longrightarrow> \<not> is_handler (Some obj)"
  shows "own_ops (new_object obj s) = (if is_handler (Some obj) then own_ops s else add_mset (ev_next s) (own_ops s))"
  using owned_fresh [OF assms(1), of "ev_next s"]
  by (auto intro!: multiset_eqI simp: own_ops_def new_object_def)

lemma own_ops_server:
  assumes "owned s" and "server_act act s" and "do_act logic act s = Some (Inr s')"
  shows "own_ops s' = own_ops s"
proof -
  have own: "owned s'" using owned_act [OF assms(1,3)] by blast
  have at: "own_ops s' = own_ops s"
    if "is_handler (ev_heap s tag')" "ev_heap s' tag' = None \<or> is_handler (ev_heap s' tag')"
      "\<And>tag. tag \<noteq> tag' \<Longrightarrow> tag \<noteq> ev_next s \<Longrightarrow> same_at tag s s'"
      "ev_heap s' (ev_next s) = None \<or> is_handler (ev_heap s' (ev_next s))" for tag'
  proof (rule multiset_eqI)
    fix tag
    have none: "count (ev_ops s') t = 0" if "ev_heap s' t = None" for t
      using owned_tag [OF own, of t] that by simp
    show "count (own_ops s') tag = count (own_ops s) tag"
      using that none owned_fresh [OF assms(1), of "ev_next s"]
      by (cases "tag = tag' \<or> tag = ev_next s") (auto simp: own_ops_def same_at_def)
  qed
  show ?thesis
  proof (cases act)
    case (Deliver tag' is_ok req)
    with assms(2,3) have del: "is_handler (ev_heap s tag')"
      "complete logic tag' is_ok req (s\<lparr>ev_ops := ev_ops s - {#tag'#}\<rparr>) = Inr s'" and live: "tag' \<in># ev_ops s"
      by (auto split: if_splits)
    have "tag' < ev_next s" "ev_heap s (ev_next s) = None"
      using live_op [OF assms(1) live] owned_fresh [OF assms(1), of "ev_next s"] by simp_all
    then show ?thesis
      using del same_at_complete [OF del(2)]
      by (intro at [of tag'])
         (auto simp: complete_def complete_handler_def event_defs Let_def elim!: is_handler.elims
           split: if_splits rpc_logic.splits sum.splits)
  next
    case (EndWork tag' outcome)
    with assms(3) have work: "tag' \<in># ev_work s" "end_work tag' outcome s = Inr s'" by (auto split: if_splits)
    have h: "is_handler (ev_heap s tag')" using live_work [OF assms(1) work(1)] by simp
    have same: "ev_heap s' = ev_heap s"
      using work(2) by (cases outcome) (auto simp: end_work_def finish_def Let_def split: if_splits)
    show ?thesis
      using h same same_at_end_work [OF work(2)] owned_fresh [OF assms(1), of "ev_next s"] by (intro at [of tag']) auto
  next
    case WireHandler
    with assms(3) own_ops_new [OF assms(1), of "HandlerObject False"] show ?thesis by (auto simp: new_handler_def)
  qed (use assms(2) in simp_all)
qed

lemma own_ops_deliver:
  assumes "owned s" and "tag \<in># own_ops s" and "do_act logic (Deliver tag is_ok req) s = Some (Inr s')"
  shows "own_ops s' = own_ops s - {#tag#}"
proof (rule multiset_eqI)
  fix tag'
  have own: "owned s'" using owned_act [OF assms(1,3)] by blast
  have live: "tag \<in># ev_ops s" and kind: "\<not> is_handler (ev_heap s tag)" using assms(2) by (auto simp: own_ops_def)
  with assms(3) have step: "complete logic tag is_ok req (s\<lparr>ev_ops := ev_ops s - {#tag#}\<rparr>) = Inr s'"
    by (auto split: if_splits)
  show "count (own_ops s') tag' = count (own_ops s - {#tag#}) tag'"
  proof (cases "tag' = tag")
    case True
    from step kind live_op [OF assms(1) live]
    have "(ev_heap s' tag = ev_heap s tag \<or> ev_heap s' tag = None) \<and> ev_ops s' = ev_ops s - {#tag#}"
      by (auto simp: complete_def complete_alarm_def complete_rpc_def delete_object_def
          split: event_object.splits option.splits)
    moreover have "ev_heap s' tag = None \<Longrightarrow> count (ev_ops s') tag = 0"
      using owned_tag [OF own, of tag] by simp
    ultimately show ?thesis using True kind by (auto simp: own_ops_def)
  next
    case False
    have "ev_next s' = ev_next s" "ev_heap s' tag' = ev_heap s tag'" "count (ev_ops s') tag' = count (ev_ops s) tag'"
      using step kind live_op [OF assms(1) live] False
      by (auto simp: complete_def complete_alarm_def complete_rpc_def delete_object_def
          split: event_object.splits option.splits)
    with False show ?thesis by (simp add: own_ops_def)
  qed
qed

lemma own_op_delivered:
  assumes "owned s" and "tag \<in># own_ops s"
  shows "\<exists>s'. do_act logic (Deliver tag is_ok req) s = Some (Inr s')"
  using owned_deliver [OF assms(1), of tag logic is_ok req] assms(2) by (auto simp: own_ops_def)

lemma posted_fresh:
  assumes "owned s" and "calls_past s" and "posted_object act = Some obj" and "do_act logic act s = Some (Inr s')"
  shows "posted_ok s' (ev_next s, obj) \<and> own_ops s' = add_mset (ev_next s) (own_ops s)"
proof -
  have s': "s' = new_object obj s" and kind: "\<not> is_handler (Some obj)" and rpc: "obj \<noteq> RpcObject None"
    using assms(3,4) by (cases act; auto simp: new_alarm_def new_rpc_def)+
  have "thunk_calls s (ev_next s) = 0" using assms(2) by (simp add: calls_past_def)
  then have "posted_ok s' (ev_next s, obj)"
    using owned_fresh [OF assms(1), of "ev_next s"] kind rpc
    by (cases obj) (auto simp: s' new_object_def)
  with own_ops_new [OF assms(1), of obj] kind show ?thesis by (simp add: s')
qed

text \<open>Nothing is left to do for an object without an operation.\<close>

lemma posted_at_rest:
  assumes "owned s" and "own_ops s = {#}" and "posted_ok s (tag, obj)"
  shows "posted_done s (tag, obj)"
proof -
  have "tag \<notin># own_ops s" using assms(2) by simp
  then have none: "\<not> is_handler (ev_heap s tag) \<Longrightarrow> count (ev_ops s) tag = 0"
    by (auto simp: own_ops_def count_eq_zero_iff)
  show ?thesis
  proof (cases obj)
    case (RpcObject completion)
    with assms(3) none owned_tag [OF assms(1), of tag] show ?thesis by (auto simp: posted_done_def)
  next
    case (AlarmObject thunk)
    with assms(3) none show ?thesis by (auto simp: posted_done_def)
  qed (use assms(3) in simp)
qed

end
