(* ===== verification/Execution_Objects.thy ===== *)
theory Execution_Objects
  imports Execution_Demo Posted_Objects
begin

text \<open>
  The events of a whole \<open>ExecutionContext\<close> and the objects behind them: the posts of
  \<open>sgrpc/execution_context.cpp\<close> make an alarm or an rpc on a completion queue, whose address is
  the tag that \<open>execute_cq_\<close> gets back from the queue and calls \<open>complete\<close> on
  (\<open>Completion_Events\<close>). The handlers of the servers are objects of the same heap; what grpc
  and their logic do to them goes on beside the context.
\<close>

section \<open>Definitions\<close>

text \<open>
  The whole context, its objects, and the events in its own queues with the addresses of
  their objects; as history, the objects that were posted.
\<close>

record ('t, 'd, 'e, 'cq, 'a, 'f, 'resp) obj_sys =
  ob_sys :: "('t, 'd, 'e, 'cq) sys"
  ob_events :: "('a, 'f, 'resp) events"
  ob_live :: "('e \<times> nat) multiset"
  ob_posted :: "(nat \<times> ('a, 'f) event_object) list"

text \<open>
  A step of the context that attaches an event makes its object; one that takes an event from
  an own queue calls \<open>complete\<close> through its tag; the other steps leave the objects alone.
\<close>

inductive obj_step ::
  "('e, 'cq) cq_api \<Rightarrow> ('cq \<Rightarrow> 'e multiset) \<Rightarrow> ('cq \<Rightarrow> bool) \<Rightarrow> ('req, 'resp) rpc_logic
     \<Rightarrow> ('t, 'd, 'e, 'cq, 'a, 'f, 'resp) obj_sys \<Rightarrow> ('t, 'd, 'e, 'cq, 'a, 'f, 'resp) obj_sys \<Rightarrow> bool"
  for api :: "('e, 'cq) cq_api" and contents :: "'cq \<Rightarrow> 'e multiset" and halted :: "'cq \<Rightarrow> bool"
    and logic :: "('req, 'resp) rpc_logic" where
  obj_post: "sys_step api contents halted (ob_sys o1) s \<Longrightarrow>
    sy_attached s = add_mset e (sy_attached (ob_sys o1)) \<Longrightarrow> sy_completed s = sy_completed (ob_sys o1) \<Longrightarrow>
    posted_object act = Some obj \<Longrightarrow> do_act logic act (ob_events o1) = Some (Inr ev) \<Longrightarrow>
    obj_step api contents halted logic o1
      \<lparr>ob_sys = s, ob_events = ev, ob_live = add_mset (e, ev_next (ob_events o1)) (ob_live o1),
       ob_posted = ob_posted o1 @ [(ev_next (ob_events o1), obj)]\<rparr>"
| obj_complete: "sys_step api contents halted (ob_sys o1) s \<Longrightarrow> sy_attached s = sy_attached (ob_sys o1) \<Longrightarrow>
    sy_completed s = sy_completed (ob_sys o1) @ [e] \<Longrightarrow> (e, tag) \<in># ob_live o1 \<Longrightarrow>
    do_act logic (Deliver tag is_ok request) (ob_events o1) = Some (Inr ev) \<Longrightarrow>
    obj_step api contents halted logic o1
      (o1\<lparr>ob_sys := s, ob_events := ev, ob_live := ob_live o1 - {#(e, tag)#}\<rparr>)"
| obj_other: "sys_step api contents halted (ob_sys o1) s \<Longrightarrow> sy_attached s = sy_attached (ob_sys o1) \<Longrightarrow>
    sy_completed s = sy_completed (ob_sys o1) \<Longrightarrow>
    obj_step api contents halted logic o1 (o1\<lparr>ob_sys := s\<rparr>)"
| obj_server: "server_act act (ob_events o1) \<Longrightarrow> do_act logic act (ob_events o1) = Some (Inr ev) \<Longrightarrow>
    obj_step api contents halted logic o1 (o1\<lparr>ob_events := ev\<rparr>)"

definition obj_init ::
  "('cq \<Rightarrow> 'e multiset) \<Rightarrow> ('cq \<Rightarrow> bool) \<Rightarrow> ('t, 'd, 'e, 'cq, 'a, 'f, 'resp) obj_sys \<Rightarrow> bool" where
  "obj_init contents halted o1 \<longleftrightarrow> sys_init contents halted (ob_sys o1) \<and> ob_events o1 = no_events \<and>
     ob_live o1 = {#} \<and> ob_posted o1 = []"

section \<open>The context does not see its objects\<close>

interpretation obj_sys: forward_simulation "obj_init contents halted" "obj_step api contents halted logic"
    "sys_init contents halted" "sys_step api contents halted"
    "ob_sys :: ('t, 'd, 'e, 'cq, 'a, 'f, 'resp) obj_sys \<Rightarrow> ('t, 'd, 'e, 'cq) sys"
  for api :: "('e, 'cq) cq_api" and contents halted and logic :: "('req, 'resp) rpc_logic"
proof
  fix s :: "('t, 'd, 'e, 'cq, 'a, 'f, 'resp) obj_sys"
  assume "obj_init contents halted s"
  then show "sys_init contents halted (ob_sys s)" by (simp add: obj_init_def)
next
  fix s s' :: "('t, 'd, 'e, 'cq, 'a, 'f, 'resp) obj_sys"
  assume "obj_step api contents halted logic s s'"
  then show "ob_sys s' = ob_sys s \<or> sys_step api contents halted (ob_sys s) (ob_sys s')"
    by cases auto
qed

section \<open>The invariant\<close>

definition obj_inv :: "('t, 'd, 'e, 'cq, 'a, 'f, 'resp) obj_sys \<Rightarrow> bool" where
  "obj_inv o1 \<longleftrightarrow> owned (ob_events o1) \<and> calls_past (ob_events o1) \<and>
     sy_attached (ob_sys o1) = mset (sy_completed (ob_sys o1)) + image_mset fst (ob_live o1) \<and>
     own_ops (ob_events o1) = image_mset snd (ob_live o1) \<and>
     length (ob_posted o1) = size (sy_attached (ob_sys o1)) \<and>
     (\<forall>(tag, obj) \<in> set (ob_posted o1). posted_ok (ob_events o1) (tag, obj))"

lemma live_own_op: "obj_inv o1 \<Longrightarrow> (e, tag) \<in># ob_live o1 \<Longrightarrow> tag \<in># own_ops (ob_events o1)"
  by (force simp: obj_inv_def)

lemma image_mset_remove: "x \<in># M \<Longrightarrow> image_mset f (M - {#x#}) = image_mset f M - {#f x#}"
  by (simp add: image_mset_Diff)

text \<open>The objects under one action.\<close>

lemma objects_keep:
  assumes "obj_inv o1" and "do_act logic act (ob_events o1) = Some (Inr ev)"
  shows "owned ev \<and> calls_past ev \<and> (\<forall>(tag, obj) \<in> set (ob_posted o1). posted_ok ev (tag, obj))"
proof -
  have own: "owned (ob_events o1)" and past: "calls_past (ob_events o1)"
    and ok: "\<forall>(tag, obj) \<in> set (ob_posted o1). posted_ok (ob_events o1) (tag, obj)"
    using assms(1) by (simp_all add: obj_inv_def)
  have "owned ev" using owned_act [OF own assms(2)] by blast
  with ok calls_past_act [OF own past assms(2)] posted_act [OF own _ assms(2)] show ?thesis by fastforce
qed

lemma obj_inv_step:
  assumes "obj_step api contents halted logic o1 o2" and inv: "obj_inv o1"
  shows "obj_inv o2"
  using assms(1)
proof cases
  case (obj_post s e act obj ev)
  have "posted_ok ev (ev_next (ob_events o1), obj) \<and>
      own_ops ev = add_mset (ev_next (ob_events o1)) (own_ops (ob_events o1))"
    using posted_fresh obj_post(5,6) inv unfolding obj_inv_def by blast
  with objects_keep [OF inv obj_post(6)] inv obj_post show ?thesis by (auto simp: obj_inv_def)
next
  case (obj_complete s e tag is_ok request ev)
  have "own_ops ev = own_ops (ob_events o1) - {#tag#}"
    by (rule own_ops_deliver [OF _ live_own_op [OF inv obj_complete(5)] obj_complete(6)])
       (use inv in \<open>simp add: obj_inv_def\<close>)
  moreover have "image_mset fst (ob_live o1) = add_mset e (image_mset fst (ob_live o1 - {#(e, tag)#}))"
    using obj_complete(5) by (metis fst_conv image_mset_add_mset insert_DiffM)
  ultimately show ?thesis
    using objects_keep [OF inv obj_complete(6)] inv obj_complete
    by (simp add: obj_inv_def image_mset_remove)
next
  case (obj_other s)
  with inv show ?thesis by (simp add: obj_inv_def)
next
  case (obj_server act ev)
  have "own_ops ev = own_ops (ob_events o1)"
    using own_ops_server [OF _ obj_server(2,3)] inv by (simp add: obj_inv_def)
  with objects_keep [OF inv obj_server(3)] inv obj_server(1) show ?thesis by (simp add: obj_inv_def)
qed

interpretation objects: invariant_system "obj_init contents halted" "obj_step api contents halted logic"
    "obj_inv :: ('t, 'd, 'e, 'cq, 'a, 'f, 'resp) obj_sys \<Rightarrow> bool"
  for api :: "('e, 'cq) cq_api" and contents halted and logic :: "('req, 'resp) rpc_logic"
proof
  fix o1 :: "('t, 'd, 'e, 'cq, 'a, 'f, 'resp) obj_sys"
  assume "obj_init contents halted o1"
  then show "obj_inv o1"
    by (auto simp: obj_init_def obj_inv_def owned_none sys_init_def start_sys_def calls_past_def thunk_calls_def
        own_ops_def no_events_def) (use owned_none in \<open>simp add: no_events_def\<close>)
next
  fix o1 o2 :: "('t, 'd, 'e, 'cq, 'a, 'f, 'resp) obj_sys"
  assume "obj_inv o1" and "obj_step api contents halted logic o1 o2"
  then show "obj_inv o2" using obj_inv_step by blast
qed

section \<open>Runs whose posts are all rpcs\<close>

definition only_rpcs :: "'f \<Rightarrow> ('t, 'd, 'e, 'cq, 'a, 'f, 'resp) obj_sys \<Rightarrow> bool" where
  "only_rpcs f o1 \<longleftrightarrow> (\<forall>p \<in> set (ob_posted o1). snd p = RpcObject (Some f))"

section \<open>The objects follow the context\<close>

lemma taken_one: "taken p pc = [] \<or> (\<exists>e. taken p pc = [e])"
  by (cases "(p, pc)" rule: taken.cases) auto

lemma small_multiset: "size M \<le> 1 \<Longrightarrow> M = {#} \<or> (\<exists>e. M = {#e#})"
  by (cases M) auto

context completion_queue
begin

lemma call_attaches_one:
  assumes "estep api e e'" and "inv_posts contents halted e"
  shows "size (own_contents contents (es_ctx e') - own_contents contents (es_ctx e)) \<le> 1"
proof -
  have "es_attached e' \<le> es_attached e + 1" using assms(1) by cases (auto split: if_splits)
  with call_contents [OF assms] show ?thesis by linarith
qed

lemma sys_step_events:
  assumes "sys_step api contents halted s s'" and "inv_posts contents halted (sy_calls s)"
  obtains (same) "sy_attached s' = sy_attached s" "sy_completed s' = sy_completed s"
  | (attached) e where "sy_attached s' = add_mset e (sy_attached s)" "sy_completed s' = sy_completed s"
  | (completed) e where "sy_attached s' = sy_attached s" "sy_completed s' = sy_completed s @ [e]"
  using assms(1)
proof cases
  case (sys_call e)
  with small_multiset [OF call_attaches_one [OF sys_call(2) assms(2)]] show ?thesis
    by (auto intro: same attached)
next
  case (sys_round t pc pc' c p)
  with taken_one [of "polls (of_nat t) pc (sy_ctx s)" pc'] show ?thesis by (auto intro: same completed)
qed (auto intro: same)

text \<open>An event that is completed has an object, on which \<open>complete\<close> succeeds.\<close>

lemma completed_has_object:
  assumes "reach (obj_init contents halted) (obj_step api contents halted logic) o1"
    and "sys_step api contents halted (ob_sys o1) s'" and "places_fit (sy_ctx s')"
    and "sy_completed s' = sy_completed (ob_sys o1) @ [e]" and "sy_attached s' = sy_attached (ob_sys o1)"
  shows "\<exists>tag. (e, tag) \<in># ob_live o1"
proof -
  have "reach (sys_init contents halted) (sys_step api contents halted) (ob_sys o1)"
    using assms(1) by (rule obj_sys.reach_abs)
  from reach_step [OF this assms(2)] whole_parts [OF _ assms(3)] have "inv_queues contents halted s'" by blast
  then have "sy_attached (ob_sys o1) = mset (sy_completed (ob_sys o1) @ [e]) + own_contents contents (sy_ctx s')"
    using assms(4,5) by (simp add: inv_queues_def)
  moreover have "obj_inv o1" using assms(1) by (rule objects.inv_reach)
  ultimately have "image_mset fst (ob_live o1) = add_mset e (own_contents contents (sy_ctx s'))"
    by (simp add: obj_inv_def)
  then have "e \<in># image_mset fst (ob_live o1)" by simp
  then show ?thesis by auto
qed

text \<open>So every run of the context is a run with its objects.\<close>

lemma objects_follow_step:
  fixes o1 :: "('t, 'd, 'e, 'cq, 'a, 'f, 'resp) obj_sys" and logic :: "('req, 'resp) rpc_logic"
  assumes "reach (obj_init contents halted) (obj_step api contents halted logic) o1"
    and "sys_step api contents halted (ob_sys o1) s'" and "places_fit (sy_ctx s')" and "only_rpcs f o1"
  shows "\<exists>o2. obj_step api contents halted logic o1 o2 \<and> ob_sys o2 = s' \<and> only_rpcs f o2"
proof -
  have r: "reach (sys_init contents halted) (sys_step api contents halted) (ob_sys o1)"
    using assms(1) by (rule obj_sys.reach_abs)
  have inv: "obj_inv o1" using assms(1) by (rule objects.inv_reach)
  have "inv_posts contents halted (sy_calls (ob_sys o1))"
    using whole_parts [OF r sys_step_fits [OF assms(2,3)]] by (simp add: inv_queues_def)
  with assms(2) show ?thesis
  proof (cases rule: sys_step_events)
    case same
    with obj_other [OF assms(2)] assms(4) show ?thesis
      by (intro exI [of _ "o1\<lparr>ob_sys := s'\<rparr>"]) (simp add: only_rpcs_def)
  next
    case (attached e)
    from obj_post [OF assms(2) attached, of "PostRpc f" "RpcObject (Some f)" logic] assms(4) show ?thesis
      by (force simp: only_rpcs_def)
  next
    case (completed e)
    from completed_has_object [OF assms(1-3) completed(2,1)] obtain tag where tag: "(e, tag) \<in># ob_live o1" by blast
    have "\<exists>ev. do_act logic (Deliver tag True undefined) (ob_events o1) = Some (Inr ev)"
      by (rule own_op_delivered [OF _ live_own_op [OF inv tag]]) (use inv in \<open>simp add: obj_inv_def\<close>)
    then obtain ev where ev: "do_act logic (Deliver tag True undefined) (ob_events o1) = Some (Inr ev)" by blast
    from obj_complete [OF assms(2) completed tag ev] assms(4) show ?thesis
      by (intro exI [of _ "o1\<lparr>ob_sys := s', ob_events := ev, ob_live := ob_live o1 - {#(e, tag)#}\<rparr>"])
         (simp add: only_rpcs_def)
  qed
qed

lemma objects_follow:
  assumes "reach (sys_init contents halted) (sys_step api contents halted) s" and "places_fit (sy_ctx s)"
  shows "\<exists>o1 :: ('t, 'd, 'e, 'cq, 'a, 'f, 'resp) obj_sys.
    reach (obj_init contents halted) (obj_step api contents halted (logic :: ('req, 'resp) rpc_logic)) o1 \<and> ob_sys o1 = s \<and>
    only_rpcs f o1"
  using assms
proof (induction rule: reach.induct)
  case (reach_init s)
  let ?o = "\<lparr>ob_sys = s, ob_events = no_events, ob_live = {#}, ob_posted = []\<rparr> :: ('t, 'd, 'e, 'cq, 'a, 'f, 'resp) obj_sys"
  have "obj_init contents halted ?o" using reach_init by (simp add: obj_init_def)
  then show ?case by (intro exI [of _ ?o]) (simp add: reach.reach_init only_rpcs_def)
next
  case (reach_step s s')
  then obtain o1 :: "('t, 'd, 'e, 'cq, 'a, 'f, 'resp) obj_sys" where
    "reach (obj_init contents halted) (obj_step api contents halted logic) o1" "ob_sys o1 = s" "only_rpcs f o1"
    using sys_step_fits by blast
  with objects_follow_step [of logic o1 s' f] reach_step.hyps(2) reach_step.prems show ?case
    by (auto intro: reach.reach_step)
qed

end

section \<open>A completion in a run\<close>

lemma sys_steps_fit:
  assumes "(sys_step api contents halted)\<^sup>*\<^sup>* s s'" and "places_fit (sy_ctx s')"
  shows "places_fit (sy_ctx s)"
  using assms by (induction rule: converse_rtranclp_induct) (auto dest: sys_step_fits)

lemma ev_stopped:
  obtains s :: ev_sys where "ev_reach s" "places_fit (sy_ctx s)" "sy_completed s = [AlarmEvent 4]"
    "es_attached (sy_calls s) = 1" "ec_state (sy_ctx s) = Stopped" "ec_threads (sy_ctx s) = []"
    "\<forall>i. RunSpawning i \<notin> set (es_pcs (sy_calls s))"
proof -
  obtain p :: "(nat, nat) thunk pool" where
    r: "ev_reach (ev_state (ev_off Stopped []) 1 [WorkerGone, Outside, Outside] p {0}
      [RoundOver True, AtPredicate, AtPredicate] {#AlarmEvent 4#} [AlarmEvent 4])" (is "ev_reach ?s")
    using ev_whole_run [of "Plain 7"] by blast
  have fit: "places_fit (sy_ctx ?s)"
    by (simp add: places_fit_def ev_calls_def ev_context_def queue_groups_def queue_places_def)
  show ?thesis by (rule that [OF r fit]) (simp_all add: ev_calls_def ev_context_def)
qed

lemma ev_completing:
  obtains s s' :: ev_sys and e where "ev_reach s" "sys_step fifo_cq ev_contents ev_halted s s'" "places_fit (sy_ctx s)"
    "places_fit (sy_ctx s')" "sy_completed s' = sy_completed s @ [e]"
proof -
  obtain t :: ev_sys where t: "ev_reach t" "places_fit (sy_ctx t)" "sy_completed t = [AlarmEvent 4]"
    by (rule ev_stopped)
  have "sy_completed i = []" if "sys_init ev_contents ev_halted i" for i :: ev_sys
    using that unfolding sys_init_def by (elim exE conjE) (simp add: start_sys_def)
  then obtain s s' :: ev_sys where s: "ev_reach s" "sys_step fifo_cq ev_contents ev_halted s s'"
    "sy_completed s = []" "sy_completed s' \<noteq> []" "(sys_step fifo_cq ev_contents ev_halted)\<^sup>*\<^sup>* s' t"
    using reach_crossing [OF t(1), of "\<lambda>s. sy_completed s \<noteq> []"] t(3) by auto
  from sys_steps_fit [OF s(5) t(2)] have fit': "places_fit (sy_ctx s')" .
  from sys_step_fits [OF s(2) fit'] have fit: "places_fit (sy_ctx s)" .
  have "inv_posts ev_contents ev_halted (sy_calls s)"
    using fifo.whole_parts [OF s(1) fit] by (simp add: inv_queues_def)
  with s(2) show ?thesis
    by (cases rule: fifo.sys_step_events) (use s fit fit' that in auto)
qed

section \<open>Properties\<close>

text \<open>
  C2. Every rpc that was posted to a context is completed before the context is \<open>Stopped\<close>, and
  every alarm called: in a run of the whole context with its objects, as many objects were
  made as posts were carried out, every rpc has had its own completion called, once, and is
  freed, and every alarm has called its own thunk once, whatever handlers of servers live on
  the same heap.
\<close>

theorem posted_objects_complete:
  assumes "completion_queue api contents halted"
    and "reach (obj_init contents halted) (obj_step api contents halted logic) o1" and "s = ob_sys o1"
    and "places_fit (sy_ctx s)" and "ec_state (sy_ctx s) = Stopped" and "ec_threads (sy_ctx s) = []"
    and "\<forall>i. RunSpawning i \<notin> set (es_pcs (sy_calls s))"
  shows "length (ob_posted o1) = es_attached (sy_calls s) \<and>
    (\<forall>(tag, obj) \<in> set (ob_posted o1). posted_done (ob_events o1) (tag, obj))"
proof -
  have r: "reach (sys_init contents halted) (sys_step api contents halted) s"
    using obj_sys.reach_abs [OF assms(2)] assms(3) by simp
  have inv: "obj_inv o1" using assms(2) by (rule objects.inv_reach)
  have "inv_queues contents halted s" using completion_queue.whole_parts [OF assms(1) r assms(4)] by blast
  moreover have "own_contents contents (sy_ctx s) = {#}"
    using completion_queue.stopped_whole [OF assms(1) r assms(4-7)] by blast
  ultimately have done_all: "sy_attached s = mset (sy_completed s)" "length (sy_completed s) = es_attached (sy_calls s)"
    by (simp_all add: inv_queues_def)
  then have none: "own_ops (ob_events o1) = {#}" using inv assms(3) by (simp add: obj_inv_def)
  have "posted_done (ob_events o1) (tag, obj)" if "(tag, obj) \<in> set (ob_posted o1)" for tag obj
    using posted_at_rest [OF _ none] inv that by (fastforce simp: obj_inv_def)
  with done_all inv assms(3) show ?thesis by (auto simp: obj_inv_def)
qed

theorem posted_objects_witness:
  "\<exists>(o1 :: (nat, nat, (nat, nat) cq_event, bool \<times> (nat, nat) cq_event list, nat, nat, nat) obj_sys) tag ok.
     ob_posted o1 = [(tag, RpcObject (Some 3))] \<and> ev_heap (ob_events o1) tag = None \<and>
     called (ob_events o1) tag = 1 \<and> CompletionCalled tag 3 ok \<in> set (ev_log (ob_events o1))"
proof -
  obtain s :: ev_sys where r: "ev_reach s" and fit: "places_fit (sy_ctx s)" and one: "es_attached (sy_calls s) = 1"
    and stopped: "ec_state (sy_ctx s) = Stopped" "ec_threads (sy_ctx s) = []"
      "\<forall>i. RunSpawning i \<notin> set (es_pcs (sy_calls s))"
    by (rule ev_stopped)
  obtain o1 :: "(nat, nat, (nat, nat) cq_event, bool \<times> (nat, nat) cq_event list, nat, nat, nat) obj_sys" where
    o1: "reach (obj_init ev_contents ev_halted) (obj_step fifo_cq ev_contents ev_halted (Scheduled :: (nat, nat) rpc_logic)) o1"
      "s = ob_sys o1" and rpcs: "only_rpcs 3 o1"
    using fifo.objects_follow [OF r fit] by metis
  have "length (ob_posted o1) = 1 \<and> (\<forall>(tag, obj) \<in> set (ob_posted o1). posted_done (ob_events o1) (tag, obj))"
    using posted_objects_complete [OF fifo.completion_queue_axioms o1 fit stopped] one by simp
  moreover from this obtain tag obj where "ob_posted o1 = [(tag, obj)]"
    by (metis One_nat_def length_0_conv length_Suc_conv surj_pair)
  ultimately show ?thesis using rpcs by (auto simp: only_rpcs_def posted_done_def)
qed

text \<open>
  C3. A worker never calls \<open>complete\<close> through a dead pointer: every run of a context is a run
  with objects behind its events, and whenever a worker takes an event from an own queue there
  is an object for it; it is alive, and \<open>complete\<close> on it succeeds, with \<open>is_ok\<close> or without.
\<close>

theorem callbacks_find_objects:
  fixes logic :: "('req, 'resp) rpc_logic" and o1 :: "('t, 'd, 'e, 'cq, 'a, 'f, 'resp) obj_sys"
  assumes "completion_queue api contents halted"
    and "reach (sys_init contents halted) (sys_step api contents halted) s" and "places_fit (sy_ctx s)"
  shows "(\<exists>o2 :: ('t, 'd, 'e, 'cq, 'a, 'f, 'resp) obj_sys.
      reach (obj_init contents halted) (obj_step api contents halted logic) o2 \<and> ob_sys o2 = s) \<and>
    (reach (obj_init contents halted) (obj_step api contents halted logic) o1 \<and> ob_sys o1 = s \<and>
     sys_step api contents halted s s' \<and> places_fit (sy_ctx s') \<and> sy_completed s' = sy_completed s @ [e] \<longrightarrow>
       (\<exists>tag. (e, tag) \<in># ob_live o1) \<and>
       (\<forall>tag. (e, tag) \<in># ob_live o1 \<longrightarrow> ev_heap (ob_events o1) tag \<noteq> None \<and>
          (\<forall>is_ok request. \<exists>ev. do_act logic (Deliver tag is_ok request) (ob_events o1) = Some (Inr ev))))"
proof (intro conjI impI)
  show "\<exists>o2 :: ('t, 'd, 'e, 'cq, 'a, 'f, 'resp) obj_sys.
      reach (obj_init contents halted) (obj_step api contents halted logic) o2 \<and> ob_sys o2 = s"
    using completion_queue.objects_follow [OF assms] by metis
next
  assume a: "reach (obj_init contents halted) (obj_step api contents halted logic) o1 \<and> ob_sys o1 = s \<and>
     sys_step api contents halted s s' \<and> places_fit (sy_ctx s') \<and> sy_completed s' = sy_completed s @ [e]"
  have "inv_queues contents halted s" using completion_queue.whole_parts [OF assms] by blast
  then have "sy_attached s' = sy_attached s"
    using completion_queue.sys_step_events [OF assms(1), of s s'] a by (fastforce simp: inv_queues_def)
  with a show "\<exists>tag. (e, tag) \<in># ob_live o1"
    using completion_queue.completed_has_object [OF assms(1), of logic o1 s' e] by blast
next
  assume a: "reach (obj_init contents halted) (obj_step api contents halted logic) o1 \<and> ob_sys o1 = s \<and>
     sys_step api contents halted s s' \<and> places_fit (sy_ctx s') \<and> sy_completed s' = sy_completed s @ [e]"
  then have inv: "obj_inv o1" by (blast intro: objects.inv_reach)
  then have own: "owned (ob_events o1)" by (simp add: obj_inv_def)
  show "\<forall>tag. (e, tag) \<in># ob_live o1 \<longrightarrow> ev_heap (ob_events o1) tag \<noteq> None \<and>
          (\<forall>is_ok request. \<exists>ev. do_act logic (Deliver tag is_ok request) (ob_events o1) = Some (Inr ev))"
    using live_own_op [OF inv] own_op_delivered [OF own] live_op [OF own] by (fastforce simp: own_ops_def)
qed

theorem callbacks_find_objects_witness:
  "\<exists>(o1 :: (nat, nat, (nat, nat) cq_event, ev_cq, nat, nat, nat) obj_sys) s' e tag.
     reach (obj_init ev_contents ev_halted) (obj_step fifo_cq ev_contents ev_halted (Scheduled :: (nat, nat) rpc_logic)) o1 \<and>
     sys_step fifo_cq ev_contents ev_halted (ob_sys o1) s' \<and> sy_completed s' = sy_completed (ob_sys o1) @ [e] \<and>
     (e, tag) \<in># ob_live o1 \<and> ev_heap (ob_events o1) tag \<noteq> None"
proof -
  obtain s s' :: ev_sys and e where r: "ev_reach s" and step: "sys_step fifo_cq ev_contents ev_halted s s'"
    and fit: "places_fit (sy_ctx s)" and fit': "places_fit (sy_ctx s')" and e: "sy_completed s' = sy_completed s @ [e]"
    by (rule ev_completing)
  obtain o1 :: "(nat, nat, (nat, nat) cq_event, ev_cq, nat, nat, nat) obj_sys" where
    o1: "reach (obj_init ev_contents ev_halted) (obj_step fifo_cq ev_contents ev_halted (Scheduled :: (nat, nat) rpc_logic)) o1"
      "ob_sys o1 = s"
    using fifo.objects_follow [OF r fit] by metis
  then obtain tag where "(e, tag) \<in># ob_live o1" "ev_heap (ob_events o1) tag \<noteq> None"
    using callbacks_find_objects [OF fifo.completion_queue_axioms r fit, of Scheduled o1 s' e] step fit' e by blast
  with o1 step e show ?thesis
    by (intro exI [of _ o1] exI [of _ s'] exI [of _ e] exI [of _ tag]) simp
qed

end
