(* ===== verification/Scheduler.thy ===== *)
theory Scheduler
  imports Execution_Context
begin

text \<open>
  \<open>Scheduler\<close> of \<open>sgrpc/scheduler.hpp\<close>: the sender that starts a computation chain on an
  execution context. Receivers belong to the users of stdexec; what an operation sends to its
  receiver is a list of signals, of which exactly one completes it.
\<close>

section \<open>Definitions\<close>

text \<open>\<open>set_value\<close> that returned, \<open>set_value\<close> that threw, and \<open>set_error\<close>.\<close>

datatype ('v, 'e) signal = SetValue 'v | SetValueThrew 'v | SetError 'e

fun completes :: "('v, 'e) signal \<Rightarrow> bool" where
  "completes (SetValueThrew v) = False"
| "completes _ = True"

text \<open>The contract of an operation: one signal completes the receiver, and it is the last.\<close>

definition completed_once :: "('v, 'e) signal list \<Rightarrow> bool" where
  "completed_once sigs \<longleftrightarrow>
     sigs \<noteq> [] \<and> completes (last sigs) \<and> list_all (\<lambda>x. \<not> completes x) (butlast sigs)"

record 'ctx scheduler = sch_context :: 'ctx

record ('ctx, 'r) schedule_op =
  op_context :: 'ctx
  op_receiver :: 'r

definition schedule :: "'ctx scheduler \<Rightarrow> 'ctx" where
  "schedule self = sch_context self"

definition connect_schedule :: "'ctx \<Rightarrow> 'r \<Rightarrow> ('ctx, 'r) schedule_op" where
  "connect_schedule sender_context receiver = \<lparr>op_context = sender_context, op_receiver = receiver\<rparr>"

text \<open>
  \<open>GenericSender\<close> of \<open>sgrpc/scratch_sender.hpp\<close>, a sketch that nothing includes: its scheduler is
  that of its completion. Its \<open>connect\<close> names members that the class does not have and its
  operation state a function that it does not have, so that neither can be instantiated.
\<close>

record 'ctx generic_sender = gen_scheduler :: "'ctx scheduler"

definition generic_completion_scheduler :: "'ctx generic_sender \<Rightarrow> 'ctx scheduler" where
  "generic_completion_scheduler self = gen_scheduler self"

definition scheduler_eq :: "'ctx scheduler \<Rightarrow> 'ctx scheduler \<Rightarrow> bool" where
  "scheduler_eq a b \<longleftrightarrow> sch_context a = sch_context b"

definition completion_scheduler :: "'ctx \<Rightarrow> 'ctx scheduler" where
  "completion_scheduler sender_context = \<lparr>sch_context = sender_context\<rparr>"

text \<open>
  The posted closure. The receiver is known by what its \<open>set_value\<close> does: \<open>None\<close>, or the
  exception it throws, which is passed to \<open>set_error\<close>.
\<close>

definition run_schedule_op :: "exn option \<Rightarrow> (unit, exn) signal list" where
  "run_schedule_op set_value =
     (case set_value of None \<Rightarrow> [SetValue ()] | Some e \<Rightarrow> [SetValueThrew (), SetError e])"

text \<open>\<open>start\<close>: the context is found by its address; the result of \<open>post\<close> is not looked at.\<close>

definition start_schedule_op ::
  "(nat, 'r) schedule_op \<Rightarrow> (nat \<Rightarrow> ('r, 'd, 'cq) exec_context)
     \<Rightarrow> (nat \<Rightarrow> ('r, 'd, 'cq) exec_context) option" where
  "start_schedule_op self contexts =
     (case post_thunk (Plain (op_receiver self)) (contexts (op_context self)) of
        None \<Rightarrow> None
      | Some (posted, c) \<Rightarrow> Some (contexts(op_context self := c)))"

section \<open>Properties\<close>

text \<open>
  C36. Starting a scheduled operation puts its closure on the task queue of its own context,
  once, and the closure completes the receiver exactly once, with an error if \<open>set_value\<close>
  throws. But if the context has drained its task queue nothing at all happens: the refusal
  of \<open>post\<close> is ignored, so no completion of the receiver is ever on its way.
\<close>

theorem schedule_start_contract:
  assumes "tsq_usable (ec_task_queue (contexts (sch_context sched)))"
  shows "\<exists>contexts'. start_schedule_op (connect_schedule (schedule sched) receiver) contexts = Some contexts' \<and>
    (if ts_is_done (ec_task_queue (contexts (sch_context sched))) then contexts' = contexts
     else tsq_bag (ec_task_queue (contexts' (sch_context sched))) =
       tsq_bag (ec_task_queue (contexts (sch_context sched))) + {#Plain receiver#}) \<and>
    completed_once (run_schedule_op set_value)"
proof -
  let ?c = "contexts (sch_context sched)"
  have once: "completed_once (run_schedule_op set_value)"
    by (auto simp: completed_once_def run_schedule_op_def split: option.split)
  show ?thesis
  proof (cases "ts_is_done (ec_task_queue ?c)")
    case True
    then have "post_thunk (Plain receiver) ?c = Some (False, ?c)"
      by (cases ?c) (simp add: post_thunk_def tsq_push_done)
    with True once show ?thesis
      by (simp add: start_schedule_op_def connect_schedule_def schedule_def)
  next
    case False
    with push_returns_inserts [OF assms, of "Plain receiver"] once show ?thesis
      by (auto simp: start_schedule_op_def connect_schedule_def schedule_def post_thunk_def)
  qed
qed

lemma schedule_start_witness:
  "\<exists>(c :: (nat, nat, nat) exec_context) contexts'. make_context 2 [0] = Inr c \<and>
     start_schedule_op (connect_schedule (schedule \<lparr>sch_context = 0\<rparr>) 7) (\<lambda>a. c) = Some contexts' \<and>
     tsq_bag (ec_task_queue (contexts' 0)) = {#Plain 7#}"
proof -
  obtain c :: "(nat, nat, nat) exec_context" where c: "make_context 2 [0] = Inr c"
    by (simp add: make_context_def)
  then have q: "ec_task_queue c = make_tsq 3" by (auto simp: make_context_def)
  have "tsq_usable (make_tsq 3 :: (nat, nat) thunk tsq)"
    by (simp add: tsq_usable_def tsq_wf_def make_tsq_def in_set_replicate)
  with schedule_start_contract [of "\<lambda>a. c" "\<lparr>sch_context = 0\<rparr>" 7 None] c q show ?thesis
    by (auto simp: make_tsq_def tsq_bag_def)
qed

end
