(* ===== verification/Execution_Schedule.thy ===== *)
theory Execution_Schedule
  imports Scheduler Execution_Demo
begin

text \<open>
  The scheduler on a whole context: \<open>start\<close> of an operation of \<open>Scheduler\<close> posts a closure to the
  task queue, which the workers call. What they send to the receivers follows from the thunks
  that were called.
\<close>

section \<open>Definitions\<close>

text \<open>
  The signals of the closures among the thunks called, with their receivers; \<open>set_value r\<close> is
  what \<open>set_value\<close> of the receiver \<open>r\<close> throws.
\<close>

definition scheduled_signals ::
  "('r \<Rightarrow> exn option) \<Rightarrow> ('r, 'd) thunk list \<Rightarrow> ('r \<times> (unit, exn) signal) list" where
  "scheduled_signals set_value thunks =
     concat (map (\<lambda>th. case th of
         Plain r \<Rightarrow> map (Pair r) (run_schedule_op (set_value r))
       | CallDeadlined d b \<Rightarrow> []) thunks)"

definition completions :: "'r \<Rightarrow> ('r \<times> ('v, 'e) signal) list \<Rightarrow> nat" where
  "completions r sigs = length (filter (\<lambda>(r', x). r' = r \<and> completes x) sigs)"

section \<open>Lemmas\<close>

lemma completions_append: "completions r (xs @ ys) = completions r xs + completions r ys"
  by (simp add: completions_def)

lemma completions_closure:
  "completions r (map (Pair r') (run_schedule_op x)) = (if r' = r then 1 else 0)"
  by (auto simp: completions_def run_schedule_op_def split: option.split)

text \<open>A call of the closure completes its receiver once.\<close>

lemma completions_called: "completions r (scheduled_signals set_value thunks) = count (mset thunks) (Plain r)"
proof (induction thunks)
  case Nil
  then show ?case by (simp add: scheduled_signals_def completions_def)
next
  case (Cons th thunks)
  have "scheduled_signals set_value (th # thunks) =
      (case th of Plain r' \<Rightarrow> map (Pair r') (run_schedule_op (set_value r')) | CallDeadlined d b \<Rightarrow> []) @
      scheduled_signals set_value thunks"
    by (simp add: scheduled_signals_def)
  moreover have "completions r (case th of Plain r' \<Rightarrow> map (Pair r') (run_schedule_op (set_value r')) | CallDeadlined d b \<Rightarrow> []) =
      (if th = Plain r then 1 else 0)"
    by (cases th) (simp_all add: completions_closure, simp add: completions_def)
  ultimately show ?case using Cons by (simp add: completions_append)
qed

section \<open>Property\<close>

text \<open>
  C9. Operations of the scheduler on a whole context: at every moment a receiver has been completed
  at most as often as closures with it were accepted (or are about to be), so that an
  operation never completes twice; and when the context is \<open>Stopped\<close> and nobody is inside
  \<open>post\<close> it has been completed exactly as often, but for closures that a late post left in
  the queues.
\<close>

theorem scheduled_receivers_completed:
  assumes "completion_queue api contents halted"
    and "reach (sys_init contents halted) (sys_step api contents halted) s" and "q = pl_queue (sy_pool s)"
  shows "completions r (scheduled_signals set_value (pl_ran (sy_pool s))) \<le>
      count (qs_accepted q) (Plain r) + count (sum_list (map emplaced (qs_threads q))) (Plain r) \<and>
    (places_fit (sy_ctx s) \<and> ec_state (sy_ctx s) = Stopped \<and> ec_threads (sy_ctx s) = [] \<and>
     (\<forall>i. RunSpawning i \<notin> set (es_pcs (sy_calls s))) \<and> (\<forall>p \<in> set (qs_threads q). \<not> calling p) \<longrightarrow>
       count (qs_accepted q) (Plain r) =
         completions r (scheduled_signals set_value (pl_ran (sy_pool s))) + count (tsq_bag (qs_tsq q)) (Plain r))"
proof (intro conjI impI)
  have r: "reach pool_init pool_step (sy_pool s)" using assms(2) by (rule sys_pool.reach_abs)
  show "completions r (scheduled_signals set_value (pl_ran (sy_pool s))) \<le>
      count (qs_accepted q) (Plain r) + count (sum_list (map emplaced (qs_threads q))) (Plain r)"
    using mset_subset_eq_count [OF ran_accepted [OF r], of "Plain r"] assms(3) by (simp add: completions_called)
  assume stop: "places_fit (sy_ctx s) \<and> ec_state (sy_ctx s) = Stopped \<and> ec_threads (sy_ctx s) = [] \<and>
     (\<forall>i. RunSpawning i \<notin> set (es_pcs (sy_calls s))) \<and> (\<forall>p \<in> set (qs_threads q). \<not> calling p)"
  then have "list_all (\<lambda>w. w = WorkerReturned \<or> w = External) (pl_workers (sy_pool s))"
    using completion_queue.stopped_whole [OF assms(1,2)] by blast
  with stop assms(3) have "at_end (sy_pool s)" by (simp add: at_end_def list_all_iff)
  from at_end_balance [OF r this] assms(3)
  show "count (qs_accepted q) (Plain r) =
         completions r (scheduled_signals set_value (pl_ran (sy_pool s))) + count (tsq_bag (qs_tsq q)) (Plain r)"
    by (simp add: completions_called)
qed

theorem scheduled_receivers_witness:
  "\<exists>s :: ev_sys. ev_reach s \<and> ec_state (sy_ctx s) = Stopped \<and>
     completions 7 (scheduled_signals (\<lambda>r. None) (pl_ran (sy_pool s))) = 1 \<and>
     count (qs_accepted (pl_queue (sy_pool s))) (Plain 7) = 1 + count (tsq_bag (qs_tsq (pl_queue (sy_pool s)))) (Plain 7)"
proof -
  obtain p :: "(nat, nat) thunk pool" where
    r: "ev_reach (ev_state (ev_off Stopped []) 1 [WorkerGone, Outside, Outside] p {0}
      [RoundOver True, AtPredicate, AtPredicate] {#AlarmEvent 4#} [AlarmEvent 4])" (is "ev_reach ?s")
    and p: "pl_ran p = [Plain 7]" "list_all (\<lambda>p. \<not> calling p) (qs_threads (pl_queue p))"
    using ev_whole_run [of "Plain 7"] by blast
  have fit: "places_fit (sy_ctx ?s)"
    by (simp add: places_fit_def ev_calls_def ev_context_def queue_groups_def queue_places_def)
  have "completions 7 (scheduled_signals (\<lambda>r. None) (pl_ran (sy_pool ?s))) = 1" using p(1) by (simp add: completions_called)
  with scheduled_receivers_completed [OF fifo.completion_queue_axioms r refl, of 7 "\<lambda>r. None"] fit p r show ?thesis
    by (intro exI [of _ ?s]) (simp add: ev_calls_def ev_context_def list_all_iff)
qed

end
