(* ===== verification/Memory_Order.thy ===== *)
theory Memory_Order
  imports Execution_Context
begin

text \<open>
  \<open>state_\<close> and \<open>within_cq_post_\<close> of \<open>ExecutionContext\<close> under the memory orders that
  \<open>sgrpc/execution_context.cpp\<close> names. The other theories interleave the accesses on one
  memory; here an atomic is the list of its messages in modification order, and a load may read
  any message that the thread is not known to have passed. A message carries the view of the
  thread that wrote it, which a load with \<open>memory_order_acquire\<close> joins to its own. A
  read-modify-write reads the last message.

  \<open>atomic_signal_fence\<close> orders a thread with its own signal handlers only, so it does nothing
  here. In its place a sequentially consistent \<open>atomic_thread_fence\<close> can be put, which joins the
  view of the thread with the one that all such fences share; the flag \<open>ordered\<close> chooses.
\<close>

section \<open>Definitions\<close>

text \<open>The newest message of each atomic that a thread knows of.\<close>

record view =
  seen_state :: nat
  seen_count :: nat

definition join_view :: "view \<Rightarrow> view \<Rightarrow> view" where
  "join_view v w = \<lparr>seen_state = max (seen_state v) (seen_state w), seen_count = max (seen_count v) (seen_count w)\<rparr>"

record 'v message =
  msg_value :: 'v
  msg_view :: view

text \<open>
  Where a thread is: in \<open>post\<close> on a completion queue after \<open>fetch_add\<close>, after the fence, with
  \<open>can_post\<close>, and before \<open>fetch_sub\<close>; in \<open>stop\<close> with the state claimed, after the fence, after
  the busy wait, and after \<open>Shutdown\<close> of the queues.
\<close>

datatype mo_pc =
    MoOutside
  | MoCounted
  | MoChecking
  | MoPosting
  | MoLeaving
  | MoClaimed
  | MoWaiting
  | MoHalting
  | MoHalted

record mo_sys =
  mo_states :: "execution_state message list"
  mo_counts :: "u64 message list"
  mo_views :: "view list"
  mo_fences :: view
  mo_pcs :: "mo_pc list"
  mo_shut :: bool   \<comment> \<open>the queues are shut down\<close>
  mo_late :: bool   \<comment> \<open>an event was attached to a queue that is shut down\<close>

definition mo_at :: "nat \<Rightarrow> mo_pc \<Rightarrow> mo_sys \<Rightarrow> bool" where
  "mo_at t p s \<longleftrightarrow> t < length (mo_pcs s) \<and> mo_pcs s ! t = p"

definition mo_go :: "nat \<Rightarrow> mo_pc \<Rightarrow> mo_sys \<Rightarrow> mo_sys" where
  "mo_go t p s = s\<lparr>mo_pcs := (mo_pcs s)[t := p]\<rparr>"

definition mo_see :: "nat \<Rightarrow> view \<Rightarrow> mo_sys \<Rightarrow> mo_sys" where
  "mo_see t v s = s\<lparr>mo_views := (mo_views s)[t := v]\<rparr>"

definition load_state :: "nat \<Rightarrow> nat \<Rightarrow> mo_sys \<Rightarrow> (execution_state \<times> mo_sys) option" where
  "load_state t i s =
     (if seen_state (mo_views s ! t) \<le> i \<and> i < length (mo_states s)
      then Some (msg_value (mo_states s ! i), mo_see t (join_view (mo_views s ! t) (msg_view (mo_states s ! i))) s)
      else None)"

definition load_count :: "nat \<Rightarrow> nat \<Rightarrow> mo_sys \<Rightarrow> (u64 \<times> mo_sys) option" where
  "load_count t i s =
     (if seen_count (mo_views s ! t) \<le> i \<and> i < length (mo_counts s)
      then Some (msg_value (mo_counts s ! i), mo_see t (join_view (mo_views s ! t) (msg_view (mo_counts s ! i))) s)
      else None)"

definition rmw_count :: "(u64 \<Rightarrow> u64) \<Rightarrow> nat \<Rightarrow> mo_sys \<Rightarrow> mo_sys" where
  "rmw_count f t s =
     (let m = last (mo_counts s);
          v = (join_view (mo_views s ! t) (msg_view m))\<lparr>seen_count := length (mo_counts s)\<rparr>
      in mo_see t v (s\<lparr>mo_counts := mo_counts s @ [\<lparr>msg_value = f (msg_value m), msg_view = v\<rparr>]\<rparr>))"

text \<open>\<open>set_state_\<close>: a load when the comparison fails, of the last message when it does not.\<close>

definition cas_state :: "execution_state \<Rightarrow> nat \<Rightarrow> nat \<Rightarrow> mo_sys \<Rightarrow> (bool \<times> mo_sys) option" where
  "cas_state target t i s =
     (case load_state t i s of
        None \<Rightarrow> None
      | Some (current, s1) \<Rightarrow>
          (let (done_it, new) = set_state target current
           in if \<not> done_it then Some (False, s1)
              else if Suc i \<noteq> length (mo_states s) then None
              else (let v = (mo_views s1 ! t)\<lparr>seen_state := length (mo_states s)\<rparr>
                    in Some (True, mo_see t v
                         (s1\<lparr>mo_states := mo_states s @ [\<lparr>msg_value = new, msg_view = v\<rparr>]\<rparr>)))))"

definition fence :: "bool \<Rightarrow> nat \<Rightarrow> mo_sys \<Rightarrow> mo_sys" where
  "fence ordered t s =
     (if ordered
      then (let v = join_view (mo_views s ! t) (mo_fences s) in mo_see t v (s\<lparr>mo_fences := v\<rparr>))
      else s)"

text \<open>One access of the thread \<open>t\<close>, with the message that it reads.\<close>

datatype mo_action =
    PostAdd nat
  | PostFence nat
  | PostLoad nat nat
  | PostAttach nat
  | PostSub nat
  | RunClaim nat nat
  | StopClaim nat nat
  | StopFence nat
  | StopLoad nat nat
  | StopHalt nat
  | StopSet nat nat

fun mo_act :: "bool \<Rightarrow> mo_action \<Rightarrow> mo_sys \<Rightarrow> mo_sys option" where
  "mo_act ordered (PostAdd t) s =
     (if mo_at t MoOutside s then Some (mo_go t MoCounted (rmw_count (\<lambda>n. n + 1) t s)) else None)"
| "mo_act ordered (PostFence t) s =
     (if mo_at t MoCounted s then Some (mo_go t MoChecking (fence ordered t s)) else None)"
| "mo_act ordered (PostLoad t i) s =
     (if mo_at t MoChecking s
      then (case load_state t i s of
              None \<Rightarrow> None
            | Some (v, s') \<Rightarrow> Some (mo_go t (if v \<le> Running then MoPosting else MoLeaving) s'))
      else None)"
| "mo_act ordered (PostAttach t) s =
     (if mo_at t MoPosting s then Some (mo_go t MoLeaving (s\<lparr>mo_late := mo_late s \<or> mo_shut s\<rparr>)) else None)"
| "mo_act ordered (PostSub t) s =
     (if mo_at t MoLeaving s then Some (mo_go t MoOutside (rmw_count (\<lambda>n. n - 1) t s)) else None)"
| "mo_act ordered (RunClaim t i) s =
     (if mo_at t MoOutside s then map_option snd (cas_state Running t i s) else None)"
| "mo_act ordered (StopClaim t i) s =
     (if mo_at t MoOutside s
      then (case cas_state ShuttingDown t i s of
              None \<Rightarrow> None
            | Some (shutdown_set, s') \<Rightarrow> Some (mo_go t (if shutdown_set then MoClaimed else MoOutside) s'))
      else None)"
| "mo_act ordered (StopFence t) s =
     (if mo_at t MoClaimed s then Some (mo_go t MoWaiting (fence ordered t s)) else None)"
| "mo_act ordered (StopLoad t i) s =
     (if mo_at t MoWaiting s
      then (case load_count t i s of
              None \<Rightarrow> None
            | Some (n, s') \<Rightarrow> Some (mo_go t (if 0 < n then MoWaiting else MoHalting) s'))
      else None)"
| "mo_act ordered (StopHalt t) s =
     (if mo_at t MoHalting s then Some (mo_go t MoHalted (s\<lparr>mo_shut := True\<rparr>)) else None)"
| "mo_act ordered (StopSet t i) s =
     (if mo_at t MoHalted s
      then map_option (\<lambda>(stopped, s'). mo_go t MoOutside s') (cas_state Stopped t i s)
      else None)"

definition nothing_seen :: view where
  "nothing_seen = \<lparr>seen_state = 0, seen_count = 0\<rparr>"

definition mo_start :: "nat \<Rightarrow> mo_sys \<Rightarrow> bool" where
  "mo_start n s \<longleftrightarrow> s =
     \<lparr>mo_states = [\<lparr>msg_value = Ready, msg_view = nothing_seen\<rparr>], mo_counts = [\<lparr>msg_value = 0, msg_view = nothing_seen\<rparr>],
      mo_views = replicate n nothing_seen, mo_fences = nothing_seen, mo_pcs = replicate n MoOutside,
      mo_shut = False, mo_late = False\<rparr>"

section \<open>Views only grow\<close>

definition view_le :: "view \<Rightarrow> view \<Rightarrow> bool" where
  "view_le v w \<longleftrightarrow> seen_state v \<le> seen_state w \<and> seen_count v \<le> seen_count w"

definition valid_view :: "mo_sys \<Rightarrow> view \<Rightarrow> bool" where
  "valid_view s w \<longleftrightarrow> seen_state w < length (mo_states s) \<and> seen_count w < length (mo_counts s)"

text \<open>Every message is there that a view speaks of.\<close>

definition inv_valid :: "mo_sys \<Rightarrow> bool" where
  "inv_valid s \<longleftrightarrow> length (mo_views s) = length (mo_pcs s) \<and>
     (\<forall>w\<in>set (mo_views s) \<union> {mo_fences s} \<union> msg_view ` set (mo_states s) \<union> msg_view ` set (mo_counts s). valid_view s w)"

fun actor :: "mo_action \<Rightarrow> nat" where
  "actor (PostAdd t) = t" | "actor (PostFence t) = t" | "actor (PostLoad t i) = t" | "actor (PostAttach t) = t"
| "actor (PostSub t) = t" | "actor (RunClaim t i) = t" | "actor (StopClaim t i) = t" | "actor (StopFence t) = t"
| "actor (StopLoad t i) = t" | "actor (StopHalt t) = t" | "actor (StopSet t i) = t"

lemmas mo_defs = mo_at_def mo_go_def mo_see_def rmw_count_def fence_def Let_def

lemma valid_join [simp]: "valid_view s (join_view v w) \<longleftrightarrow> valid_view s v \<and> valid_view s w"
  by (auto simp: valid_view_def join_view_def)

lemma view_le_join: "view_le v (join_view v w)" "view_le w (join_view v w)"
  by (auto simp: view_le_def join_view_def)

lemma view_le_trans: "view_le u v \<Longrightarrow> view_le v w \<Longrightarrow> view_le u w"
  by (auto simp: view_le_def)

text \<open>The memory operations one by one.\<close>

lemma load_state_cases:
  assumes "load_state t i s = Some (v, s')" and "t < length (mo_views s)"
  obtains w where "s' = mo_see t w s" "view_le (mo_views s ! t) w" "i < length (mo_states s)"
    "seen_state (mo_views s ! t) \<le> i" "v = msg_value (mo_states s ! i)" "inv_valid s \<Longrightarrow> valid_view s w"
  using assms by (fastforce simp: load_state_def inv_valid_def view_le_join split: if_splits)

lemma load_count_cases:
  assumes "load_count t i s = Some (v, s')" and "t < length (mo_views s)"
  obtains w where "s' = mo_see t w s" "view_le (mo_views s ! t) w" "i < length (mo_counts s)"
    "seen_count (mo_views s ! t) \<le> i" "v = msg_value (mo_counts s ! i)" "inv_valid s \<Longrightarrow> valid_view s w"
  using assms by (fastforce simp: load_count_def inv_valid_def view_le_join split: if_splits)

lemma cas_state_cases:
  assumes "cas_state target t i s = Some (b, s')" and "t < length (mo_views s)" and "inv_valid s"
  obtains (failed) w where "\<not> b" "s' = mo_see t w s" "view_le (mo_views s ! t) w" "valid_view s w"
  | (claimed) w new where "b" "s' = mo_see t w (s\<lparr>mo_states := mo_states s @ [\<lparr>msg_value = new, msg_view = w\<rparr>]\<rparr>)"
      "view_le (mo_views s ! t) w" "seen_state w = length (mo_states s)" "seen_count w < length (mo_counts s)"
      "set_state target (msg_value (last (mo_states s))) = (True, new)"
proof -
  obtain current s1 where load: "load_state t i s = Some (current, s1)"
    using assms(1) by (auto simp: cas_state_def split: option.splits)
  obtain w where w: "s1 = mo_see t w s" "view_le (mo_views s ! t) w" "i < length (mo_states s)"
    "seen_state (mo_views s ! t) \<le> i" "current = msg_value (mo_states s ! i)" "valid_view s w"
    using load_state_cases [OF load assms(2)] assms(3) by metis
  obtain done_it new where set: "set_state target current = (done_it, new)" by fastforce
  show ?thesis
  proof (cases done_it)
    case False
    with assms(1) load set w show ?thesis by (intro failed) (auto simp: cas_state_def)
  next
    case True
    with assms(1) load set have "Suc i = length (mo_states s)" by (auto simp: cas_state_def split: if_splits)
    then have "msg_value (last (mo_states s)) = current"
      using w(5) by (metis diff_Suc_1 last_conv_nth length_0_conv nat.distinct(1))
    with True assms(1,2) load set w show ?thesis
      by (intro claimed [of "w\<lparr>seen_state := length (mo_states s)\<rparr>" new])
         (auto simp: cas_state_def mo_see_def Let_def view_le_def valid_view_def split: if_splits)
  qed
qed

lemma rmw_count_eq:
  assumes "t < length (mo_views s)" and "inv_valid s"
  obtains w where "rmw_count f t s = mo_see t w (s\<lparr>mo_counts := mo_counts s @ [\<lparr>msg_value = f (msg_value (last (mo_counts s))), msg_view = w\<rparr>]\<rparr>)"
    "view_le (mo_views s ! t) w" "seen_count w = length (mo_counts s)" "seen_state w < length (mo_states s)"
proof
  let ?w = "(join_view (mo_views s ! t) (msg_view (last (mo_counts s))))\<lparr>seen_count := length (mo_counts s)\<rparr>"
  show "rmw_count f t s = mo_see t ?w (s\<lparr>mo_counts := mo_counts s @ [\<lparr>msg_value = f (msg_value (last (mo_counts s))), msg_view = ?w\<rparr>]\<rparr>)"
    by (simp add: rmw_count_def Let_def)
  have "mo_counts s \<noteq> []" using assms(2) by (auto simp: inv_valid_def valid_view_def)
  with assms have "valid_view s (mo_views s ! t)" "valid_view s (msg_view (last (mo_counts s)))"
    by (auto simp: inv_valid_def)
  then show "view_le (mo_views s ! t) ?w" "seen_count ?w = length (mo_counts s)" "seen_state ?w < length (mo_states s)"
    by (auto simp: view_le_def join_view_def valid_view_def)
qed

lemma fence_eq:
  assumes "t < length (mo_views s)" and "inv_valid s"
  obtains w f where "fence ordered t s = mo_see t w (s\<lparr>mo_fences := f\<rparr>)" "view_le (mo_views s ! t) w"
    "view_le (mo_fences s) f" "valid_view s w" "valid_view s f" "ordered \<Longrightarrow> w = f"
proof (cases ordered)
  case True
  with assms show ?thesis
    by (intro that [of "join_view (mo_views s ! t) (mo_fences s)" "join_view (mo_views s ! t) (mo_fences s)"])
       (auto simp: fence_def Let_def view_le_join inv_valid_def)
next
  case False
  with assms show ?thesis
    by (intro that [of "mo_views s ! t" "mo_fences s"]) (auto simp: fence_def mo_see_def view_le_def inv_valid_def)
qed

text \<open>What every step does: one thread moves, views grow, and the histories are extended.\<close>

definition step_effect :: "nat \<Rightarrow> mo_sys \<Rightarrow> mo_sys \<Rightarrow> bool" where
  "step_effect t s s' \<longleftrightarrow> t < length (mo_pcs s) \<and> inv_valid s' \<and>
     (\<exists>p. mo_pcs s' = (mo_pcs s)[t := p]) \<and>
     (\<exists>w. mo_views s' = (mo_views s)[t := w] \<and> view_le (mo_views s ! t) w) \<and>
     view_le (mo_fences s) (mo_fences s') \<and>
     (mo_states s' = mo_states s \<or> (\<exists>m. mo_states s' = mo_states s @ [m] \<and>
        (Running < msg_value (last (mo_states s)) \<longrightarrow> Running < msg_value m))) \<and>
     (mo_counts s' = mo_counts s \<or> (\<exists>m. mo_counts s' = mo_counts s @ [m]))"

lemma effect_mo_go: "step_effect t s s' \<Longrightarrow> step_effect t s (mo_go t p s')"
  by (auto simp: step_effect_def mo_go_def inv_valid_def valid_view_def)

lemma effect_shut: "step_effect t s s' \<Longrightarrow> step_effect t s (s'\<lparr>mo_shut := b\<rparr>)"
  by (auto simp: step_effect_def inv_valid_def valid_view_def)

lemma effect_late: "step_effect t s s' \<Longrightarrow> step_effect t s (s'\<lparr>mo_late := b\<rparr>)"
  by (auto simp: step_effect_def inv_valid_def valid_view_def)

lemma effect_refl: "t < length (mo_pcs s) \<Longrightarrow> inv_valid s \<Longrightarrow> step_effect t s s"
  by (auto simp: step_effect_def view_le_def intro: exI [of _ "mo_pcs s ! t"] exI [of _ "mo_views s ! t"])

lemma set_replaced: "t < length xs \<Longrightarrow> (\<forall>x\<in>set xs. P x) \<Longrightarrow> P y \<Longrightarrow> \<forall>x\<in>set (xs[t := y]). P x"
  using set_update_subset_insert by fastforce

lemma effect_see:
  assumes "t < length (mo_pcs s)" and "inv_valid s" and "view_le (mo_views s ! t) w" and "valid_view s w"
  shows "step_effect t s (mo_see t w s)"
proof -
  have "\<forall>v\<in>set ((mo_views s)[t := w]). valid_view s v"
    using assms by (intro set_replaced) (auto simp: inv_valid_def)
  with assms show ?thesis
    by (auto simp: step_effect_def mo_see_def inv_valid_def valid_view_def view_le_def
        intro: exI [of _ "mo_pcs s ! t"])
qed

lemma effect_states:
  assumes "t < length (mo_pcs s)" and "inv_valid s" and "view_le (mo_views s ! t) w"
    and "seen_state w = length (mo_states s)" and "seen_count w < length (mo_counts s)"
    and "Running < msg_value (last (mo_states s)) \<Longrightarrow> Running < new"
  shows "step_effect t s (mo_see t w (s\<lparr>mo_states := mo_states s @ [\<lparr>msg_value = new, msg_view = w\<rparr>]\<rparr>))" (is "step_effect t s ?s'")
proof -
  have old: "valid_view s v \<Longrightarrow> valid_view ?s' v" for v by (auto simp: valid_view_def mo_see_def)
  have new: "valid_view ?s' w" using assms by (simp add: valid_view_def mo_see_def)
  have "\<forall>v\<in>set ((mo_views s)[t := w]). valid_view ?s' v"
    using assms(1,2) old new by (intro set_replaced) (auto simp: inv_valid_def)
  then have "inv_valid ?s'"
    using assms(2) old new unfolding inv_valid_def by (auto simp: mo_see_def)
  with assms show ?thesis
    by (auto simp: step_effect_def mo_see_def view_le_def intro: exI [of _ "mo_pcs s ! t"])
qed

lemma effect_counts:
  assumes "t < length (mo_pcs s)" and "inv_valid s" and "view_le (mo_views s ! t) w"
    and "seen_count w = length (mo_counts s)" and "seen_state w < length (mo_states s)"
  shows "step_effect t s (mo_see t w (s\<lparr>mo_counts := mo_counts s @ [\<lparr>msg_value = n, msg_view = w\<rparr>]\<rparr>))" (is "step_effect t s ?s'")
proof -
  have old: "valid_view s v \<Longrightarrow> valid_view ?s' v" for v by (auto simp: valid_view_def mo_see_def)
  have new: "valid_view ?s' w" using assms by (simp add: valid_view_def mo_see_def)
  have "\<forall>v\<in>set ((mo_views s)[t := w]). valid_view ?s' v"
    using assms(1,2) old new by (intro set_replaced) (auto simp: inv_valid_def)
  then have "inv_valid ?s'"
    using assms(2) old new unfolding inv_valid_def by (auto simp: mo_see_def)
  with assms show ?thesis
    by (auto simp: step_effect_def mo_see_def view_le_def intro: exI [of _ "mo_pcs s ! t"])
qed

lemma effect_rmw_count:
  assumes "t < length (mo_pcs s)" and "inv_valid s"
  shows "step_effect t s (rmw_count f t s)"
proof -
  have "t < length (mo_views s)" using assms by (simp add: inv_valid_def)
  from rmw_count_eq [OF this assms(2), of f] show ?thesis
    using effect_counts [OF assms] by metis
qed

lemma effect_fence:
  assumes "t < length (mo_pcs s)" and "inv_valid s"
  shows "step_effect t s (fence ordered t s)"
proof -
  have "t < length (mo_views s)" using assms by (simp add: inv_valid_def)
  then obtain w f where eq: "fence ordered t s = mo_see t w (s\<lparr>mo_fences := f\<rparr>)" and w: "view_le (mo_views s ! t) w"
    "view_le (mo_fences s) f" "valid_view s w" "valid_view s f"
    using fence_eq [OF _ assms(2)] by metis
  have "step_effect t s (mo_see t w s)" using assms w by (intro effect_see)
  with w show ?thesis by (auto simp: eq step_effect_def inv_valid_def mo_see_def valid_view_def)
qed

lemma effect_cas_state:
  assumes "cas_state target t i s = Some (b, s')" and "t < length (mo_pcs s)" and "inv_valid s"
  shows "step_effect t s s'"
proof -
  have t: "t < length (mo_views s)" using assms by (simp add: inv_valid_def)
  from assms(1) t assms(3) show ?thesis
  proof (cases rule: cas_state_cases)
    case (failed w)
    with assms show ?thesis by (simp add: effect_see)
  next
    case (claimed w new)
    have "Running < msg_value (last (mo_states s)) \<Longrightarrow> Running < new"
      using claimed(6) by (cases target) (auto simp: compare_exchange_def less_execution_state_def split: if_splits)
    with claimed assms show ?thesis by (auto intro: effect_states)
  qed
qed

lemma mo_act_effect:
  assumes "mo_act ordered a s = Some s'" and "inv_valid s"
  shows "step_effect (actor a) s s'"
proof -
  have t: "actor a < length (mo_pcs s)"
    using assms(1) by (cases a) (auto simp: mo_at_def split: if_splits)
  then have v: "actor a < length (mo_views s)" using assms(2) by (simp add: inv_valid_def)
  have load: "step_effect (actor a) s s1" if "load_state (actor a) i s = Some (x, s1)" for i x s1
    using load_state_cases [OF that v] effect_see [OF t assms(2)] assms(2) by metis
  have count: "step_effect (actor a) s s1" if "load_count (actor a) i s = Some (x, s1)" for i x s1
    using load_count_cases [OF that v] effect_see [OF t assms(2)] assms(2) by metis
  note cas = effect_cas_state [OF _ t assms(2)]
  note effects = effect_mo_go effect_rmw_count [OF t assms(2)] effect_fence [OF t assms(2)]
    effect_shut [OF effect_refl [OF t assms(2)]] effect_late [OF effect_refl [OF t assms(2)]]
  show ?thesis
  proof (cases a)
    case (PostAttach u)
    with assms(1) effects(5) show ?thesis by (auto split: if_splits intro!: effects(1))
  next
    case (StopHalt u)
    with assms(1) effects(4) show ?thesis by (auto split: if_splits intro!: effects(1))
  qed (use assms(1) load count cas effects(2,3) in \<open>auto split: if_splits option.splits intro!: effects(1)\<close>)
qed

lemma mo_act_valid: "mo_act ordered a s = Some s' \<Longrightarrow> inv_valid s \<Longrightarrow> inv_valid s'"
  using mo_act_effect by (fastforce simp: step_effect_def)

section \<open>What a view has passed\<close>

text \<open>A load with this view finds the shutdown; finds a post under way.\<close>

definition sees_shutdown :: "mo_sys \<Rightarrow> view \<Rightarrow> bool" where
  "sees_shutdown s w \<longleftrightarrow> (\<forall>i. seen_state w \<le> i \<longrightarrow> i < length (mo_states s) \<longrightarrow> Running < msg_value (mo_states s ! i))"

definition sees_post :: "mo_sys \<Rightarrow> view \<Rightarrow> bool" where
  "sees_post s w \<longleftrightarrow> (\<forall>i. seen_count w \<le> i \<longrightarrow> i < length (mo_counts s) \<longrightarrow> msg_value (mo_counts s ! i) \<noteq> 0)"

definition in_post :: "mo_pc \<Rightarrow> bool" where
  "in_post p \<longleftrightarrow> p \<in> {MoCounted, MoChecking, MoPosting, MoLeaving}"

lemma sees_shutdown_le: "sees_shutdown s v \<Longrightarrow> view_le v w \<Longrightarrow> sees_shutdown s w"
  by (auto simp: sees_shutdown_def view_le_def)

lemma sees_post_le: "sees_post s v \<Longrightarrow> view_le v w \<Longrightarrow> sees_post s w"
  by (auto simp: sees_post_def view_le_def)

lemma shutdown_stays:
  assumes "step_effect t s s'" and "valid_view s w" and "sees_shutdown s w"
  shows "sees_shutdown s' w"
proof -
  have "Running < msg_value (last (mo_states s))"
    using assms(2) assms(3) [unfolded sees_shutdown_def, rule_format, of "length (mo_states s) - 1"]
    by (cases "mo_states s" rule: rev_cases) (auto simp: valid_view_def)
  with assms show ?thesis
    by (auto simp: step_effect_def sees_shutdown_def nth_append less_Suc_eq)
qed

text \<open>The counter is the number of threads between \<open>fetch_add\<close> and \<open>fetch_sub\<close>.\<close>

definition inv_count :: "mo_sys \<Rightarrow> bool" where
  "inv_count s \<longleftrightarrow> mo_counts s \<noteq> [] \<and>
     msg_value (last (mo_counts s)) = of_nat (length (filter in_post (mo_pcs s)))"

lemma count_not_zero:
  assumes "inv_count s" and "length (mo_pcs s) < 2 ^ 64" and "t < length (mo_pcs s)" and "in_post (mo_pcs s ! t)"
  shows "msg_value (last (mo_counts s)) \<noteq> 0"
proof -
  have "0 < length (filter in_post (mo_pcs s))"
    using assms(3,4) by (auto simp: filter_empty_conv)
  moreover have "length (filter in_post (mo_pcs s)) < 2 ^ 64"
    using length_filter_le assms(2) by (rule order_le_less_trans)
  ultimately show ?thesis
    using assms(1) by (auto simp: inv_count_def word_of_nat_eq_0_iff dest: dvd_imp_le)
qed

lemma in_post_simps [simp]:
  "\<not> in_post MoOutside" "in_post MoCounted" "in_post MoChecking" "in_post MoPosting" "in_post MoLeaving"
  "\<not> in_post MoClaimed" "\<not> in_post MoWaiting" "\<not> in_post MoHalting" "\<not> in_post MoHalted"
  by (simp_all add: in_post_def)

text \<open>The memory operations leave the threads, the queues and the other atomic alone.\<close>

lemma load_state_frame [frame_simps]:
  "load_state t i s = Some (v, s') \<Longrightarrow> mo_counts s' = mo_counts s \<and> mo_states s' = mo_states s \<and> mo_pcs s' = mo_pcs s \<and>
     mo_fences s' = mo_fences s \<and> mo_shut s' = mo_shut s \<and> mo_late s' = mo_late s"
  by (auto simp: load_state_def mo_see_def split: if_splits)

lemma load_count_frame [frame_simps]:
  "load_count t i s = Some (v, s') \<Longrightarrow> mo_counts s' = mo_counts s \<and> mo_states s' = mo_states s \<and> mo_pcs s' = mo_pcs s \<and>
     mo_fences s' = mo_fences s \<and> mo_shut s' = mo_shut s \<and> mo_late s' = mo_late s"
  by (auto simp: load_count_def mo_see_def split: if_splits)

lemma cas_state_frame [frame_simps]:
  "cas_state target t i s = Some (b, s') \<Longrightarrow> mo_counts s' = mo_counts s \<and> mo_pcs s' = mo_pcs s \<and>
     mo_fences s' = mo_fences s \<and> mo_shut s' = mo_shut s \<and> mo_late s' = mo_late s"
  by (auto simp: cas_state_def mo_see_def Let_def dest: load_state_frame split: if_splits option.splits prod.splits)

lemma fence_frame [simp]:
  "mo_counts (fence ordered t s) = mo_counts s" "mo_states (fence ordered t s) = mo_states s"
  "mo_pcs (fence ordered t s) = mo_pcs s" "mo_shut (fence ordered t s) = mo_shut s" "mo_late (fence ordered t s) = mo_late s"
  by (simp_all add: fence_def mo_see_def Let_def)

lemma rmw_count_frame [simp]:
  "mo_states (rmw_count f t s) = mo_states s" "mo_pcs (rmw_count f t s) = mo_pcs s"
  "mo_fences (rmw_count f t s) = mo_fences s" "mo_shut (rmw_count f t s) = mo_shut s" "mo_late (rmw_count f t s) = mo_late s"
  "mo_counts (rmw_count f t s) \<noteq> []"
  "msg_value (last (mo_counts (rmw_count f t s))) = f (msg_value (last (mo_counts s)))"
  by (simp_all add: rmw_count_def mo_see_def Let_def)

lemma mo_go_frame [simp]:
  "mo_counts (mo_go t p s) = mo_counts s" "mo_states (mo_go t p s) = mo_states s" "mo_views (mo_go t p s) = mo_views s"
  "mo_fences (mo_go t p s) = mo_fences s" "mo_shut (mo_go t p s) = mo_shut s" "mo_late (mo_go t p s) = mo_late s"
  "mo_pcs (mo_go t p s) = (mo_pcs s)[t := p]"
  by (simp_all add: mo_go_def)

lemma mo_act_count:
  assumes "mo_act ordered a s = Some s'" and "inv_count s"
  shows "inv_count s'"
proof -
  note at = filter_update [of "actor a" "mo_pcs s" in_post]
  show ?thesis
  proof (cases a)
    case (PostAdd t)
    with assms at [of MoCounted] show ?thesis by (auto simp: inv_count_def mo_at_def split: if_splits)
  next
    case (PostSub t)
    with assms(1) have t: "t < length (mo_pcs s)" "mo_pcs s ! t = MoLeaving"
      and s': "s' = mo_go t MoOutside (rmw_count (\<lambda>n. n - 1) t s)"
      by (auto simp: mo_at_def split: if_splits)
    from PostSub at [of MoOutside] t
    have "length (filter in_post (mo_pcs s)) = Suc (length (filter in_post ((mo_pcs s)[t := MoOutside])))" by simp
    with assms(2) show ?thesis by (simp add: inv_count_def s')
  next
    case (PostLoad t i)
    with assms at [of MoPosting] at [of MoLeaving] show ?thesis
      by (auto simp: inv_count_def mo_at_def dest!: load_state_frame split: if_splits option.splits)
  qed (use assms at [of MoChecking] at [of MoLeaving] at [of MoOutside] at [of MoClaimed] at [of MoWaiting]
      at [of MoHalting] at [of MoHalted] in
      \<open>auto simp: inv_count_def mo_at_def dest!: load_count_frame cas_state_frame split: if_splits option.splits\<close>)
qed

text \<open>While a thread is in \<open>post\<close>, what sees a post goes on to see one.\<close>

lemma post_stays:
  assumes "step_effect t s s'" and "inv_count s'" and "length (mo_pcs s') < 2 ^ 64"
    and "u < length (mo_pcs s')" and "in_post (mo_pcs s' ! u)" and "sees_post s w"
  shows "sees_post s' w"
proof -
  have "msg_value (last (mo_counts s')) \<noteq> 0" using count_not_zero assms(2-5) .
  with assms(1,6) show ?thesis
    by (auto simp: step_effect_def sees_post_def nth_append less_Suc_eq)
qed

section \<open>With thread fences\<close>

lemmas frames = load_state_frame load_count_frame cas_state_frame

text \<open>How a thread gets to a place.\<close>

lemma arrivals:
  assumes "mo_act ordered a s = Some s'" and "t < length (mo_pcs s)"
  shows "in_post (mo_pcs s' ! t) \<Longrightarrow> in_post (mo_pcs s ! t) \<or> a = PostAdd t"
    and "mo_pcs s' ! t = MoChecking \<Longrightarrow> mo_pcs s ! t = MoChecking \<or> a = PostFence t"
    and "mo_pcs s' ! t = MoPosting \<Longrightarrow> mo_pcs s ! t = MoPosting \<or> mo_pcs s ! t = MoChecking \<and> (\<exists>i. a = PostLoad t i)"
    and "mo_pcs s' ! t \<in> {MoClaimed, MoWaiting, MoHalting, MoHalted} \<Longrightarrow>
      mo_pcs s ! t \<in> {MoClaimed, MoWaiting, MoHalting, MoHalted} \<or> (\<exists>i. a = StopClaim t i)"
    and "mo_pcs s' ! t = MoWaiting \<Longrightarrow> mo_pcs s ! t = MoWaiting \<or> a = StopFence t"
    and "mo_pcs s' ! t \<in> {MoHalting, MoHalted} \<Longrightarrow> 
      mo_pcs s ! t \<in> {MoHalting, MoHalted} \<or> mo_pcs s ! t = MoWaiting \<and> mo_pcs s' ! t = MoHalting \<and> (\<exists>i. a = StopLoad t i)"
  using assms
  by (cases a; force simp: mo_at_def nth_list_update dest!: frames split: if_splits option.splits)+

lemma shut_by:
  "mo_act ordered a s = Some s' \<Longrightarrow> mo_shut s' \<Longrightarrow> mo_shut s \<or> (\<exists>u<length (mo_pcs s). mo_pcs s ! u = MoHalting)"
  by (cases a; force simp: mo_at_def dest!: frames split: if_splits option.splits)

text \<open>What holds between two states, of any thread and of the shared view of the fences.\<close>

lemma carried:
  assumes "mo_act ordered a s = Some s'" and "inv_valid s" and "inv_count s" and "length (mo_pcs s) < 2 ^ 64"
  shows "length (mo_pcs s') = length (mo_pcs s)"
    and "t < length (mo_pcs s) \<Longrightarrow> sees_shutdown s (mo_views s ! t) \<Longrightarrow> sees_shutdown s' (mo_views s' ! t)"
    and "sees_shutdown s (mo_fences s) \<Longrightarrow> sees_shutdown s' (mo_fences s')"
    and "t < length (mo_pcs s) \<Longrightarrow> u < length (mo_pcs s) \<Longrightarrow> in_post (mo_pcs s' ! u) \<Longrightarrow>
      sees_post s (mo_views s ! t) \<Longrightarrow> sees_post s' (mo_views s' ! t)"
    and "u < length (mo_pcs s) \<Longrightarrow> in_post (mo_pcs s' ! u) \<Longrightarrow> sees_post s (mo_fences s) \<Longrightarrow> sees_post s' (mo_fences s')"
proof -
  have effect: "step_effect (actor a) s s'" using assms(1,2) by (rule mo_act_effect)
  have count: "inv_count s'" using assms(1,3) by (rule mo_act_count)
  show len: "length (mo_pcs s') = length (mo_pcs s)" using effect by (auto simp: step_effect_def)
  have views: "view_le (mo_views s ! t) (mo_views s' ! t)" if "t < length (mo_pcs s)" for t
    using effect that assms(2) by (auto simp: step_effect_def nth_list_update inv_valid_def view_le_def)
  have fences: "view_le (mo_fences s) (mo_fences s')" using effect by (simp add: step_effect_def)
  have valid: "valid_view s (mo_views s ! t)" if "t < length (mo_pcs s)" for t
    using assms(2) that by (auto simp: inv_valid_def)
  have valid_fences: "valid_view s (mo_fences s)" using assms(2) by (simp add: inv_valid_def)
  show "sees_shutdown s' (mo_views s' ! t)" if "t < length (mo_pcs s)" "sees_shutdown s (mo_views s ! t)"
    using shutdown_stays [OF effect valid] views sees_shutdown_le that by blast
  show "sees_shutdown s' (mo_fences s')" if "sees_shutdown s (mo_fences s)"
    using shutdown_stays [OF effect valid_fences] fences sees_shutdown_le that by blast
  show "sees_post s' (mo_views s' ! t)"
    if "t < length (mo_pcs s)" "u < length (mo_pcs s)" "in_post (mo_pcs s' ! u)" "sees_post s (mo_views s ! t)"
    using sees_post_le [OF post_stays [OF effect count _ _ that(3,4)] views] that(1,2) assms(4) len by simp
  show "sees_post s' (mo_fences s')"
    if "u < length (mo_pcs s)" "in_post (mo_pcs s' ! u)" "sees_post s (mo_fences s)"
    using sees_post_le [OF post_stays [OF effect count _ _ that(2,3)] fences] that(1) assms(4) len by simp
qed

text \<open>What the memory operations give the thread that acts.\<close>

lemma counted_sees_post:
  assumes "mo_act ordered (PostAdd t) s = Some s'" and "inv_valid s" and "inv_count s" and "length (mo_pcs s) < 2 ^ 64"
  shows "sees_post s' (mo_views s' ! t)"
proof -
  from assms(1) have t: "t < length (mo_pcs s)" and s': "s' = mo_go t MoCounted (rmw_count (\<lambda>n. n + 1) t s)"
    by (auto simp: mo_at_def split: if_splits)
  then have v: "t < length (mo_views s)" using assms(2) by (simp add: inv_valid_def)
  then obtain m w where "rmw_count (\<lambda>n. n + 1) t s = mo_see t w (s\<lparr>mo_counts := mo_counts s @ [m]\<rparr>)"
    and "seen_count w = length (mo_counts s)"
    using rmw_count_eq [OF v assms(2)] by metis
  with v have "mo_views s' ! t = w" "length (mo_counts s') = Suc (seen_count w)"
    by (simp_all add: s' mo_see_def)
  moreover have "msg_value (last (mo_counts s')) \<noteq> 0"
    using t assms(4) mo_act_count [OF assms(1,3)] by (intro count_not_zero [of s' t]) (simp_all add: s')
  moreover have "sees_post u w"
    if "length (mo_counts u) = Suc (seen_count w)" "msg_value (last (mo_counts u)) \<noteq> 0" for u w
    using that by (cases "mo_counts u" rule: rev_cases) (auto simp: sees_post_def less_Suc_eq nth_append)
  ultimately show ?thesis by simp
qed

lemma claimed_sees_shutdown:
  assumes "mo_act ordered (StopClaim t i) s = Some s'" and "mo_pcs s' ! t = MoClaimed" and "inv_valid s"
  shows "sees_shutdown s' (mo_views s' ! t)"
proof -
  from assms(1,2) obtain s1 where t: "t < length (mo_pcs s)" and cas: "cas_state ShuttingDown t i s = Some (True, s1)"
    and s': "s' = mo_go t MoClaimed s1"
    by (auto simp: mo_at_def dest: cas_state_frame split: if_splits option.splits)
  then have "t < length (mo_views s)" using assms(3) by (simp add: inv_valid_def)
  from cas this assms(3) show ?thesis
  proof (cases rule: cas_state_cases)
    case (claimed w new)
    then have "new = ShuttingDown" by (auto simp: compare_exchange_def split: if_splits)
    with claimed \<open>t < length (mo_views s)\<close> show ?thesis
      by (auto simp: s' sees_shutdown_def mo_see_def nth_append less_execution_state_def)
  qed simp
qed

lemma fence_view:
  assumes "t < length (mo_pcs s)" and "inv_valid s"
  shows "mo_fences (fence True t s) = mo_views (fence True t s) ! t"
  using assms by (simp add: fence_def Let_def mo_see_def inv_valid_def)

text \<open>
  The invariants: a thread in \<open>post\<close> knows of its own count; past its fence so do all later
  fences; a thread in \<open>stop\<close> knows of the shutdown, and past its fence so do all later fences.
\<close>

definition inv_own :: "mo_sys \<Rightarrow> bool" where
  "inv_own s \<longleftrightarrow> (\<forall>t<length (mo_pcs s).
     (in_post (mo_pcs s ! t) \<longrightarrow> sees_post s (mo_views s ! t)) \<and>
     (mo_pcs s ! t \<in> {MoClaimed, MoWaiting, MoHalting, MoHalted} \<longrightarrow> sees_shutdown s (mo_views s ! t)))"

definition inv_fenced :: "mo_sys \<Rightarrow> bool" where
  "inv_fenced s \<longleftrightarrow>
     (\<forall>t<length (mo_pcs s). mo_pcs s ! t \<in> {MoChecking, MoPosting} \<longrightarrow> sees_post s (mo_fences s)) \<and>
     (\<forall>t<length (mo_pcs s). mo_pcs s ! t \<in> {MoWaiting, MoHalting, MoHalted} \<longrightarrow> sees_shutdown s (mo_fences s)) \<and>
     (mo_shut s \<longrightarrow> sees_shutdown s (mo_fences s))"

text \<open>Of a post and a \<open>stop\<close> past their fences one knows of the other.\<close>

definition inv_wait :: "mo_sys \<Rightarrow> bool" where
  "inv_wait s \<longleftrightarrow> (\<forall>u<length (mo_pcs s). \<forall>t<length (mo_pcs s). mo_pcs s ! u = MoWaiting \<longrightarrow>
     (mo_pcs s ! t = MoChecking \<longrightarrow> sees_shutdown s (mo_views s ! t) \<or> sees_post s (mo_views s ! u)) \<and>
     (mo_pcs s ! t = MoPosting \<longrightarrow> sees_post s (mo_views s ! u)))"

definition inv_halt :: "mo_sys \<Rightarrow> bool" where
  "inv_halt s \<longleftrightarrow> (mo_shut s \<or> (\<exists>u<length (mo_pcs s). mo_pcs s ! u \<in> {MoHalting, MoHalted}) \<longrightarrow>
     (\<forall>t<length (mo_pcs s). mo_pcs s ! t \<noteq> MoPosting \<and>
        (mo_pcs s ! t = MoChecking \<longrightarrow> sees_shutdown s (mo_views s ! t))))"

lemma stops_at_claimed:
  "mo_act ordered (StopClaim t i) s = Some s' \<Longrightarrow> mo_pcs s' ! t \<in> {MoClaimed, MoOutside}"
  by (auto simp: mo_at_def dest: cas_state_frame split: if_splits option.splits)

lemma own_step:
  assumes act: "mo_act ordered a s = Some s'" and ok: "inv_valid s" "inv_count s" "length (mo_pcs s) < 2 ^ 64"
    and own: "inv_own s"
  shows "inv_own s'"
proof -
  note keep = carried [OF act ok] and arr = arrivals [OF act]
  have "sees_post s' (mo_views s' ! t)" if "t < length (mo_pcs s)" "in_post (mo_pcs s' ! t)" for t
  proof (cases "a = PostAdd t")
    case True
    with act ok show ?thesis using counted_sees_post by blast
  next
    case False
    with arr(1) that own have "sees_post s (mo_views s ! t)" by (auto simp: inv_own_def)
    with keep(4) that show ?thesis by blast
  qed
  moreover have "sees_shutdown s' (mo_views s' ! t)"
    if t: "t < length (mo_pcs s)" "mo_pcs s' ! t \<in> {MoClaimed, MoWaiting, MoHalting, MoHalted}" for t
  proof (cases "\<exists>i. a = StopClaim t i")
    case True
    then obtain i where "a = StopClaim t i" by blast
    with act ok t(2) show ?thesis using claimed_sees_shutdown [of ordered t i s s'] stops_at_claimed [of ordered t i s s'] by auto
  next
    case False
    with arr(4) [OF t] own t(1) have "sees_shutdown s (mo_views s ! t)" by (auto simp: inv_own_def)
    with keep(2) t(1) show ?thesis by blast
  qed
  ultimately show ?thesis using keep(1) by (auto simp: inv_own_def)
qed

text \<open>The fences: after that of a thread the shared view is the view of the thread.\<close>

lemma fenced_view:
  assumes "mo_act True a s = Some s'" and "inv_valid s" and "a = PostFence t \<or> a = StopFence t"
  shows "t < length (mo_pcs s) \<and> mo_fences s' = mo_views s' ! t"
  using assms fence_view [OF _ assms(2), of t] by (auto simp: mo_at_def split: if_splits)

lemma fenced_step:
  assumes act: "mo_act True a s = Some s'" and ok: "inv_valid s" "inv_count s" "length (mo_pcs s) < 2 ^ 64"
    and own: "inv_own s'" and fenced: "inv_fenced s" and halt: "inv_halt s"
  shows "inv_fenced s'"
proof -
  note keep = carried [OF act ok] and arr = arrivals [OF act]
  have "sees_post s' (mo_fences s')" if t: "t < length (mo_pcs s)" "mo_pcs s' ! t \<in> {MoChecking, MoPosting}" for t
  proof (cases "a = PostFence t")
    case True
    with fenced_view [OF act ok(1)] own t keep(1) show ?thesis by (auto simp: inv_own_def)
  next
    case False
    with arr(2,3) t have "mo_pcs s ! t \<in> {MoChecking, MoPosting}" by auto
    with fenced t(1) have "sees_post s (mo_fences s)" by (auto simp: inv_fenced_def)
    with keep(5) t show ?thesis by auto
  qed
  moreover have stop: "sees_shutdown s' (mo_fences s')"
    if t: "t < length (mo_pcs s)" "mo_pcs s' ! t \<in> {MoWaiting, MoHalting, MoHalted}" for t
  proof (cases "a = StopFence t")
    case True
    with fenced_view [OF act ok(1)] own t keep(1) show ?thesis by (auto simp: inv_own_def)
  next
    case False
    with arr(5,6) t have "mo_pcs s ! t \<in> {MoWaiting, MoHalting, MoHalted}" by auto
    with fenced t(1) have "sees_shutdown s (mo_fences s)" by (auto simp: inv_fenced_def)
    with keep(3) show ?thesis .
  qed
  moreover have "sees_shutdown s' (mo_fences s')" if "mo_shut s'"
  proof -
    from shut_by [OF act that] consider "mo_shut s" | u where "u < length (mo_pcs s)" "mo_pcs s ! u = MoHalting"
      by blast
    then have "sees_shutdown s (mo_fences s)" using fenced by cases (auto simp: inv_fenced_def)
    with keep(3) show ?thesis .
  qed
  ultimately show ?thesis using keep(1) by (auto simp: inv_fenced_def)
qed

lemma loads_running:
  "mo_act ordered (PostLoad t i) s = Some s' \<Longrightarrow> mo_pcs s' ! t = MoPosting \<Longrightarrow> \<not> sees_shutdown s (mo_views s ! t)"
  by (auto simp: load_state_def sees_shutdown_def mo_at_def mo_see_def less_le_not_le split: if_splits)

lemma loads_zero:
  assumes "mo_act ordered (StopLoad t i) s = Some s'" and "mo_pcs s' ! t = MoHalting"
  shows "\<not> sees_post s (mo_views s ! t)"
  using assms by (auto simp: load_count_def sees_post_def mo_at_def mo_see_def word_gt_0 split: if_splits)

lemma wait_step:
  assumes act: "mo_act True a s = Some s'" and ok: "inv_valid s" "inv_count s" "length (mo_pcs s) < 2 ^ 64"
    and fenced: "inv_fenced s" and "inv_wait s"
  shows "inv_wait s'"
proof -
  note keep = carried [OF act ok] and arr = arrivals [OF act]
  have "(mo_pcs s' ! t = MoChecking \<longrightarrow> sees_shutdown s' (mo_views s' ! t) \<or> sees_post s' (mo_views s' ! u)) \<and>
     (mo_pcs s' ! t = MoPosting \<longrightarrow> sees_post s' (mo_views s' ! u))"
    if u: "u < length (mo_pcs s)" "mo_pcs s' ! u = MoWaiting" and t: "t < length (mo_pcs s)" for u t
  proof (cases "mo_pcs s' ! t \<in> {MoChecking, MoPosting}")
    case True
    then have post: "in_post (mo_pcs s' ! t)" by auto
    consider (stop) "a = StopFence u" | (post) "a = PostFence t" "mo_pcs s' ! t = MoChecking" "mo_pcs s ! u = MoWaiting"
      | (load) i where "a = PostLoad t i" "mo_pcs s ! t = MoChecking" "mo_pcs s' ! t = MoPosting" "mo_pcs s ! u = MoWaiting"
      | (old) "mo_pcs s ! u = MoWaiting" "mo_pcs s ! t = mo_pcs s' ! t"
      using arr(5) [OF u] arr(2,3) [OF t] True by auto
    then show ?thesis
    proof cases
      case stop
      with arr(2,3) [OF t] True fenced t have "sees_post s (mo_fences s)" by (auto simp: inv_fenced_def)
      with keep(5) [OF t post] fenced_view [OF act ok(1)] stop show ?thesis by auto
    next
      case post
      with fenced u have "sees_shutdown s (mo_fences s)" by (auto simp: inv_fenced_def)
      with keep(3) fenced_view [OF act ok(1)] post show ?thesis by auto
    next
      case (load i)
      have "\<not> sees_shutdown s (mo_views s ! t)"
        using act load(1,3) loads_running by blast
      with assms(6) u t load have "sees_post s (mo_views s ! u)" by (auto simp: inv_wait_def)
      with keep(4) [OF u(1) t post] load show ?thesis by auto
    next
      case old
      with assms(6) u t have "mo_pcs s ! t = MoChecking \<Longrightarrow> sees_shutdown s (mo_views s ! t) \<or> sees_post s (mo_views s ! u)"
        "mo_pcs s ! t = MoPosting \<Longrightarrow> sees_post s (mo_views s ! u)" unfolding inv_wait_def by blast+
      with old(2) keep(2) [OF t] keep(4) [OF u(1) t post] show ?thesis by auto
    qed
  qed auto
  with keep(1) show ?thesis by (simp add: inv_wait_def)
qed

lemma halt_step:
  assumes act: "mo_act True a s = Some s'" and ok: "inv_valid s" "inv_count s" "length (mo_pcs s) < 2 ^ 64"
    and fenced: "inv_fenced s" and wait: "inv_wait s" and halt: "inv_halt s"
  shows "inv_halt s'"
proof -
  note keep = carried [OF act ok] and arr = arrivals [OF act]
  have "mo_pcs s' ! t \<noteq> MoPosting \<and> (mo_pcs s' ! t = MoChecking \<longrightarrow> sees_shutdown s' (mo_views s' ! t))"
    if shut: "mo_shut s' \<or> (\<exists>u<length (mo_pcs s). mo_pcs s' ! u \<in> {MoHalting, MoHalted})" and t: "t < length (mo_pcs s)" for t
  proof -
    from shut consider (old) "mo_shut s \<or> (\<exists>u<length (mo_pcs s). mo_pcs s ! u \<in> {MoHalting, MoHalted})"
      | (new) u i where "u < length (mo_pcs s)" "a = StopLoad u i" "mo_pcs s ! u = MoWaiting" "mo_pcs s' ! u = MoHalting"
      using shut_by [OF act] arr(6) by blast
    then show ?thesis
    proof cases
      case old
      then have there: "mo_pcs s ! t \<noteq> MoPosting" "mo_pcs s ! t = MoChecking \<Longrightarrow> sees_shutdown s (mo_views s ! t)"
        using halt t unfolding inv_halt_def by blast+
      have "sees_shutdown s (mo_fences s)" using old fenced by (auto simp: inv_fenced_def)
      with keep(3) have "sees_shutdown s' (mo_fences s')" .
      then have "sees_shutdown s' (mo_views s' ! t)" if "mo_pcs s' ! t = MoChecking"
        using arr(2) [OF t that] there(2) keep(2) [OF t] fenced_view [OF act ok(1)] by auto
      moreover have "mo_pcs s' ! t \<noteq> MoPosting"
        using arr(3) [OF t] there act loads_running by blast
      ultimately show ?thesis by blast
    next
      case (new u i)
      then have "\<not> sees_post s (mo_views s ! u)" using act loads_zero by blast
      then have "mo_pcs s ! t \<noteq> MoPosting" "mo_pcs s ! t = MoChecking \<Longrightarrow> sees_shutdown s (mo_views s ! t)"
        using wait t new(1,3) unfolding inv_wait_def by blast+
      with arr(2,3) [OF t] new(2) keep(2) [OF t] show ?thesis by auto
    qed
  qed
  with keep(1) show ?thesis by (simp add: inv_halt_def)
qed

text \<open>All of it together, and that no event is attached late.\<close>

definition mo_inv :: "nat \<Rightarrow> mo_sys \<Rightarrow> bool" where
  "mo_inv n s \<longleftrightarrow> length (mo_pcs s) = n \<and> inv_valid s \<and> inv_count s \<and> inv_own s \<and> inv_fenced s \<and> inv_wait s \<and>
     inv_halt s \<and> \<not> mo_late s"

lemma late_step:
  assumes "mo_act ordered a s = Some s'" and "inv_halt s" and "\<not> mo_late s"
  shows "\<not> mo_late s'"
  using assms by (cases a) (auto simp: mo_at_def inv_halt_def dest!: frames split: if_splits option.splits)

interpretation fenced: invariant_system "mo_start n" "step_of (mo_act True)" "\<lambda>s. n < 2 ^ 64 \<longrightarrow> mo_inv n s" for n
proof
  fix s
  assume "mo_start n s"
  then show "n < 2 ^ 64 \<longrightarrow> mo_inv n s"
    by (auto simp: mo_start_def mo_inv_def inv_valid_def valid_view_def inv_count_def inv_own_def inv_fenced_def
        inv_wait_def inv_halt_def nothing_seen_def)
next
  fix s s'
  assume inv: "n < 2 ^ 64 \<longrightarrow> mo_inv n s" and "step_of (mo_act True) s s'"
  then obtain a where act: "mo_act True a s = Some s'" by (auto simp: step_of_def)
  show "n < 2 ^ 64 \<longrightarrow> mo_inv n s'"
  proof
    assume "n < 2 ^ 64"
    with inv have "mo_inv n s" by blast
    then have ok: "inv_valid s" "inv_count s" "length (mo_pcs s) < 2 ^ 64" and len: "length (mo_pcs s) = n"
      and own: "inv_own s" and fenced: "inv_fenced s" and wait: "inv_wait s" and halt: "inv_halt s" and late: "\<not> mo_late s"
      using \<open>n < 2 ^ 64\<close> by (auto simp: mo_inv_def)
    have own': "inv_own s'" by (rule own_step [OF act ok own])
    have "inv_fenced s'" by (rule fenced_step [OF act ok own' fenced halt])
    moreover have "inv_wait s'" by (rule wait_step [OF act ok fenced wait])
    moreover have "inv_halt s'" by (rule halt_step [OF act ok fenced wait halt])
    moreover have "\<not> mo_late s'" by (rule late_step [OF act halt late])
    moreover have "length (mo_pcs s') = n" using carried(1) [OF act ok] len by simp
    ultimately show "mo_inv n s'"
      using own' mo_act_valid [OF act ok(1)] mo_act_count [OF act ok(2)] by (simp add: mo_inv_def)
  qed
qed

section \<open>With signal fences\<close>

text \<open>
  The thread 0 starts and stops the context, the thread 1 posts: \<open>stop\<close> reads the count from
  before the post, and \<open>post\<close> the state from before the \<open>stop\<close>.
\<close>

definition late_run :: "mo_action list" where
  "late_run = [RunClaim 0 0, PostAdd 1, PostFence 1, StopClaim 0 1, StopFence 0, StopLoad 0 0, StopHalt 0,
     PostLoad 1 1, PostAttach 1]"

lemma late_run_is_late:
  assumes "mo_start (Suc (Suc k)) s"
  shows "\<exists>s'. run_acts (mo_act False) late_run s = Some s' \<and> mo_late s'"
  using assms
  by (simp add: mo_start_def late_run_def mo_at_def cas_state_def load_state_def load_count_def compare_exchange_def
      rmw_count_def fence_def mo_see_def mo_go_def join_view_def nothing_seen_def Let_def less_eq_execution_state_def)

section \<open>Property\<close>

text \<open>
  C6. The comment at the fences of \<open>stop\<close> and \<open>post\<close> says that they forbid reordering. By the
  memory orders of the code they do not: an event can be attached to a completion queue after
  its shutdown. With sequentially consistent thread fences in their place it cannot, for any
  number of threads and however stale the loads are.
\<close>

theorem late_event_iff_signal_fence:
  assumes "1 < n" and "n < 2 ^ 64"
  shows "(\<exists>s. reach (mo_start n) (step_of (mo_act ordered)) s \<and> mo_late s) \<longleftrightarrow> \<not> ordered"
proof (cases ordered)
  case True
  then have "\<not> mo_late s" if "reach (mo_start n) (step_of (mo_act ordered)) s" for s
    using fenced.inv_reach [of n s] that assms(2) by (simp add: mo_inv_def)
  with True show ?thesis by blast
next
  case False
  obtain k where n: "n = Suc (Suc k)" using assms(1) by (auto dest!: less_imp_Suc_add)
  obtain s where start: "mo_start n s" by (auto simp: mo_start_def)
  then obtain s' where "run_acts (mo_act False) late_run s = Some s'" "mo_late s'"
    using late_run_is_late n by blast
  with start have "reach (mo_start n) (step_of (mo_act False)) s'" by (blast intro: run_acts_reach reach_init)
  with \<open>mo_late s'\<close> False show ?thesis by auto
qed

theorem late_event_witness:
  "(\<exists>s. reach (mo_start 2) (step_of (mo_act False)) s \<and> mo_late s) \<and>
   \<not> (\<exists>s. reach (mo_start 2) (step_of (mo_act True)) s \<and> mo_late s)"
  using late_event_iff_signal_fence [of 2 False] late_event_iff_signal_fence [of 2 True] by simp

end
