(* ===== verification/Server_Shutdown.thy ===== *)
theory Server_Shutdown
  imports Completion_Events Execution_Worker
begin

text \<open>
  Stopping a server and stopping the context it is attached to. The two are separate calls:
  \<open>ServerContainer::stop\<close> (\<open>greeting-grpc/greeting-server.cpp\<close>) shuts the grpc server down and
  waits for it, \<open>ExecutionContext::stop\<close> (\<open>sgrpc/execution_context.cpp\<close>) shuts the completion
  queue of the server down. In between, the handlers of \<open>sgrpc/server_rpc_handler.hpp\<close> go on
  making operations on that queue.

  The state is one completion queue of a server, with its handlers (\<open>Completion_Events\<close>).
  What grpc documents is built into the steps and named hypotheses: a request operation
  fails only after the shutdown of the server and succeeds only before its end;
  \<open>Server::Wait\<close> returns when the calls that were taken have been answered; a queue reports
  its shutdown only when it is shut down and has nothing outstanding; no operation may be
  begun on a queue after its \<open>Shutdown\<close>.
\<close>

section \<open>Definitions\<close>

text \<open>\<open>sd_late\<close> counts the operations that were begun on the queue after its shutdown.\<close>

record ('d, 'f, 'resp) server_side =
  sd_events :: "('d, 'f, 'resp) events"
  sd_server_stopped :: bool
  sd_queue_shut :: bool
  sd_late :: nat

text \<open>The operations begun between two states, when one of \<open>before\<close> was taken out.\<close>

definition begun :: "nat multiset \<Rightarrow> ('d, 'f, 'resp) events \<Rightarrow> nat" where
  "begun before s' = size (ev_ops s') - size before"

definition after_events ::
  "nat multiset \<Rightarrow> ('d, 'f, 'resp) events \<Rightarrow> ('d, 'f, 'resp) server_side \<Rightarrow> ('d, 'f, 'resp) server_side" where
  "after_events before ev s =
     s\<lparr>sd_events := ev, sd_late := sd_late s + (if sd_queue_shut s then begun before ev else 0)\<rparr>"

definition take_op :: "nat \<Rightarrow> ('d, 'f, 'resp) events \<Rightarrow> ('d, 'f, 'resp) events" where
  "take_op tag ev = ev\<lparr>ev_ops := ev_ops ev - {#tag#}\<rparr>"

definition listening :: "nat \<Rightarrow> ('d, 'f, 'resp) server_side \<Rightarrow> bool" where
  "listening tag s \<longleftrightarrow> ev_heap (sd_events s) tag = Some (HandlerObject False)"

definition serving :: "nat \<Rightarrow> ('d, 'f, 'resp) server_side \<Rightarrow> bool" where
  "serving tag s \<longleftrightarrow> ev_heap (sd_events s) tag = Some (HandlerObject True)"

definition outstanding :: "nat \<Rightarrow> ('d, 'f, 'resp) server_side \<Rightarrow> bool" where
  "outstanding tag s \<longleftrightarrow> tag \<in># ev_ops (sd_events s)"

text \<open>
  A worker polls the queue and completes a handler: a request has arrived, or the server is
  shut down and there will be none, or the answer of a handler has been sent. Scheduled work
  ends. The server is stopped, or the context shuts the queue down; with \<open>orderly\<close> the
  context does so only after the server.
\<close>

inductive server_step ::
  "('req, 'resp) rpc_logic \<Rightarrow> bool \<Rightarrow> ('d, 'f, 'resp) server_side \<Rightarrow> ('d, 'f, 'resp) server_side \<Rightarrow> bool"
  for logic :: "('req, 'resp) rpc_logic" and orderly :: bool where
  request_arrives: "listening tag s \<Longrightarrow> outstanding tag s \<Longrightarrow> \<not> sd_server_stopped s \<Longrightarrow>
    ev = take_op tag (sd_events s) \<Longrightarrow> complete logic tag True request ev = Inr ev' \<Longrightarrow>
    server_step logic orderly s (after_events (ev_ops ev) ev' s)"
| request_fails: "listening tag s \<Longrightarrow> outstanding tag s \<Longrightarrow> sd_server_stopped s \<Longrightarrow>
    ev = take_op tag (sd_events s) \<Longrightarrow> complete logic tag False request ev = Inr ev' \<Longrightarrow>
    server_step logic orderly s (after_events (ev_ops ev) ev' s)"
| answer_sent: "serving tag s \<Longrightarrow> outstanding tag s \<Longrightarrow>
    ev = take_op tag (sd_events s) \<Longrightarrow> complete logic tag is_ok request ev = Inr ev' \<Longrightarrow>
    server_step logic orderly s (after_events (ev_ops ev) ev' s)"
| work_ends: "tag \<in># ev_work (sd_events s) \<Longrightarrow> ev = sd_events s \<Longrightarrow> end_work tag outcome ev = Inr ev' \<Longrightarrow>
    server_step logic orderly s (after_events (ev_ops ev) ev' s)"
| server_stop: "ev_work (sd_events s) = {#} \<Longrightarrow> \<forall>tag. serving tag s \<longrightarrow> outstanding tag s \<Longrightarrow>
    server_step logic orderly s (s\<lparr>sd_server_stopped := True\<rparr>)"
| queue_shutdown: "orderly \<longrightarrow> sd_server_stopped s \<Longrightarrow>
    server_step logic orderly s (s\<lparr>sd_queue_shut := True\<rparr>)"

text \<open>\<open>GenericServerContainer::init\<close> has wired \<open>n\<close> handlers to the queue.\<close>

definition wired :: "nat \<Rightarrow> ('d, 'f, 'resp) events" where
  "wired n = (new_handler ^^ n) no_events"

definition server_start :: "nat \<Rightarrow> ('d, 'f, 'resp) server_side \<Rightarrow> bool" where
  "server_start n s \<longleftrightarrow>
     s = \<lparr>sd_events = wired n, sd_server_stopped = False, sd_queue_shut = False, sd_late = 0\<rparr>"

text \<open>What is relied on of the polling of a completion queue: it reports the shutdown late enough.\<close>

definition reports_shutdown ::
  "('e, 'cq) cq_api \<Rightarrow> ('cq \<Rightarrow> ('d, 'f, 'resp) server_side) \<Rightarrow> bool" where
  "reports_shutdown api view \<longleftrightarrow>
     (\<forall>cq. fst (cq_async_next api cq) = SHUTDOWN \<longrightarrow>
        sd_queue_shut (view cq) \<and> ev_ops (sd_events (view cq)) = {#})"

section \<open>Lemmas\<close>

definition only_handlers :: "('d, 'f, 'resp) events \<Rightarrow> bool" where
  "only_handlers ev \<longleftrightarrow> (\<forall>tag obj. ev_heap ev tag = Some obj \<longrightarrow> (\<exists>d. obj = HandlerObject d))"

definition server_inv :: "nat \<Rightarrow> ('d, 'f, 'resp) server_side \<Rightarrow> bool" where
  "server_inv n s \<longleftrightarrow> owned (sd_events s) \<and> only_handlers (sd_events s) \<and>
     (\<not> sd_server_stopped s \<longrightarrow> tally is_listening (sd_events s) = n) \<and>
     (sd_server_stopped s \<longrightarrow> ev_work (sd_events s) = {#} \<and> (\<forall>tag. serving tag s \<longrightarrow> outstanding tag s))"

lemma only_handlers_new: "only_handlers ev \<Longrightarrow> only_handlers (new_object (HandlerObject d) ev)"
  by (simp add: only_handlers_def new_object_def)

lemma wired_inv: "owned (wired n) \<and> only_handlers (wired n) \<and> tally is_listening (wired n) = n"
proof (induction n)
  case 0
  then show ?case using owned_none by (simp add: wired_def only_handlers_def) (simp add: no_events_def tally_def)
next
  case (Suc n)
  have wired: "wired (Suc n) = new_object (HandlerObject False) (wired n)"
    by (simp add: wired_def new_handler_def)
  from Suc show ?case by (simp add: wired tally_new owned_new only_handlers_new)
qed

lemma take_op_simps [simp]:
  "ev_heap (take_op tag ev) = ev_heap ev" "ev_next (take_op tag ev) = ev_next ev"
  "ev_work (take_op tag ev) = ev_work ev" "ev_ops (take_op tag ev) = ev_ops ev - {#tag#}"
  "tally P (take_op tag ev) = tally P ev"
  by (simp_all add: take_op_def)

lemma after_events_simps [simp]:
  "sd_events (after_events before ev s) = ev"
  "sd_server_stopped (after_events before ev s) = sd_server_stopped s"
  "sd_queue_shut (after_events before ev s) = sd_queue_shut s"
  "sd_late (after_events before ev s) = sd_late s + (if sd_queue_shut s then begun before ev else 0)"
  by (simp_all add: after_events_def)

lemma serving_after [simp]:
  "serving tag (after_events before ev s) \<longleftrightarrow> ev_heap ev tag = Some (HandlerObject True)"
  "outstanding tag (after_events before ev s) \<longleftrightarrow> tag \<in># ev_ops ev"
  by (simp_all add: serving_def outstanding_def)

lemma only_handlers_complete:
  assumes "complete logic tag is_ok request ev = Inr ev'" and "only_handlers ev"
  shows "only_handlers ev'"
  using assms
  by (auto simp: complete_def complete_rpc_def complete_alarm_def complete_handler_def finish_def Let_def
      delete_object_def new_handler_def new_object_def only_handlers_def
      split: option.splits event_object.splits rpc_logic.splits sum.splits if_splits)

lemma only_handlers_end_work:
  "end_work tag outcome ev = Inr ev' \<Longrightarrow> only_handlers ev \<Longrightarrow>
     only_handlers ev' \<and> tally is_listening ev' = tally is_listening ev"
  by (cases outcome) (auto simp: end_work_def finish_def only_handlers_def Let_def split: if_splits)

text \<open>A handler that is done, or gets no request, frees itself and begins nothing.\<close>

lemma complete_frees:
  assumes "complete logic tag is_ok request ev = Inr ev'" and "ev_heap ev tag = Some (HandlerObject d)"
    and "d \<or> \<not> is_ok"
  shows "ev' = delete_object tag ev"
  using assms by (auto simp: complete_def complete_handler_def)

lemma delivered_inv:
  assumes "server_inv n s" and "outstanding tag s"
    and "complete logic tag is_ok request (take_op tag (sd_events s)) = Inr ev'"
  shows "owned ev' \<and> only_handlers ev' \<and>
    (is_ok \<longrightarrow> tally is_listening ev' = tally is_listening (sd_events s))"
proof -
  from assms(1) have own: "owned (sd_events s)" and only: "only_handlers (take_op tag (sd_events s))"
    by (simp_all add: server_inv_def only_handlers_def)
  have "tag < ev_next (sd_events s)"
    using owned_fresh [OF own, of tag] assms(2)
    by (metis count_eq_zero_iff not_le outstanding_def)
  with complete_tally [OF assms(3)] owned_deliver [OF own, of tag logic is_ok request] assms(2,3)
    only_handlers_complete [OF assms(3) only]
  show ?thesis by (auto simp: outstanding_def take_op_def)
qed

lemma delete_simps [simp]:
  "ev_heap (delete_object tag ev) = (ev_heap ev)(tag := None)" "ev_ops (delete_object tag ev) = ev_ops ev"
  "ev_work (delete_object tag ev) = ev_work ev" "ev_next (delete_object tag ev) = ev_next ev"
  by (simp_all add: delete_object_def)

lemma server_inv_step:
  assumes "server_step logic orderly s s'" and "server_inv n s"
  shows "server_inv n s'"
  using assms(1)
proof cases
  case (request_arrives tag ev request ev')
  with delivered_inv [OF assms(2), of tag logic True request ev'] assms(2)
  show ?thesis by (simp add: server_inv_def)
next
  case (request_fails tag ev request ev')
  then have "ev' = delete_object tag (take_op tag (sd_events s))"
    by (intro complete_frees) (auto simp: listening_def)
  with request_fails delivered_inv [OF assms(2), of tag logic False request ev'] assms(2)
  show ?thesis
    by (auto simp: server_inv_def listening_def serving_def outstanding_def in_diff_count)
next
  case (answer_sent tag ev is_ok request ev')
  then have ev': "ev' = delete_object tag (take_op tag (sd_events s))"
    by (intro complete_frees) (auto simp: serving_def)
  have "tally is_listening ev' = tally is_listening (sd_events s)"
    if "\<not> sd_server_stopped s"
    using tally_update [of tag "take_op tag (sd_events s)" is_listening None] answer_sent
      owned_live [of "sd_events s" tag] assms(2)
    by (simp add: ev' delete_object_def server_inv_def serving_def)
  with answer_sent ev' delivered_inv [OF assms(2), of tag logic is_ok request ev'] assms(2)
  show ?thesis
    by (auto simp: server_inv_def serving_def outstanding_def in_diff_count)
next
  case (work_ends tag ev outcome ev')
  with owned_end_work [of ev tag outcome] only_handlers_end_work [of tag outcome ev ev'] assms(2)
  show ?thesis by (auto simp: server_inv_def)
qed (use assms(2) in \<open>auto simp: server_inv_def serving_def outstanding_def\<close>)

lemma server_inv_start: "server_start n s \<Longrightarrow> server_inv n s"
  using wired_inv [of n] by (simp add: server_start_def server_inv_def)

interpretation server: invariant_system "server_start n" "server_step logic orderly" "server_inv n"
  for n logic orderly
  by unfold_locales (auto intro: server_inv_start server_inv_step)

lemma tally_pos:
  assumes "0 < tally P ev"
  shows "\<exists>tag obj. ev_heap ev tag = Some obj \<and> P obj"
proof (rule ccontr)
  assume "\<not> ?thesis"
  then have "kind_ind P (ev_heap ev tag) = 0" for tag by (auto simp: kind_ind_def split: option.splits)
  with assms show False by (simp add: tally_def)
qed

text \<open>While the server runs, a handler listens and its operation is outstanding.\<close>

lemma live_server_listens:
  assumes "server_inv n s" and "0 < n" and "\<not> sd_server_stopped s"
  shows "\<exists>tag. listening tag s \<and> outstanding tag s"
proof -
  from assms have "0 < tally is_listening (sd_events s)" by (simp add: server_inv_def)
  from tally_pos [OF this] obtain tag where "ev_heap (sd_events s) tag = Some (HandlerObject False)"
    by (auto elim: is_listening.elims)
  moreover from this owned_tag [of "sd_events s" tag] assms(1) have "count (ev_ops (sd_events s)) tag = 1"
    by (simp add: server_inv_def)
  then have "tag \<in># ev_ops (sd_events s)" by (simp add: count_inI)
  ultimately show ?thesis by (auto simp: listening_def outstanding_def)
qed

text \<open>Taking a request begins the operation of the next handler, and an answer or work.\<close>

lemma request_begins:
  assumes "complete logic tag True request ev = Inr ev'" and "ev_heap ev tag = Some (HandlerObject False)"
  shows "0 < begun (ev_ops ev) ev'"
  using assms
  by (auto simp: complete_def complete_handler_def new_handler_def new_object_def finish_def log_event_def
      begun_def Let_def split: rpc_logic.splits sum.splits)

text \<open>What every run satisfies in which the context waits for the server.\<close>

definition orderly_inv :: "('d, 'f, 'resp) server_side \<Rightarrow> bool" where
  "orderly_inv s \<longleftrightarrow> sd_late s = 0 \<and> (sd_queue_shut s \<longrightarrow> sd_server_stopped s)"

lemma freed_begins_nothing: "begun (ev_ops ev) (delete_object tag ev) = 0"
  by (simp add: begun_def)

text \<open>After the end of the server every delivery frees a handler, and nothing else happens.\<close>

lemma stopped_server_step:
  assumes "server_step logic orderly s s'" and "server_inv n s" and "sd_server_stopped s"
  shows "sd_events s' = sd_events s \<and> sd_late s' = sd_late s \<or>
    size (ev_ops (sd_events s')) < size (ev_ops (sd_events s)) \<and> sd_late s' = sd_late s"
  using assms(1)
proof cases
  case (request_fails tag ev request ev')
  then have "ev' = delete_object tag ev" by (intro complete_frees) (auto simp: listening_def)
  with request_fails show ?thesis
    by (simp add: freed_begins_nothing outstanding_def size_Diff1_less del: take_op_simps(4))
       (simp add: size_Diff1_less)
next
  case (answer_sent tag ev is_ok request ev')
  then have "ev' = delete_object tag ev" by (intro complete_frees) (auto simp: serving_def)
  with answer_sent show ?thesis
    by (simp add: freed_begins_nothing outstanding_def size_Diff1_less del: take_op_simps(4))
       (simp add: size_Diff1_less)
next
  case (work_ends tag ev outcome ev')
  with assms(2,3) show ?thesis by (simp add: server_inv_def)
qed (use assms in auto)

lemma stopped_stays:
  "server_step logic orderly s s' \<Longrightarrow> sd_server_stopped s \<Longrightarrow> sd_server_stopped s'"
  by (erule server_step.cases) auto

lemma orderly_inv_step:
  assumes "server_step logic True s s'" and "server_inv n s" and "orderly_inv s"
  shows "orderly_inv s'"
proof (cases "sd_server_stopped s")
  case True
  with stopped_server_step [OF assms(1,2)] stopped_stays [OF assms(1)] assms(3) show ?thesis
    by (auto simp: orderly_inv_def)
next
  case False
  with assms(3) have "\<not> sd_queue_shut s" by (simp add: orderly_inv_def)
  with assms(3) False show ?thesis
    using assms(1) by (auto simp: orderly_inv_def elim!: server_step.cases)
qed

interpretation orderly: invariant_system "server_start n" "server_step logic True" orderly_inv
  for n logic
proof
  fix s :: "('a, 'b, 'c) server_side" assume "server_start n s"
  then show "orderly_inv s" by (simp add: server_start_def orderly_inv_def)
next
  fix s t :: "('a, 'b, 'c) server_side"
  assume "reach (server_start n) (server_step logic True) s" "orderly_inv s" "server_step logic True s t"
  then show "orderly_inv t" using orderly_inv_step server.inv_reach by blast
qed

text \<open>An outstanding operation of a stopped server can be delivered, and frees its handler.\<close>

lemma stopped_server_progress:
  assumes "server_inv n s" and "sd_server_stopped s" and "ev_ops (sd_events s) \<noteq> {#}"
  shows "\<exists>s'. server_step logic orderly s s' \<and>
    size (ev_ops (sd_events s')) < size (ev_ops (sd_events s))"
proof -
  from assms(3) obtain tag where tag: "outstanding tag s" by (auto simp: outstanding_def)
  have pos: "0 < count (ev_ops (sd_events s)) tag" using tag by (simp add: outstanding_def)
  obtain obj where obj: "ev_heap (sd_events s) tag = Some obj"
    using assms(1) owned_tag [of "sd_events s" tag] pos
    by (cases "ev_heap (sd_events s) tag") (auto simp: server_inv_def)
  with assms(1) obtain d where d: "ev_heap (sd_events s) tag = Some (HandlerObject d)"
    by (auto simp: server_inv_def only_handlers_def)
  let ?ev = "take_op tag (sd_events s)"
  have freed: "complete logic tag False undefined ?ev = Inr (delete_object tag ?ev)"
    by (simp add: complete_def complete_handler_def d)
  let ?s' = "after_events (ev_ops ?ev) (delete_object tag ?ev) s"
  have "server_step logic orderly s ?s'"
  proof (cases d)
    case True
    with d answer_sent [OF _ tag refl freed] show ?thesis by (simp add: serving_def)
  next
    case False
    with d request_fails [OF _ tag assms(2) refl freed] show ?thesis by (simp add: listening_def)
  qed
  moreover have "size (ev_ops (sd_events ?s')) < size (ev_ops (sd_events s))"
    using tag by (simp add: outstanding_def size_Diff1_less)
  ultimately show ?thesis by blast
qed

lemma stopped_server_empty:
  assumes "server_inv n s" and "sd_server_stopped s" and "ev_ops (sd_events s) = {#}"
  shows "ev_heap (sd_events s) tag = None"
proof (cases "ev_heap (sd_events s) tag")
  case (Some obj)
  with assms(1) obtain d where "obj = HandlerObject d" by (auto simp: server_inv_def only_handlers_def)
  with Some assms owned_tag [of "sd_events s" tag] show ?thesis
    by (cases d) (auto simp: server_inv_def serving_def outstanding_def)
qed simp

section \<open>Properties\<close>

text \<open>
  C10. A context cannot be stopped under a server that still runs. As long as
  \<open>ServerContainer::stop\<close> has not been called, a handler listens on every wired queue of the
  server, so that even when \<open>ExecutionContext::stop\<close> has shut the queue down no worker ever
  leaves its loop (and \<open>stop\<close>, which joins the workers, waits for ever); and the next request
  that arrives makes its handler begin operations on the queue that is shut down, which grpc
  forbids.
\<close>

theorem live_server_blocks_stop:
  assumes "reach (server_start n) (server_step logic False) s" and "0 < n" and "\<not> sd_server_stopped s"
    and "reports_shutdown api view" and "cqs \<in> set (ec_servers c)" and "cq \<in> set cqs" and "view cq = s"
    and "\<forall>cqs \<in> set (ec_cqs c # ec_servers c). unat tn + length cqs \<le> 2 ^ 32"
    and "length (all_queues c) < 2 ^ 32"
  shows "fst (worker_round api user tn thunk c) \<noteq> LeaveLoop \<and>
    (\<exists>tag. outstanding tag s \<and> (\<forall>request. \<exists>ev'.
       complete logic tag True request (take_op tag (sd_events s)) = Inr ev' \<and>
       (sd_queue_shut s \<longrightarrow>
          sd_late s < sd_late (after_events (ev_ops (take_op tag (sd_events s))) ev' s))))"
proof -
  have inv: "server_inv n s" using assms(1) by (rule server.inv_reach)
  from live_server_listens [OF this assms(2,3)] obtain tag where
    tag: "listening tag s" "outstanding tag s" by blast
  then have "ev_ops (sd_events (view cq)) \<noteq> {#}" by (auto simp: outstanding_def assms(7))
  then have "fst (cq_async_next api cq) \<noteq> SHUTDOWN" using assms(4) by (auto simp: reports_shutdown_def)
  moreover have "cq \<in> set (all_queues c)" using assms(5,6) by (auto simp: all_queues_def)
  ultimately have "fst (worker_round api user tn thunk c) \<noteq> LeaveLoop"
    using worker_round_leaves [OF _ assms(8,9), of api user thunk]
    by (metis prod_cases3 fst_conv)
  moreover have "\<exists>ev'. complete logic tag True request (take_op tag (sd_events s)) = Inr ev' \<and>
      0 < begun (ev_ops (take_op tag (sd_events s))) ev'" for request
    using owned_deliver [of "sd_events s" tag logic True request] inv tag
      request_begins [of logic tag request "take_op tag (sd_events s)"]
    by (auto simp: server_inv_def outstanding_def listening_def take_op_def)
  ultimately show ?thesis using tag(2) by fastforce
qed

text \<open>The queue of a server with one handler, as its own kind of completion queue.\<close>

definition side_cq :: "('e, ('d, 'f, 'resp) server_side) cq_api" where
  "side_cq = \<lparr>cq_async_next = (\<lambda>q. (if sd_queue_shut q \<and> ev_ops (sd_events q) = {#} then SHUTDOWN else TIMEOUT, q)),
     cq_shutdown = (\<lambda>q. q\<lparr>sd_queue_shut := True\<rparr>), cq_set_alarm = (\<lambda>t e q. q)\<rparr>"

lemma side_cq_reports: "reports_shutdown side_cq id"
  by (simp add: reports_shutdown_def side_cq_def)

lemma live_server_blocks_stop_witness:
  "\<exists>(q :: (nat, nat, nat) server_side) (c :: (nat, nat, (nat, nat, nat) server_side) exec_context).
     sd_queue_shut q \<and> make_context 1 [q] = Inr c \<and>
     fst (worker_round (side_cq :: ((nat, nat) cq_event, (nat, nat, nat) server_side) cq_api) \<lparr>complete_event = (\<lambda>e ok c. c), run_thunk = (\<lambda>th c. c)\<rparr> 0 None
       (c\<lparr>ec_servers := [[q]]\<rparr>)) \<noteq> LeaveLoop"
proof -
  let ?q = "\<lparr>sd_events = wired 1, sd_server_stopped = False, sd_queue_shut = True, sd_late = 0\<rparr>
    :: (nat, nat, nat) server_side"
  let ?user = "\<lparr>complete_event = (\<lambda>e ok c. c), run_thunk = (\<lambda>th c. c)\<rparr>
    :: (nat, nat, nat, (nat, nat, nat) server_side) user_code"
  have start: "server_start 1 (?q\<lparr>sd_queue_shut := False\<rparr>)" by (simp add: server_start_def)
  let ?step = "server_step (Immediate Inr :: (nat, nat) rpc_logic) False"
  have "?step (?q\<lparr>sd_queue_shut := False\<rparr>) ?q"
    using queue_shutdown [of False "?q\<lparr>sd_queue_shut := False\<rparr>"] by simp
  with reach_init [of "server_start 1", OF start] have r: "reach (server_start 1) ?step ?q"
    by (rule reach_step)
  obtain c :: "(nat, nat, (nat, nat, nat) server_side) exec_context"
    where c: "make_context 1 [?q] = Inr c" by (simp add: make_context_def)
  then have "ec_cqs c = [?q]" by (auto simp: make_context_def)
  moreover have "reports_shutdown (side_cq :: ((nat, nat) cq_event, (nat, nat, nat) server_side) cq_api) id"
    by (rule side_cq_reports)
  ultimately show ?thesis
    using live_server_blocks_stop [OF r, of "side_cq :: ((nat, nat) cq_event, _) cq_api" id "[?q]" "c\<lparr>ec_servers := [[?q]]\<rparr>" ?q 0 ?user None] c
    by (intro exI [of _ ?q] exI [of _ c]) (simp add: all_queues_def)
qed

text \<open>
  C11. In the other order, the server first, both stop cleanly: no operation is ever begun on the
  queue after its shutdown, and from the end of the server on every delivery frees a handler
  and leaves one operation less, there is such a delivery as long as something is
  outstanding, and when nothing is, every handler has been freed.
\<close>

theorem stopped_server_drains:
  assumes "reach (server_start n) (server_step logic True) s"
  shows "sd_late s = 0 \<and>
    (sd_server_stopped s \<longrightarrow>
       (\<forall>s'. server_step logic True s s' \<longrightarrow> sd_events s' = sd_events s \<or>
          size (ev_ops (sd_events s')) < size (ev_ops (sd_events s))) \<and>
       (if ev_ops (sd_events s) = {#} then \<forall>tag. ev_heap (sd_events s) tag = None
        else \<exists>s'. server_step logic True s s' \<and>
          size (ev_ops (sd_events s')) < size (ev_ops (sd_events s))))"
proof -
  have inv: "server_inv n s" and late: "orderly_inv s"
    using assms by (rule server.inv_reach, rule orderly.inv_reach)
  from late have "sd_late s = 0" by (simp add: orderly_inv_def)
  with stopped_server_step [of logic True s _ n] stopped_server_progress [OF inv, of logic True]
    stopped_server_empty [OF inv] inv
  show ?thesis by (auto split: if_splits)
qed

lemma stopped_server_drains_witness:
  "sd_late \<lparr>sd_events = wired 2 :: (nat, nat, nat) events, sd_server_stopped = True, sd_queue_shut = True, sd_late = 0\<rparr> = 0 \<and>
   (\<exists>s' :: (nat, nat, nat) server_side. size (ev_ops (sd_events s')) < size (ev_ops (wired 2 :: (nat, nat, nat) events)))"
proof -
  let ?s = "\<lambda>a b. \<lparr>sd_events = wired 2, sd_server_stopped = a, sd_queue_shut = b, sd_late = 0\<rparr>
    :: (nat, nat, nat) server_side"
  let ?step = "server_step (Immediate Inr :: (nat, nat) rpc_logic) True"
  have "server_start 2 (?s False False)" by (simp add: server_start_def)
  then have 0: "reach (server_start 2) ?step (?s False False)" by (rule reach_init)
  have ops: "ev_ops (wired 2 :: (nat, nat, nat) events) = {#0, 1#}" "ev_work (wired 2 :: (nat, nat, nat) events) = {#}"
    "\<And>tag. ev_heap (wired 2 :: (nat, nat, nat) events) tag \<noteq> Some (HandlerObject True)"
    by (auto simp: wired_def numeral_2_eq_2 new_handler_def new_object_def no_events_def split: if_splits)
  have 1: "?step (?s False False) (?s True False)"
    using server_stop [of "?s False False"] ops by (simp add: serving_def)
  have 2: "?step (?s True False) (?s True True)"
    using queue_shutdown [of True "?s True False"] by simp
  from reach_step [OF 0 1] have "reach (server_start 2) ?step (?s True False)" .
  from reach_step [OF this 2] have r: "reach (server_start 2) ?step (?s True True)" .
  from stopped_server_drains [OF r] ops show ?thesis by auto
qed

end
