(* ===== verification/Rpc_Client.thy ===== *)
theory Rpc_Client
  imports Scheduler Rpc_Status
begin

text \<open>
  The client side of an rpc: the operation states and \<open>CallData\<close> of
  \<open>sgrpc/detail/rpc_sender_operation_states.hpp\<close>, the senders of \<open>sgrpc/rpc_sender.hpp\<close> and
  \<open>ClientRpcStub\<close> of \<open>sgrpc/client_rpc_stub.hpp\<close>.

  \<open>grpc::Status\<close> is library code: what is called of it is the record \<open>status_api\<close>. The
  conversion of a response to a result and the receiver belong to the user; a receiver is
  known by what its \<open>set_value\<close> does with a value, returning (\<open>None\<close>) or throwing.
  \<open>set_error\<close> does not throw. Making the strings and statuses does not fail for memory.
\<close>

section \<open>Definitions\<close>

record 's status_api =
  st_ok :: "'s \<Rightarrow> bool"
  st_code :: "'s \<Rightarrow> grpc_status_code"
  st_message :: "'s \<Rightarrow> string"
  st_make :: "grpc_status_code \<Rightarrow> string \<Rightarrow> 's"

text \<open>
  A function that may throw, with what it sends to receivers until then. A \<open>std::function\<close>
  that is empty throws \<open>std::bad_function_call\<close>.
\<close>

type_synonym 'x effect = "'x list \<times> exn option"

type_synonym ('s, 'v, 'x) completion_handler = "bool \<Rightarrow> 's \<Rightarrow> 'v option \<Rightarrow> 'x effect"

definition call_function :: "('s, 'v, 'x) completion_handler option \<Rightarrow> ('s, 'v, 'x) completion_handler" where
  "call_function f is_ok status result =
     (case f of None \<Rightarrow> ([], Some (StdException ''bad_function_call'')) | Some g \<Rightarrow> g is_ok status result)"

subsection \<open>RpcSenderOpState\<close>

text \<open>The completion handler that \<open>invoke\<close> makes; \<open>lifetimes\<close> as in \<open>Rpc_Status\<close>.\<close>

definition op_completion ::
  "'s status_api \<Rightarrow> lifetimes \<Rightarrow> bool \<Rightarrow> ('v option \<Rightarrow> exn option)
     \<Rightarrow> ('s, 'v, ('v option, rpc_status) signal) completion_handler" where
  "op_completion api h is_void_result set_value is_ok status result =
     (if \<not> is_ok then ([SetError (fst (RpcStatus_code Unavailable h))], None)
      else if \<not> st_ok api status
      then ([SetError (fst (RpcStatus_details (to_rpc_status_code (st_code api status))
              (st_message api status) h))], None)
      else if result = None \<and> \<not> is_void_result
      then ([SetError (fst (RpcStatus_code Internal h))], None)
      else (let v = (if is_void_result then None else result)
            in case set_value v of
                 None \<Rightarrow> ([SetValue v], None)
               | Some (StdException what) \<Rightarrow>
                   ([SetValueThrew v, SetError (fst (RpcStatus_details Internal (st_message api status) h))], None)
               | Some OtherException \<Rightarrow>
                   ([SetValueThrew v,
                     SetError (fst (RpcStatus_details Internal ''exception unpacking protobuf'' h))], None)))"

subsection \<open>PureRpcSenderOpState\<close>

definition pure_completion ::
  "'s status_api \<Rightarrow> ('resp \<Rightarrow> exn option) \<Rightarrow> bool \<Rightarrow> 's \<Rightarrow> 'resp \<Rightarrow> ('resp, 's) signal list" where
  "pure_completion api set_value is_ok status response =
     (if \<not> is_ok then [SetError (st_make api UNAVAILABLE ''operation posted after shutdown'')]
      else if \<not> st_ok api status then [SetError (st_make api (st_code api status) (st_message api status))]
      else case set_value response of
             None \<Rightarrow> [SetValue response]
           | Some (StdException what) \<Rightarrow>
               [SetValueThrew response,
                SetError (st_make api INTERNAL (''exception unpacking protobuf, '' @ what))]
           | Some OtherException \<Rightarrow>
               [SetValueThrew response,
                SetError (st_make api INTERNAL ''unknown exception unpacking protobuf'')])"

definition pure_refused :: "'s status_api \<Rightarrow> ('resp, 's) signal list" where
  "pure_refused api =
     [SetError (st_make api UNAVAILABLE ''rpc was not scheduled because the service was unavailable'')]"

subsection \<open>CallData\<close>

record ('req, 's, 'v, 'x) call_data =
  cd_request :: 'req
  cd_completion :: "('s, 'v, 'x) completion_handler option"

text \<open>
  The completion that \<open>operator()\<close> makes: convert the response and complete, all in one
  \<open>try\<close> block, whatever the status is.
\<close>

definition curried_completion ::
  "'s status_api \<Rightarrow> ('resp \<Rightarrow> exn + 'v) \<Rightarrow> ('s, 'v, 'x) completion_handler option
     \<Rightarrow> bool \<Rightarrow> 's \<Rightarrow> 'resp \<Rightarrow> 'x effect" where
  "curried_completion api convert completion is_ok status response =
     (case (case convert response of
              Inl e \<Rightarrow> ([], Some e)
            | Inr v \<Rightarrow> call_function completion is_ok status (Some v)) of
        (sent, None) \<Rightarrow> (sent, None)
      | (sent, Some (StdException what)) \<Rightarrow>
          (case call_function completion is_ok
                  (st_make api INTERNAL (''exception unpacking protobuf, '' @ what)) None of
             (sent', e) \<Rightarrow> (sent @ sent', e))
      | (sent, Some OtherException) \<Rightarrow>
          (case call_function completion is_ok (st_make api INTERNAL ''exception unpacking protobuf'') None of
             (sent', e) \<Rightarrow> (sent @ sent', e)))"

text \<open>An rpc in flight: its request, and \<open>complete\<close>, which swallows what the completion throws.\<close>

record ('req, 's, 'resp, 'x) inflight =
  ir_request :: 'req
  ir_completion :: "bool \<Rightarrow> 's \<Rightarrow> 'resp \<Rightarrow> 'x effect"

definition inflight_complete ::
  "('req, 's, 'resp, 'x) inflight \<Rightarrow> bool \<Rightarrow> 's \<Rightarrow> 'resp \<Rightarrow> 'x list" where
  "inflight_complete rpc is_ok status response = fst (ir_completion rpc is_ok status response)"

text \<open>
  The other half of \<open>InflightRpc\<close>, its constructor: the factory of the stub prepares the call
  on a completion queue, then it is started and asked to finish, with the rpc as the tag.
  \<open>ResponseReaderFactory\<close> calls a member function of the generated stub, a parameter.
\<close>

record ('svc, 'req, 'cq, 'reader) response_reader_factory =
  rrf_service :: 'svc
  rrf_factory_fn :: "'svc \<Rightarrow> 'req \<Rightarrow> 'cq \<Rightarrow> 'reader \<times> 'cq"

definition call_reader_factory ::
  "('svc, 'req, 'cq, 'reader) response_reader_factory \<Rightarrow> 'req \<Rightarrow> 'cq \<Rightarrow> 'reader \<times> 'cq" where
  "call_reader_factory self request cq = rrf_factory_fn self (rrf_service self) request cq"

record ('reader, 'tag, 'cq) reader_api =
  rd_start_call :: "'reader \<Rightarrow> 'cq \<Rightarrow> 'cq"
  rd_finish :: "'reader \<Rightarrow> 'tag \<Rightarrow> 'cq \<Rightarrow> 'cq"

definition start_inflight ::
  "('reader, ('req, 's, 'resp, 'x) inflight, 'cq) reader_api
     \<Rightarrow> ('svc, 'req, 'cq, 'reader) response_reader_factory
     \<Rightarrow> ('req, 's, 'resp, 'x) inflight \<Rightarrow> 'cq \<Rightarrow> 'cq" where
  "start_inflight readers factory rpc cq =
     (case call_reader_factory factory (ir_request rpc) cq of
        (reader, cq1) \<Rightarrow> rd_finish readers reader rpc (rd_start_call readers reader cq1))"

text \<open>
  \<open>operator()\<close>: the completion is moved out; \<open>std::move(request)\<close> binds to a reference to
  const, so the request stays.
\<close>

definition run_call_data ::
  "'s status_api \<Rightarrow> ('resp \<Rightarrow> exn + 'v) \<Rightarrow> ('req, 's, 'v, 'x) call_data
     \<Rightarrow> ('req, 's, 'resp, 'x) inflight \<times> ('req, 's, 'v, 'x) call_data" where
  "run_call_data api convert data =
     (\<lparr>ir_request = cd_request data, ir_completion = curried_completion api convert (cd_completion data)\<rparr>,
      data\<lparr>cd_completion := None\<rparr>)"

subsection \<open>ClientRpcStub and ClientRpcSender\<close>

text \<open>
  \<open>call\<close> makes a \<open>CallData\<close> on the heap and a factory that owns a pointer to it; copies of the
  sender share it, and refer to the same context (by its address). Calling a factory stores the completion and moves the pointer into the
  \<open>RpcFactory\<close> it returns; calling it again dereferences a null pointer.
\<close>

type_synonym ('req, 's, 'v, 'x) call_heap = "nat \<Rightarrow> ('req, 's, 'v, 'x) call_data option"

record client_sender =
  snd_context :: nat
  snd_data :: "nat option"

datatype stub_error = NullDereference | ContextFailed ec_error

definition stub_call ::
  "nat \<Rightarrow> 'req \<Rightarrow> nat \<Rightarrow> ('req, 's, 'v, 'x) call_heap \<Rightarrow> client_sender \<times> ('req, 's, 'v, 'x) call_heap" where
  "stub_call context_address request address heap =
     (\<lparr>snd_context = context_address, snd_data = Some address\<rparr>,
      heap(address \<mapsto> \<lparr>cd_request = request, cd_completion = None\<rparr>))"

definition call_wrapped_factory ::
  "client_sender \<Rightarrow> ('s, 'v, 'x) completion_handler \<Rightarrow> ('req, 's, 'v, 'x) call_heap
     \<Rightarrow> stub_error + (nat \<times> client_sender \<times> ('req, 's, 'v, 'x) call_heap)" where
  "call_wrapped_factory factory completion heap =
     (case snd_data factory of
        None \<Rightarrow> Inl NullDereference
      | Some p \<Rightarrow>
          (case heap p of
             None \<Rightarrow> Inl NullDereference
           | Some data \<Rightarrow>
               Inr (p, factory\<lparr>snd_data := None\<rparr>, heap(p \<mapsto> data\<lparr>cd_completion := Some completion\<rparr>))))"

text \<open>
  \<open>invoke\<close> in two parts: call the factory with a completion for the receiver, then post.
  \<open>attach\<close> is grpc starting the call on a completion queue. A refused post completes the
  receiver at once.
\<close>

definition invoke_post ::
  "'s status_api \<Rightarrow> ('resp \<Rightarrow> exn + 'v) \<Rightarrow> (('req, 's, 'resp, 'x) inflight \<Rightarrow> 'cq \<Rightarrow> 'cq)
     \<Rightarrow> (rpc_status \<Rightarrow> 'x) \<Rightarrow> lifetimes \<Rightarrow> nat \<Rightarrow> ('req, 's, 'v, 'x) call_heap
     \<Rightarrow> ('t, 'd, 'cq) exec_context
     \<Rightarrow> stub_error + ('x list \<times> ('req, 's, 'v, 'x) call_heap \<times> ('t, 'd, 'cq) exec_context)" where
  "invoke_post api convert attach error_signal h p heap c =
     (case heap p of
        None \<Rightarrow> Inl NullDereference
      | Some data \<Rightarrow>
          (case run_call_data api convert data of
             (rpc, data') \<Rightarrow>
               (case post_rpc (\<lambda>cq. (rpc, attach rpc cq)) c of
                  Inl e \<Rightarrow> Inl (ContextFailed e)
                | Inr (True, c') \<Rightarrow> Inr ([], heap(p \<mapsto> data'), c')
                | Inr (False, c') \<Rightarrow>
                    Inr ([error_signal (fst (RpcStatus_code Unavailable h))], heap, c'))))"

text \<open>
  A receiver has a name, which its signals carry. \<open>connect\<close> moves the factory of its copy of
  the sender into the operation state; \<open>start\<close> invokes it.
\<close>

record ('r, 'v) receiver =
  rcv_name :: 'r
  rcv_set_value :: "'v option \<Rightarrow> exn option"

record ('r, 'v) rpc_op =
  ro_context :: nat
  ro_factory :: client_sender
  ro_receiver :: "('r, 'v) receiver"

definition connect_rpc :: "client_sender \<Rightarrow> ('r, 'v) receiver \<Rightarrow> ('r, 'v) rpc_op" where
  "connect_rpc self receiver = 
     \<lparr>ro_context = snd_context self, ro_factory = self, ro_receiver = receiver\<rparr>"

text \<open>\<open>get_completion_scheduler\<close>: the scheduler of the context.\<close>

definition rpc_completion_scheduler :: "client_sender \<Rightarrow> nat scheduler" where
  "rpc_completion_scheduler self = \<lparr>sch_context = snd_context self\<rparr>"

definition handler_for ::
  "'s status_api \<Rightarrow> lifetimes \<Rightarrow> bool \<Rightarrow> ('r, 'v) receiver
     \<Rightarrow> ('s, 'v, 'r \<times> ('v option, rpc_status) signal) completion_handler" where
  "handler_for api h is_void_result rcv is_ok status result =
     (case op_completion api h is_void_result (rcv_set_value rcv) is_ok status result of
        (sent, e) \<Rightarrow> (map (Pair (rcv_name rcv)) sent, e))"

definition invoke_rpc ::
  "'s status_api \<Rightarrow> ('resp \<Rightarrow> exn + 'v)
     \<Rightarrow> (('req, 's, 'resp, 'r \<times> ('v option, rpc_status) signal) inflight \<Rightarrow> 'cq \<Rightarrow> 'cq)
     \<Rightarrow> lifetimes \<Rightarrow> bool \<Rightarrow> ('r, 'v) rpc_op
     \<Rightarrow> ('req, 's, 'v, 'r \<times> ('v option, rpc_status) signal) call_heap \<Rightarrow> ('t, 'd, 'cq) exec_context
     \<Rightarrow> stub_error + (('r \<times> ('v option, rpc_status) signal) list
          \<times> ('req, 's, 'v, 'r \<times> ('v option, rpc_status) signal) call_heap \<times> ('t, 'd, 'cq) exec_context)" where
  "invoke_rpc api convert attach h is_void_result self heap c =
     (let rcv = ro_receiver self
      in case call_wrapped_factory (ro_factory self) (handler_for api h is_void_result rcv) heap of
           Inl e \<Rightarrow> Inl e
         | Inr (p, factory', heap') \<Rightarrow>
             invoke_post api convert attach (\<lambda>e. (rcv_name rcv, SetError e)) h p heap' c)"

subsection \<open>Starting a pure rpc\<close>

text \<open>
  \<open>PureClientRpcSender\<close>: its members, \<open>call\<close> of the stub that makes it, \<open>connect\<close> and
  \<open>get_completion_scheduler\<close>. The operation state gets the request that \<open>connect\<close> passes;
  the constructor as written takes no request.
\<close>

record ('svc, 'req, 'cq, 'reader) pure_sender =
  ps_context :: nat
  ps_factory_fn :: "('svc, 'req, 'cq, 'reader) response_reader_factory"
  ps_request :: 'req

record ('svc, 'req, 'cq, 'reader, 'resp) pure_op =
  po_context :: nat
  po_factory_fn :: "('svc, 'req, 'cq, 'reader) response_reader_factory"
  po_request :: 'req
  po_set_value :: "'resp \<Rightarrow> exn option"

definition stub_call_pure ::
  "('svc, 'req, 'cq, 'reader) response_reader_factory \<Rightarrow> nat \<Rightarrow> 'req \<Rightarrow> ('svc, 'req, 'cq, 'reader) pure_sender" where
  "stub_call_pure factory context_address request =
     \<lparr>ps_context = context_address, ps_factory_fn = factory, ps_request = request\<rparr>"

definition connect_pure ::
  "('svc, 'req, 'cq, 'reader) pure_sender \<Rightarrow> ('resp \<Rightarrow> exn option) \<Rightarrow> ('svc, 'req, 'cq, 'reader, 'resp) pure_op" where
  "connect_pure self set_value =
     \<lparr>po_context = ps_context self, po_factory_fn = ps_factory_fn self, po_request = ps_request self,
      po_set_value = set_value\<rparr>"

definition pure_completion_scheduler :: "('svc, 'req, 'cq, 'reader) pure_sender \<Rightarrow> nat scheduler" where
  "pure_completion_scheduler self = \<lparr>sch_context = ps_context self\<rparr>"

text \<open>\<open>PureRpcSenderOpState::invoke\<close>, and \<open>start\<close> of the operation state, which calls it.\<close>

definition invoke_pure ::
  "'s status_api \<Rightarrow> (('req, 's, 'resp, ('resp, 's) signal) inflight \<Rightarrow> 'cq \<Rightarrow> 'cq) \<Rightarrow> 'req
     \<Rightarrow> ('resp \<Rightarrow> exn option) \<Rightarrow> ('t, 'd, 'cq) exec_context
     \<Rightarrow> stub_error + (('resp, 's) signal list \<times> ('t, 'd, 'cq) exec_context)" where
  "invoke_pure api attach request set_value c =
     (let rpc = \<lparr>ir_request = request,
                 ir_completion = (\<lambda>is_ok status response.
                   (pure_completion api set_value is_ok status response, None))\<rparr>
      in case post_rpc (\<lambda>cq. (rpc, attach rpc cq)) c of
           Inl e \<Rightarrow> Inl (ContextFailed e)
         | Inr (True, c') \<Rightarrow> Inr ([], c')
         | Inr (False, c') \<Rightarrow> Inr (pure_refused api, c'))"

definition start_pure_op ::
  "'s status_api \<Rightarrow> ('reader, ('req, 's, 'resp, ('resp, 's) signal) inflight, 'cq) reader_api
     \<Rightarrow> ('svc, 'req, 'cq, 'reader, 'resp) pure_op \<Rightarrow> (nat \<Rightarrow> ('t, 'd, 'cq) exec_context)
     \<Rightarrow> stub_error + (('resp, 's) signal list \<times> (nat \<Rightarrow> ('t, 'd, 'cq) exec_context))" where
  "start_pure_op api readers self contexts =
     (case invoke_pure api (start_inflight readers (po_factory_fn self)) (po_request self) (po_set_value self)
             (contexts (po_context self)) of
        Inl e \<Rightarrow> Inl e
      | Inr (sent, c) \<Rightarrow> Inr (sent, contexts(po_context self := c)))"

section \<open>Lemmas\<close>

text \<open>What is documented of \<open>grpc::Status\<close>: it has the code and message it was made from.\<close>

definition status_laws :: "'s status_api \<Rightarrow> bool" where
  "status_laws api \<longleftrightarrow> (\<forall>code message.
     st_ok api (st_make api code message) = (code = OK) \<and>
     st_code api (st_make api code message) = code \<and>
     st_message api (st_make api code message) = message)"

lemma status_lawsD:
  assumes "status_laws api"
  shows "st_ok api (st_make api code message) = (code = OK)"
    and "st_code api (st_make api code message) = code"
    and "st_message api (st_make api code message) = message"
  using assms by (simp_all add: status_laws_def)

lemma op_completion_quiet: "snd (op_completion api h is_void_result set_value is_ok status result) = None"
  by (auto simp: op_completion_def Let_def split: option.split exn.split)

lemma op_completion_once:
  "completed_once (fst (op_completion api h is_void_result set_value is_ok status result))"
  by (auto simp: op_completion_def completed_once_def Let_def split: option.split exn.split)

lemma handler_for_eq:
  "handler_for api h is_void_result rcv is_ok status result =
     (map (Pair (rcv_name rcv)) (fst (op_completion api h is_void_result (rcv_set_value rcv) is_ok status result)), None)"
  using op_completion_quiet [of api h is_void_result "rcv_set_value rcv" is_ok status result]
  by (auto simp: handler_for_def split: prod.split)

lemma curried_handler:
  "\<exists>status' result. fst (curried_completion api convert (Some (handler_for api h is_void_result rcv)) is_ok status response) =
     map (Pair (rcv_name rcv)) (fst (op_completion api h is_void_result (rcv_set_value rcv) is_ok status' result))"
  by (auto simp: curried_completion_def call_function_def handler_for_eq split: sum.split exn.split)

text \<open>Without a completion the conversion may succeed or not: nobody is told.\<close>

lemma curried_empty: "fst (curried_completion api convert None is_ok status response) = []"
  by (auto simp: curried_completion_def call_function_def split: sum.split exn.split)

text \<open>What \<open>start\<close> does, on a context that takes rpcs and on one that refuses them.\<close>

lemma invoke_rpc_cases:
  assumes "snd_data sender = Some p" and "heap p = Some data"
    and "ec_cqs c \<noteq> []" and "length (ec_cqs c) < 2 ^ 32"
  shows "\<exists>heap'. invoke_rpc api convert attach h is_void (connect_rpc sender rcv) heap c =
    (if ec_state c = Ready \<or> ec_state c = Running
     then (let rpc = fst (run_call_data api convert
                           (data\<lparr>cd_completion := Some (handler_for api h is_void rcv)\<rparr>));
               j = unat (ec_next_cq_write_index c) mod length (ec_cqs c)
           in Inr ([], heap', c\<lparr>ec_next_cq_write_index := ec_next_cq_write_index c + 1,
                                ec_cqs := (ec_cqs c)[j := attach rpc (ec_cqs c ! j)]\<rparr>))
     else Inr ([(rcv_name rcv, SetError (fst (RpcStatus_code Unavailable h)))], heap', c))"
proof -
  let ?data = "data\<lparr>cd_completion := Some (handler_for api h is_void rcv)\<rparr>"
  obtain rpc data' where run: "run_call_data api convert ?data = (rpc, data')" by fastforce
  have open_iff: "ec_state c \<le> Running \<longleftrightarrow> ec_state c = Ready \<or> ec_state c = Running"
    by (cases "ec_state c") (auto simp: state_order)
  have post: "post_rpc (\<lambda>cq. (rpc, attach rpc cq)) c =
    (if ec_state c \<le> Running
     then (let j = unat (ec_next_cq_write_index c) mod length (ec_cqs c)
           in Inr (True, c\<lparr>ec_next_cq_write_index := ec_next_cq_write_index c + 1,
                           ec_cqs := (ec_cqs c)[j := attach rpc (ec_cqs c ! j)]\<rparr>))
     else Inr (False, c))"
    using assms(3,4) by (simp add: post_rpc_def post_on_cq_eq context_wf_def)
  have start: "invoke_rpc api convert attach h is_void (connect_rpc sender rcv) heap c =
      (case post_rpc (\<lambda>cq. (rpc, attach rpc cq)) c of
         Inl e \<Rightarrow> Inl (ContextFailed e)
       | Inr (True, c') \<Rightarrow> Inr ([], (heap(p \<mapsto> ?data))(p \<mapsto> data'), c')
       | Inr (False, c') \<Rightarrow> Inr ([(rcv_name rcv, SetError (fst (RpcStatus_code Unavailable h)))], heap(p \<mapsto> ?data), c'))"
    using assms(1,2)
    by (simp add: invoke_rpc_def connect_rpc_def call_wrapped_factory_def invoke_post_def Let_def run)
  show ?thesis
    by (cases "ec_state c \<le> Running") (use start post open_iff in \<open>auto simp: run Let_def\<close>)
qed

section \<open>Properties\<close>

text \<open>
  C17. What a receiver gets for an rpc, in every case: an operation that grpc did not complete
  gives \<open>Unavailable\<close>; a response that cannot be converted gives \<open>Internal\<close> with the reason,
  even if the rpc itself failed and its status says why, since the response is converted
  before the status is looked at; a failed rpc gives its own code and message; otherwise
  the receiver gets the value, and \<open>Internal\<close> if it throws on it.
\<close>

theorem rpc_outcome:
  assumes "status_laws api"
  shows "fst (curried_completion api convert (Some (op_completion api h False set_value)) is_ok status response) =
    (if \<not> is_ok then [SetError (fst (RpcStatus_code Unavailable h))]
     else case convert response of
            Inl (StdException what) \<Rightarrow>
              [SetError (fst (RpcStatus_details Internal (''exception unpacking protobuf, '' @ what) h))]
          | Inl OtherException \<Rightarrow>
              [SetError (fst (RpcStatus_details Internal ''exception unpacking protobuf'' h))]
          | Inr v \<Rightarrow>
              (if \<not> st_ok api status
               then [SetError (fst (RpcStatus_details (to_rpc_status_code (st_code api status)) (st_message api status) h))]
               else case set_value (Some v) of
                      None \<Rightarrow> [SetValue (Some v)]
                    | Some (StdException what) \<Rightarrow>
                        [SetValueThrew (Some v), SetError (fst (RpcStatus_details Internal (st_message api status) h))]
                    | Some OtherException \<Rightarrow>
                        [SetValueThrew (Some v),
                         SetError (fst (RpcStatus_details Internal ''exception unpacking protobuf'' h))]))"
  by (auto simp: curried_completion_def call_function_def op_completion_def status_lawsD [OF assms] Let_def
      split: sum.split exn.split option.split)

definition no_objects :: lifetimes where
  "no_objects = \<lparr>next_object = 0, live_objects = {}\<rparr>"

definition pair_status :: "(grpc_status_code \<times> string) status_api" where
  "pair_status = \<lparr>st_ok = (\<lambda>s. fst s = OK), st_code = fst, st_message = snd, st_make = Pair\<rparr>"

lemma pair_status_laws: "status_laws pair_status"
  by (simp add: status_laws_def pair_status_def)

lemma rpc_outcome_witness:
  "fst (curried_completion pair_status (\<lambda>r. if r = 0 then Inl (StdException ''empty'') else Inr (r + 1))
      (Some (op_completion pair_status no_objects False (\<lambda>v. None)))
      True (NOT_FOUND, ''no such user'') (0 :: nat)) =
    [SetError (fst (RpcStatus_details Internal ''exception unpacking protobuf, empty'' no_objects))]"
  using rpc_outcome [OF pair_status_laws, of "\<lambda>r. if r = 0 then Inl (StdException ''empty'') else Inr (r + 1)"
      no_objects "\<lambda>v. None" True "(NOT_FOUND, ''no such user'')" 0]
  by simp

text \<open>
  C16. Starting an rpc on a sender leads to exactly one completion of its receiver. If the
  context is shutting down or stopped the receiver gets \<open>Unavailable\<close> at once and the
  context is untouched. Otherwise nothing is sent yet and exactly one rpc, with the request
  of the call, is attached to the next completion queue; and whatever grpc then reports,
  that rpc completes this receiver exactly once.
\<close>

theorem rpc_started_once:
  assumes "snd_data sender = Some p" and "heap p = Some data"
    and "ec_cqs c \<noteq> []" and "length (ec_cqs c) < 2 ^ 32"
  shows "\<exists>heap'.
    if ec_state c = Ready \<or> ec_state c = Running
    then \<exists>rpc. (let j = unat (ec_next_cq_write_index c) mod length (ec_cqs c)
         in invoke_rpc api convert attach h is_void (connect_rpc sender rcv) heap c =
              Inr ([], heap', c\<lparr>ec_next_cq_write_index := ec_next_cq_write_index c + 1,
                               ec_cqs := (ec_cqs c)[j := attach rpc (ec_cqs c ! j)]\<rparr>)) \<and>
         ir_request rpc = cd_request data \<and>
         (\<forall>is_ok status response. \<exists>sent.
            inflight_complete rpc is_ok status response = map (Pair (rcv_name rcv)) sent \<and> completed_once sent)
    else invoke_rpc api convert attach h is_void (connect_rpc sender rcv) heap c =
      Inr ([(rcv_name rcv, SetError (fst (RpcStatus_code Unavailable h)))], heap', c)"
proof -
  let ?rpc = "fst (run_call_data api convert (data\<lparr>cd_completion := Some (handler_for api h is_void rcv)\<rparr>))"
  have once: "\<exists>sent. inflight_complete ?rpc is_ok status response = map (Pair (rcv_name rcv)) sent \<and> completed_once sent"
    for is_ok status response
    using curried_handler [of api convert h is_void rcv is_ok status response]
    by (auto simp: inflight_complete_def run_call_data_def intro: op_completion_once)
  have request: "ir_request ?rpc = cd_request data" by (simp add: run_call_data_def)
  from invoke_rpc_cases [where heap = heap and data = data, OF assms, of api convert attach h is_void rcv]
  obtain heap' where
    "invoke_rpc api convert attach h is_void (connect_rpc sender rcv) heap c =
      (if ec_state c = Ready \<or> ec_state c = Running
       then (let j = unat (ec_next_cq_write_index c) mod length (ec_cqs c)
             in Inr ([], heap', c\<lparr>ec_next_cq_write_index := ec_next_cq_write_index c + 1,
                                  ec_cqs := (ec_cqs c)[j := attach ?rpc (ec_cqs c ! j)]\<rparr>))
       else Inr ([(rcv_name rcv, SetError (fst (RpcStatus_code Unavailable h)))], heap', c))"
    unfolding Let_def by blast
  then show ?thesis
    using once request by (intro exI [of _ heap']) (auto simp: Let_def intro!: exI [of _ ?rpc])
qed

text \<open>
  C27. Two operations connected to copies of one sender get in each other's way when they are
  started at the same time: if both have stored their completion before either has posted, the
  rpc posted first completes the second receiver, whatever grpc reports, and the other
  rpc completes nobody, so that the first receiver is never completed.
\<close>

theorem shared_sender_loses_completion:
  assumes "call_wrapped_factory sender (handler_for api h is_void a) heap = Inr (p, s1, heap1)"
    and "call_wrapped_factory sender (handler_for api h is_void b) heap1 = Inr (q, s2, heap2)"
    and "run_call_data api convert (the (heap2 p)) = (first, data1)"
    and "run_call_data api convert data1 = (second, data2)"
  shows "(\<exists>sent. inflight_complete first is_ok status response = map (Pair (rcv_name b)) sent \<and> completed_once sent) \<and>
    inflight_complete second is_ok status response = []"
proof -
  from assms(1,2) have "cd_completion (the (heap2 p)) = Some (handler_for api h is_void b)"
    by (auto simp: call_wrapped_factory_def split: option.splits)
  with assms(3) have one: "ir_completion first = curried_completion api convert (Some (handler_for api h is_void b))"
    and data1: "cd_completion data1 = None"
    by (auto simp: run_call_data_def)
  from assms(4) data1 have two: "ir_completion second = curried_completion api convert None"
    by (auto simp: run_call_data_def)
  show ?thesis
    using curried_handler [of api convert h is_void b is_ok status response]
    by (auto simp: inflight_complete_def one two curried_empty intro: op_completion_once)
qed



lemma rpc_started_once_witness:
  "\<exists>(c :: (nat, nat, (nat, grpc_status_code \<times> string, nat, nat \<times> (nat option, rpc_status) signal) inflight list) exec_context) heap' c'.
     make_context 1 [[]] = Inr c \<and>
     invoke_rpc pair_status Inr (\<lambda>rpc cq. cq @ [rpc]) no_objects False
       (connect_rpc \<lparr>snd_context = 0, snd_data = Some 0\<rparr> \<lparr>rcv_name = 5, rcv_set_value = (\<lambda>v. None)\<rparr>)
       [0 \<mapsto> \<lparr>cd_request = 9, cd_completion = None\<rparr>] c = Inr ([], heap', c')"
proof -
  obtain c :: "(nat, nat, (nat, grpc_status_code \<times> string, nat, nat \<times> (nat option, rpc_status) signal) inflight list) exec_context"
    where c: "make_context 1 [[]] = Inr c" by (simp add: make_context_def)
  then have f: "ec_cqs c = [[]]" "ec_state c = Ready" by (auto simp: make_context_def)
  show ?thesis
    using rpc_started_once [of "\<lparr>snd_context = 0, snd_data = Some 0\<rparr>" 0 "[0 \<mapsto> \<lparr>cd_request = 9, cd_completion = None\<rparr>]" _ c
        pair_status Inr "\<lambda>rpc cq. cq @ [rpc]" no_objects False "\<lparr>rcv_name = 5, rcv_set_value = (\<lambda>v. None)\<rparr>"] c f
    by (auto simp: Let_def)
qed

lemma shared_sender_witness:
  "\<exists>(a :: (nat, nat) receiver) b heap p s1 heap1 q s2 heap2 first (data1 :: (nat, _, _, _) call_data) second data2.
     call_wrapped_factory \<lparr>snd_context = 0, snd_data = Some 0\<rparr> (handler_for pair_status no_objects False a) heap = Inr (p, s1, heap1) \<and>
     call_wrapped_factory \<lparr>snd_context = 0, snd_data = Some 0\<rparr> (handler_for pair_status no_objects False b) heap1 = Inr (q, s2, heap2) \<and>
     run_call_data pair_status Inr (the (heap2 p)) = (first, data1) \<and>
     run_call_data pair_status Inr data1 = (second, data2) \<and> rcv_name a \<noteq> rcv_name b \<and>
     inflight_complete second True (OK, '''') (4 :: nat) = []"
proof -
  let ?a = "\<lparr>rcv_name = 1, rcv_set_value = (\<lambda>v. None)\<rparr> :: (nat, nat) receiver"
  let ?b = "\<lparr>rcv_name = 2, rcv_set_value = (\<lambda>v. None)\<rparr> :: (nat, nat) receiver"
  let ?heap = "[0 \<mapsto> \<lparr>cd_request = 9 :: nat, cd_completion = None\<rparr>]"
  obtain p s1 heap1 where 1: "call_wrapped_factory \<lparr>snd_context = 0, snd_data = Some 0\<rparr> (handler_for pair_status no_objects False ?a) ?heap = Inr (p, s1, heap1)"
    by (simp add: call_wrapped_factory_def)
  then have "\<exists>d. heap1 0 = Some d" by (auto simp: call_wrapped_factory_def)
  then obtain q s2 heap2 where 2: "call_wrapped_factory \<lparr>snd_context = 0, snd_data = Some 0\<rparr> (handler_for pair_status no_objects False ?b) heap1 = Inr (q, s2, heap2)"
    by (auto simp: call_wrapped_factory_def)
  obtain first data1 where 3: "run_call_data pair_status Inr (the (heap2 p)) = (first, data1)" by fastforce
  obtain second data2 where 4: "run_call_data pair_status Inr data1 = (second, data2)" by fastforce
  from shared_sender_loses_completion [OF 1 2 3 4, of True "(OK, '''')" 4]
  have "inflight_complete second True (OK, '''') 4 = []" by simp
  moreover have "rcv_name ?a \<noteq> rcv_name ?b" by simp
  ultimately show ?thesis using 1 2 3 4
    by (intro exI [of _ ?a] exI [of _ ?b] exI [of _ ?heap] exI [of _ p] exI [of _ s1] exI [of _ heap1]
        exI [of _ q] exI [of _ s2] exI [of _ heap2] exI [of _ first] exI [of _ data1] exI [of _ second]
        exI [of _ data2]) simp
qed



text \<open>
  A pure rpc completes its receiver exactly once as well: with an error at once if the
  context refuses it, and otherwise by the one rpc that is attached to the next completion
  queue, whatever grpc reports for it.
\<close>

theorem pure_started_once:
  assumes "ec_cqs c \<noteq> []" and "length (ec_cqs c) < 2 ^ 32"
  shows "if ec_state c = Ready \<or> ec_state c = Running
    then \<exists>rpc. (let j = unat (ec_next_cq_write_index c) mod length (ec_cqs c)
         in invoke_pure api attach request set_value c =
              Inr ([], c\<lparr>ec_next_cq_write_index := ec_next_cq_write_index c + 1,
                        ec_cqs := (ec_cqs c)[j := attach rpc (ec_cqs c ! j)]\<rparr>)) \<and>
         ir_request rpc = request \<and>
         (\<forall>is_ok status response. completed_once (inflight_complete rpc is_ok status response))
    else (\<exists>e. invoke_pure api attach request set_value c = Inr ([SetError e], c))"
proof -
  let ?rpc = "\<lparr>ir_request = request, ir_completion = (\<lambda>is_ok status response.
      (pure_completion api set_value is_ok status response, None :: exn option))\<rparr>"
  have once: "completed_once (inflight_complete ?rpc is_ok status response)" for is_ok status response
    by (auto simp: inflight_complete_def pure_completion_def completed_once_def split: option.split exn.split)
  have open_iff: "ec_state c \<le> Running \<longleftrightarrow> ec_state c = Ready \<or> ec_state c = Running"
    by (cases "ec_state c") (auto simp: state_order)
  show ?thesis
  proof (cases "ec_state c \<le> Running")
    case True
    then show ?thesis
      using assms once open_iff
      by (auto simp: invoke_pure_def post_rpc_def post_on_cq_eq context_wf_def Let_def intro!: exI [of _ ?rpc])
  next
    case False
    then show ?thesis
      using assms open_iff
      by (simp add: invoke_pure_def post_rpc_def post_on_cq_eq context_wf_def pure_refused_def)
  qed
qed

lemma pure_started_once_witness:
  "\<exists>(c :: (nat, nat, (nat, grpc_status_code \<times> string, nat, (nat, grpc_status_code \<times> string) signal) inflight list) exec_context) c'.
     make_context 1 [[]] = Inr c \<and>
     invoke_pure pair_status (\<lambda>rpc cq. cq @ [rpc]) (9 :: nat) (\<lambda>v. None) c = Inr ([], c')"
proof -
  obtain c :: "(nat, nat, (nat, grpc_status_code \<times> string, nat, (nat, grpc_status_code \<times> string) signal) inflight list) exec_context"
    where c: "make_context 1 [[]] = Inr c" by (simp add: make_context_def)
  then have f: "ec_cqs c = [[]]" "ec_state c = Ready" by (auto simp: make_context_def)
  show ?thesis
    using pure_started_once [of c pair_status "\<lambda>rpc cq. cq @ [rpc]" 9 "\<lambda>v. None"] c f
    by (auto simp: Let_def)
qed

end
