(* ===== verification/Server_Container.thy ===== *)
theory Server_Container
  imports Completion_Events Rpc_Client
begin

text \<open>
  Building a server: \<open>GenericServerContainer\<close> of \<open>sgrpc/generic_server_container.hpp\<close>, and the
  greeting service that uses it, server and client (\<open>greeting-grpc/\<close>, \<open>main.cpp\<close>).

  \<open>grpc::ServerBuilder\<close> is library code: \<open>build_api\<close> says which completion queues it adds and
  what \<open>BuildAndStart\<close> does for an address and these queues. \<open>fmt::format\<close> is library code as well, and a
  parameter. The messages of \<open>protos/helloworld.proto\<close> are records.
\<close>

section \<open>GenericServerContainer\<close>

text \<open>\<open>BuildAndStart\<close> gives the server, if it could be started, and the selected port.\<close>

record ('srv, 'cq) build_api =
  add_completion_queue :: "nat \<Rightarrow> 'cq"
  build_and_start :: "string \<Rightarrow> 'cq list \<Rightarrow> 'srv option \<times> int"

type_synonym fmt_api = "string \<Rightarrow> string list \<Rightarrow> string"

record ('srv, 'cq) container =
  gc_grpc_server :: "'srv option"
  gc_cqs :: "'cq list"
  gc_port :: u16

definition fresh_container :: "('srv, 'cq) container" where
  "fresh_container = \<lparr>gc_grpc_server = None, gc_cqs = [], gc_port = 0\<rparr>"

datatype container_error = InvalidArgument string | ContainerAssertion | ContextError ec_error

text \<open>
  \<open>init\<close>; \<open>wire_rpcs\<close> is the application's function, called for every completion queue, on the
  state \<open>w\<close> of the events. Without a success of \<open>BuildAndStart\<close> the port is 0, and the code
  goes on all the same.
\<close>

definition init_container ::
  "('srv, 'cq) build_api \<Rightarrow> (u16 \<Rightarrow> string) \<Rightarrow> ('cq \<Rightarrow> 'w \<Rightarrow> 'w) \<Rightarrow> u32 \<Rightarrow> u16
     \<Rightarrow> ('srv, 'cq) container \<Rightarrow> 'w \<Rightarrow> container_error + (('srv, 'cq) container \<times> 'w)" where
  "init_container api address wire_rpcs number_work_queues port self w =
     (if number_work_queues = 0 then Inl (InvalidArgument ''requires at least 1 work queue'')
      else (let cqs = map (add_completion_queue api) [0..<unat number_work_queues]
            in case build_and_start api (address port) cqs of
              (server, selected_port) \<Rightarrow>
                (let port' = (if gc_port self = 0 then word_of_int selected_port else gc_port self)
                 in if port' \<noteq> word_of_int selected_port then Inl ContainerAssertion
                    else Inr (self\<lparr>gc_grpc_server := server, gc_cqs := cqs, gc_port := port'\<rparr>,
                              fold wire_rpcs cqs w))))"

text \<open>
  \<open>make\<close>: the container, the context and the events afterwards. When \<open>attach_server\<close> throws
  the container is destroyed, but its server was started and its handlers were made.
\<close>

definition make_container ::
  "('srv, 'cq) build_api \<Rightarrow> (u16 \<Rightarrow> string) \<Rightarrow> ('cq \<Rightarrow> 'w \<Rightarrow> 'w) \<Rightarrow> u32 \<Rightarrow> u16
     \<Rightarrow> ('t, 'd, 'cq) exec_context \<Rightarrow> 'w
     \<Rightarrow> (container_error + ('srv, 'cq) container) \<times> ('t, 'd, 'cq) exec_context \<times> 'w" where
  "make_container api address wire_rpcs number_work_queues port c w =
     (case init_container api address wire_rpcs number_work_queues port fresh_container w of
        Inl e \<Rightarrow> (Inl e, c, w)
      | Inr (ct, w') \<Rightarrow>
          (case attach_server (gc_cqs ct) c of
             Inl e \<Rightarrow> (Inl (ContextError e), c, w')
           | Inr c' \<Rightarrow> (Inr ct, c', w')))"

definition container_port :: "('srv, 'cq) container \<Rightarrow> u16" where
  "container_port self = gc_port self"

definition get_work_queues :: "('srv, 'cq) container \<Rightarrow> 'cq list" where
  "get_work_queues self = gc_cqs self"

section \<open>The greeting service\<close>

record hello_request = hr_name :: string
record hello_reply = hp_message :: string

text \<open>\<open>Server::say_hello\<close>, the logic; \<open>wire_rpcs\<close> makes one handler.\<close>

definition server_say_hello :: "fmt_api \<Rightarrow> hello_request \<Rightarrow> hello_reply" where
  "server_say_hello format request =
     \<lparr>hp_message = format (''Say, request='' @ [CHR 0x27] @ ''{}'' @ [CHR 0x27]) [hr_name request]\<rparr>"

text \<open>
  \<open>bind_rpc\<close> and \<open>bind_logic\<close> of \<open>sgrpc/server_rpc_handler.hpp\<close> fix the service and the server;
  the constructor of a handler calls what \<open>bind_rpc\<close> gave with the completion queue as both
  the call's queue and the notification queue, and with itself as the tag. \<open>RequestSayHello\<close>
  is generated code and a parameter. The server has no state.
\<close>

definition bind_rpc ::
  "'svc \<Rightarrow> ('svc \<Rightarrow> 'sctx \<Rightarrow> 'req \<Rightarrow> 'writer \<Rightarrow> 'cq \<Rightarrow> 'cq \<Rightarrow> 'tag \<Rightarrow> 'r)
     \<Rightarrow> 'sctx \<Rightarrow> 'req \<Rightarrow> 'writer \<Rightarrow> 'cq \<Rightarrow> 'cq \<Rightarrow> 'tag \<Rightarrow> 'r" where
  "bind_rpc service bind_thunk server_context request response_writer call_cq notification_cq tag =
     bind_thunk service server_context request response_writer call_cq notification_cq tag"

definition bind_logic ::
  "'server \<Rightarrow> ('server \<Rightarrow> 'sctx \<Rightarrow> 'req \<Rightarrow> 'resp) \<Rightarrow> 'sctx \<Rightarrow> 'req \<Rightarrow> 'resp" where
  "bind_logic server logic_thunk server_context request = logic_thunk server server_context request"

definition bind_handler ::
  "('sctx \<Rightarrow> 'req \<Rightarrow> 'writer \<Rightarrow> 'cq \<Rightarrow> 'cq \<Rightarrow> 'tag \<Rightarrow> 'r) \<Rightarrow> 'sctx \<Rightarrow> 'req \<Rightarrow> 'writer \<Rightarrow> 'cq \<Rightarrow> 'tag \<Rightarrow> 'r" where
  "bind_handler bind_request server_context request response_writer cq this =
     bind_request server_context request response_writer cq cq this"

definition greeting_logic :: "fmt_api \<Rightarrow> 'sctx \<Rightarrow> (hello_request, hello_reply) rpc_logic" where
  "greeting_logic format server_context =
     Immediate (\<lambda>request. Inr (bind_logic () (\<lambda>server ctx request. server_say_hello format request) server_context request))"

lemma greeting_handler_binding:
  "bind_handler (bind_rpc service request_say_hello) server_context request response_writer cq this =
     request_say_hello service server_context request response_writer cq cq this"
  by (simp add: bind_handler_def bind_rpc_def)

definition greeting_wire_rpcs :: "'cq \<Rightarrow> ('d, 'f, 'resp) events \<Rightarrow> ('d, 'f, 'resp) events" where
  "greeting_wire_rpcs cq s = new_handler s"

text \<open>
  \<open>ServerContainer\<close> has a pointer to its container, null until \<open>build\<close> has made it. Its
  destructor calls \<open>stop\<close>, which goes through that pointer.
\<close>

record ('srv, 'cq) greeting_server = gs_container :: "('srv, 'cq) container option"

datatype 'w stop_result = ServerStopped 'w | Crashed

definition new_server_container :: "('srv, 'cq) greeting_server" where
  "new_server_container = \<lparr>gs_container = None\<rparr>"

definition stop_server ::
  "('srv \<Rightarrow> 'w \<Rightarrow> 'w) \<Rightarrow> ('srv, 'cq) greeting_server \<Rightarrow> 'w \<Rightarrow> 'w stop_result" where
  "stop_server shutdown_and_wait self w =
     (case gs_container self of
        None \<Rightarrow> Crashed
      | Some ct \<Rightarrow>
          (case gc_grpc_server ct of
             None \<Rightarrow> Crashed
           | Some srv \<Rightarrow> ServerStopped (shutdown_and_wait srv w)))"

definition destroy_server ::
  "('srv \<Rightarrow> 'w \<Rightarrow> 'w) \<Rightarrow> ('srv, 'cq) greeting_server \<Rightarrow> 'w \<Rightarrow> 'w stop_result" where
  "destroy_server shutdown_and_wait self w = stop_server shutdown_and_wait self w"

datatype ('srv, 'cq, 'c, 'w) build_result =
    Built "('srv, 'cq) greeting_server" 'c 'w
  | BuildThrew container_error 'c 'w
  | BuildCrashed

text \<open>\<open>build\<close>: an exception of \<open>make\<close> destroys the handle on its way out.\<close>

definition build_server ::
  "('srv, 'cq) build_api \<Rightarrow> (u16 \<Rightarrow> string) \<Rightarrow> ('srv \<Rightarrow> 'w \<Rightarrow> 'w) \<Rightarrow> ('cq \<Rightarrow> 'w \<Rightarrow> 'w) \<Rightarrow> u32 \<Rightarrow> u16
     \<Rightarrow> ('t, 'd, 'cq) exec_context \<Rightarrow> 'w
     \<Rightarrow> ('srv, 'cq, ('t, 'd, 'cq) exec_context, 'w) build_result" where
  "build_server api address shutdown_and_wait wire_rpcs queues port c w =
     (let handle = new_server_container
      in case make_container api address wire_rpcs queues port c w of
           (Inr ct, c', w') \<Rightarrow> Built (handle\<lparr>gs_container := Some ct\<rparr>) c' w'
         | (Inl e, c', w') \<Rightarrow>
             (case destroy_server shutdown_and_wait handle w' of
                Crashed \<Rightarrow> BuildCrashed
              | ServerStopped w'' \<Rightarrow> BuildThrew e c' w''))"

text \<open>\<open>Client::say_hello\<close>: the request, and the conversion of the reply.\<close>

definition client_say_hello ::
  "nat \<Rightarrow> string \<Rightarrow> nat \<Rightarrow> (hello_request, 's, string, 'x) call_heap
     \<Rightarrow> client_sender \<times> (hello_request, 's, string, 'x) call_heap" where
  "client_say_hello context_address user address heap = stub_call context_address \<lparr>hr_name = user\<rparr> address heap"

text \<open>
  The client's stub prepares its calls with \<open>PrepareAsyncSayHello\<close>, generated code and a
  parameter.
\<close>

definition client_factory ::
  "'svc \<Rightarrow> ('svc \<Rightarrow> hello_request \<Rightarrow> 'cq \<Rightarrow> 'reader \<times> 'cq)
     \<Rightarrow> ('svc, hello_request, 'cq, 'reader) response_reader_factory" where
  "client_factory stub prepare_async_say_hello =
     \<lparr>rrf_service = stub, rrf_factory_fn = prepare_async_say_hello\<rparr>"

definition convert_result :: "hello_reply \<Rightarrow> exn + string" where
  "convert_result reply = Inr (hp_message reply)"

subsection \<open>The functions of the example program\<close>

text \<open>\<open>int\<close> has 32 bits; what overflows is undefined, \<open>None\<close>.\<close>

definition compute :: "int \<Rightarrow> int option" where
  "compute x = (if x + 1 < 2 ^ 31 then Some (x + 1) else None)"

definition sumit :: "fmt_api \<Rightarrow> (int \<Rightarrow> string) \<Rightarrow> int \<Rightarrow> int \<Rightarrow> int \<Rightarrow> string \<Rightarrow> string" where
  "sumit format int_text x y z s =
     format (''({}, {}, {}), {}'' @ [CHR 0x0A]) [int_text x, int_text y, int_text z, s]"

section \<open>Lemmas\<close>

lemma init_fresh:
  "init_container api address wire_rpcs n port fresh_container w =
     (if n = 0 then Inl (InvalidArgument ''requires at least 1 work queue'')
      else (let cqs = map (add_completion_queue api) [0..<unat n]
            in case build_and_start api (address port) cqs of
                 (server, selected_port) \<Rightarrow>
                   Inr (\<lparr>gc_grpc_server = server, gc_cqs = cqs, gc_port = word_of_int selected_port\<rparr>,
                        fold wire_rpcs cqs w)))"
  by (simp add: init_container_def fresh_container_def Let_def split: prod.split)

lemma wired_listening:
  "tally is_listening (fold greeting_wire_rpcs cqs s) = tally is_listening s + length cqs"
  by (induction cqs arbitrary: s) (simp_all add: greeting_wire_rpcs_def new_handler_def tally_new)

lemma attach_server_cases:
  "attach_server server c =
     (if ec_state c = Ready then Inr (c\<lparr>ec_servers := ec_servers c @ [server]\<rparr>)
      else Inl (RuntimeError ''attempt to attach a server to an already running execution-context''))"
  by (simp add: attach_server_def get_state_def)

section \<open>Properties\<close>

text \<open>
  C30. Building the greeting server on a context that does not run yet starts it with the
  given number of completion queues, attaches them to the context, has one handler
  listening on each and reports the selected port. On every error the program crashes
  instead of getting the exception: with no queues, or on a context that runs or was
  stopped, the exception destroys a handle whose container is null; and a server that could
  not be started is not noticed until it is stopped, which goes through a null pointer.
\<close>

theorem greeting_build_outcomes:
  assumes "build_and_start api (address port) (map (add_completion_queue api) [0..<unat n]) = (server, selected)"
  shows "(if n = 0 \<or> ec_state c \<noteq> Ready
     then build_server api address shutdown_and_wait greeting_wire_rpcs n port c s = BuildCrashed
     else \<exists>handle s'.
       build_server api address shutdown_and_wait greeting_wire_rpcs n port c s =
         Built handle (c\<lparr>ec_servers := ec_servers c @ [map (add_completion_queue api) [0..<unat n]]\<rparr>) s' \<and>
       tally is_listening s' = tally is_listening s + unat n \<and>
       map_option container_port (gs_container handle) = Some (word_of_int selected) \<and>
       (\<forall>w. stop_server shutdown_and_wait handle w =
          (case server of None \<Rightarrow> Crashed | Some srv \<Rightarrow> ServerStopped (shutdown_and_wait srv w))))"
  using assms
  by (auto simp: build_server_def make_container_def init_fresh attach_server_cases
      destroy_server_def stop_server_def new_server_container_def wired_listening container_port_def Let_def
      split: option.split)

lemma greeting_build_witness:
  "\<exists>(c :: (nat, nat, nat) exec_context) handle c' s'. make_context 2 [0] = Inr c \<and>
     build_server \<lparr>add_completion_queue = id, build_and_start = (\<lambda>a cqs. (Some (7 :: nat), 8080))\<rparr> (\<lambda>p. [])
       (\<lambda>srv w. w) greeting_wire_rpcs 2 0 c (no_events :: (nat, nat, nat) events) = Built handle c' s' \<and>
     tally is_listening s' = 2"
proof -
  obtain c :: "(nat, nat, nat) exec_context" where c: "make_context 2 [0] = Inr c"
    by (simp add: make_context_def)
  then have "ec_state c = Ready" by (auto simp: make_context_def)
  then show ?thesis
    using greeting_build_outcomes [of "\<lparr>add_completion_queue = id, build_and_start = (\<lambda>a cqs. (Some (7 :: nat), 8080))\<rparr>"
        "\<lambda>p. []" 0 2 "Some 7" 8080 c "\<lambda>srv w. w" "no_events :: (nat, nat, nat) events"] c
    by (auto simp: tally_def no_events_def)
qed

text \<open>
  C31. The greeting comes back: starting the sender of \<open>say_hello\<close> on a context that takes rpcs
  prepares exactly one call, of the stub's own method with the user's name, on the next
  completion queue, starts it and asks it to finish. When grpc delivers the request of that
  call to a handler of the greeting server, the handler answers it once, with the greeting
  and status OK, and leaves a new handler listening. When grpc brings that response back
  with success, the rpc sends its receiver the greeting as the value, that and nothing else.
\<close>

theorem greeting_comes_back:
  assumes "client_say_hello context_address user address heap = (sender, heap1)"
    and "ec_cqs c \<noteq> []" and "length (ec_cqs c) < 2 ^ 32" and "ec_state c = Ready \<or> ec_state c = Running"
    and "\<forall>x. format (''Say, request='' @ [CHR 0x27] @ ''{}'' @ [CHR 0x27]) [x] =
      ''Say, request='' @ [CHR 0x27] @ x @ [CHR 0x27]"
    and "st_ok api status" and "\<forall>v. rcv_set_value rcv v = None"
    and "j = unat (ec_next_cq_write_index c) mod length (ec_cqs c)"
    and "prepare stub \<lparr>hr_name = user\<rparr> (ec_cqs c ! j) = (reader, cq)"
    and "ev_heap s tag = Some (HandlerObject False)" and "tag \<in># ev_ops s" and "ev_heap s (ev_next s) = None"
  shows "\<exists>rpc heap' reply s'.
    invoke_rpc api convert_result (start_inflight readers (client_factory stub prepare)) h False
        (connect_rpc sender rcv) heap1 c =
      Inr ([], heap', c\<lparr>ec_next_cq_write_index := ec_next_cq_write_index c + 1,
        ec_cqs := (ec_cqs c)[j := rd_finish readers reader rpc (rd_start_call readers reader cq)]\<rparr>) \<and>
    do_act (greeting_logic format server_context) (Deliver tag True (ir_request rpc)) s = Some (Inr s') \<and>
    ev_log s' = ev_log s @ [Answered tag (FinishOk reply)] \<and> tag \<in># ev_ops s' \<and>
    ev_heap s' (ev_next s) = Some (HandlerObject False) \<and> ev_next s \<in># ev_ops s' \<and>
    inflight_complete rpc True status reply =
      [(rcv_name rcv, SetValue (Some (''Say, request='' @ [CHR 0x27] @ user @ [CHR 0x27])))]"
proof -
  let ?data = "\<lparr>cd_request = \<lparr>hr_name = user\<rparr>, cd_completion = None\<rparr>"
  let ?rpc = "fst (run_call_data api convert_result (?data\<lparr>cd_completion := Some (handler_for api h False rcv)\<rparr>))"
  let ?reply = "server_say_hello format \<lparr>hr_name = user\<rparr>"
  from assms(1) have sender: "snd_data sender = Some address" "heap1 address = Some ?data"
    by (auto simp: client_say_hello_def stub_call_def)
  have "ev_next s \<noteq> tag" using assms(10,12) by auto
  then have "\<exists>s'. do_act (greeting_logic format server_context) (Deliver tag True (ir_request ?rpc)) s = Some (Inr s') \<and>
    ev_log s' = ev_log s @ [Answered tag (FinishOk ?reply)] \<and> tag \<in># ev_ops s' \<and>
    ev_heap s' (ev_next s) = Some (HandlerObject False) \<and> ev_next s \<in># ev_ops s'"
    using assms(10,11)
    by (simp add: complete_def complete_handler_def greeting_logic_def bind_logic_def finish_def log_event_def
        new_handler_def new_object_def run_call_data_def Let_def)
  moreover have "inflight_complete ?rpc True status ?reply =
      [(rcv_name rcv, SetValue (Some (''Say, request='' @ [CHR 0x27] @ user @ [CHR 0x27])))]"
    using assms(5-7)
    by (simp add: run_call_data_def inflight_complete_def curried_completion_def convert_result_def
        call_function_def handler_for_def op_completion_def server_say_hello_def Let_def)
  moreover have "start_inflight readers (client_factory stub prepare) ?rpc (ec_cqs c ! j) =
      rd_finish readers reader ?rpc (rd_start_call readers reader cq)"
    using assms(9)
    by (simp add: start_inflight_def call_reader_factory_def client_factory_def run_call_data_def)
  then have "\<exists>heap'. invoke_rpc api convert_result (start_inflight readers (client_factory stub prepare)) h False
        (connect_rpc sender rcv) heap1 c =
      Inr ([], heap', c\<lparr>ec_next_cq_write_index := ec_next_cq_write_index c + 1,
        ec_cqs := (ec_cqs c)[j := rd_finish readers reader ?rpc (rd_start_call readers reader cq)]\<rparr>)"
    using invoke_rpc_cases [where heap = heap1 and data = ?data, OF sender assms(2,3), of api convert_result
        "start_inflight readers (client_factory stub prepare)" h False rcv] assms(4,8)
    by (auto simp: Let_def)
  ultimately show ?thesis by blast
qed

type_synonym greeting_rpc =
  "(hello_request, grpc_status_code \<times> string, hello_reply, nat \<times> (string option, rpc_status) signal) inflight"

lemma greeting_comes_back_witness:
  "\<exists>(c :: (nat, nat, nat \<times> greeting_rpc list) exec_context) sender heap1 heap' rpc reply (s' :: (nat, nat, hello_reply) events).
     make_context 1 [(0, [])] = Inr c \<and> client_say_hello 3 ''Tritarch'' 0 Map.empty = (sender, heap1) \<and>
     invoke_rpc pair_status convert_result
       (start_inflight \<lparr>rd_start_call = (\<lambda>r cq. (fst cq + r, snd cq)), rd_finish = (\<lambda>r rpc cq. (fst cq, rpc # snd cq))\<rparr>
          (client_factory () (\<lambda>stub request cq. (length (hr_name request), cq))))
       no_objects False (connect_rpc sender \<lparr>rcv_name = 5, rcv_set_value = (\<lambda>v. None)\<rparr>) heap1 c =
     Inr ([], heap', c\<lparr>ec_next_cq_write_index := 1, ec_cqs := [(8, [rpc])]\<rparr>) \<and>
     ev_log s' = [Answered 0 (FinishOk reply)] \<and>
     inflight_complete rpc True (OK, '''') reply =
       [(5, SetValue (Some (''Say, request='' @ [CHR 0x27] @ ''Tritarch'' @ [CHR 0x27])))]"
proof -
  let ?readers = "\<lparr>rd_start_call = (\<lambda>r cq. (fst cq + r, snd cq)), rd_finish = (\<lambda>r rpc cq. (fst cq, rpc # snd cq))\<rparr>
    :: (nat, greeting_rpc, nat \<times> greeting_rpc list) reader_api"
  let ?prepare = "\<lambda>(stub :: unit) request cq. (length (hr_name request), cq)"
  let ?format = "\<lambda>p xs. ''Say, request='' @ [CHR 0x27] @ hd xs @ [CHR 0x27]"
  let ?s = "new_handler no_events :: (nat, nat, hello_reply) events"
  obtain c :: "(nat, nat, nat \<times> greeting_rpc list) exec_context"
    where c: "make_context 1 [(0, [])] = Inr c" by (simp add: make_context_def)
  then have f: "ec_cqs c = [(0, [])]" "ec_state c = Ready" "ec_next_cq_write_index c = 0"
    by (auto simp: make_context_def)
  obtain sender and heap1 :: "(hello_request, grpc_status_code \<times> string, string,
      nat \<times> (string option, rpc_status) signal) call_heap"
    where s: "client_say_hello 3 ''Tritarch'' 0 Map.empty = (sender, heap1)" by fastforce
  from greeting_comes_back [where s = ?s and tag = 0 and server_context = "()", OF s, of c ?format pair_status
      "(OK, '''')" "\<lparr>rcv_name = 5, rcv_set_value = (\<lambda>v. None)\<rparr>" 0 ?prepare "()" 8 "(0, [])" ?readers no_objects] f
  have "\<exists>rpc heap' reply (s' :: (nat, nat, hello_reply) events).
     invoke_rpc pair_status convert_result (start_inflight ?readers (client_factory () ?prepare))
       no_objects False (connect_rpc sender \<lparr>rcv_name = 5, rcv_set_value = (\<lambda>v. None)\<rparr>) heap1 c =
     Inr ([], heap', c\<lparr>ec_next_cq_write_index := 1, ec_cqs := [(8, [rpc])]\<rparr>) \<and>
     ev_log s' = [Answered 0 (FinishOk reply)] \<and>
     inflight_complete rpc True (OK, '''') reply =
       [(5, SetValue (Some (''Say, request='' @ [CHR 0x27] @ ''Tritarch'' @ [CHR 0x27])))]"
    by (fastforce simp: pair_status_def new_handler_def new_object_def no_events_def)
  with c s show ?thesis by blast
qed

end
