(* ===== verification/Execution_Destroy.thy ===== *)
theory Execution_Destroy
  imports Execution_Stop
begin

text \<open>
  The destructor of \<open>ExecutionContext\<close>: it calls \<open>stop\<close> and then destroys the members, among
  them the vector of threads, where a thread that was not joined ends the program.
\<close>

section \<open>Definitions\<close>

text \<open>
  The context as it was when its members were destroyed; a destructor that waits for ever; or
  \<open>std::terminate\<close>, for a destructor does not throw.
\<close>

datatype 'c destroyed = ContextGone 'c | DestroyWaits | DestroyTerminates

definition destroy_context ::
  "(('d, 'r) cq_event, 'cq) cq_api \<Rightarrow> ('t, 'd, 'r, 'cq) user_code \<Rightarrow> u32 option \<Rightarrow> (u32 \<Rightarrow> bool)
     \<Rightarrow> ('t, 'd, 'cq) exec_context \<Rightarrow> ('t, 'd, 'cq) exec_context destroyed" where
  "destroy_context api user self finished c =
     (case stop api user self finished c of
        StopReturned c' \<Rightarrow> (if ec_threads c' = [] then ContextGone c' else DestroyTerminates)
      | StopWaits c' \<Rightarrow> DestroyWaits
      | StopThrew c' \<Rightarrow> DestroyTerminates)"

section \<open>Lemmas\<close>

lemma destroy_not_running:
  "ec_state c \<noteq> Running \<Longrightarrow>
     destroy_context api user self finished c = (if ec_threads c = [] then ContextGone c else DestroyTerminates)"
  by (simp add: destroy_context_def stop_def begin_stop_loses)

lemma join_all_waits: "\<exists>t \<in> set ts. \<not> finished t \<Longrightarrow> \<exists>t. join_all None finished ts = JoinWaits t"
  by (induction ts) auto

lemma destroy_waits:
  assumes "ec_state c = Running" and "\<exists>t \<in> set (ec_threads c). \<not> finished t"
  shows "destroy_context api user None finished c = DestroyWaits"
  using assms join_all_waits [OF assms(2)]
  by (auto simp: destroy_context_def stop_def begin_stop_def compare_exchange_def halt_queues_def Let_def)

lemma destroy_by_worker:
  assumes "ec_state c = Running" and "t \<in> set (ec_threads c)"
  shows "destroy_context api user (Some t) finished c \<noteq> ContextGone c'"
  using assms join_all_self [OF assms(2), of finished]
  by (auto simp: destroy_context_def stop_def begin_stop_def compare_exchange_def halt_queues_def Let_def
      split: join_result.splits)

lemma destroy_idle:
  assumes "ec_state c = Running" and "ec_within_cq_post c = 0" and "\<forall>t \<in> set (ec_threads c). finished t"
    and "ec_notifications c = []"
  shows "destroy_context api user None finished c = ContextGone
    (c\<lparr>ec_cqs := map (cq_shutdown api) (ec_cqs c), ec_servers := map (map (cq_shutdown api)) (ec_servers c),
       ec_threads := [], ec_state := Stopped\<rparr>)"
proof -
  have "join_all None finished (ec_threads c) = Joined"
    using assms(3) by (intro join_all_joined) auto
  with assms show ?thesis
    by (simp add: destroy_context_def stop_def begin_stop_def compare_exchange_def halt_queues_def
        take_notifications_def Let_def)
qed

section \<open>Property\<close>



end
