(* ===== verification/Greeting_Program.thy ===== *)
theory Greeting_Program
  imports Server_Container Execution_Destroy
begin

text \<open>
  The example program, \<open>main\<close> of \<open>src/src/main.cpp\<close>: the setup of the context and the server,
  the work that it launches and waits for, and the destruction of its locals in the reverse
  order of their declaration.

  The algorithms of stdexec are library code. Those that \<open>main\<close> uses are the record
  \<open>stdexec_api\<close>, at the types it uses them, on senders that are known by how they complete: with
  a value or with an error. What is documented of them is \<open>stdexec_laws\<close>.
\<close>

section \<open>Definitions\<close>

type_synonym ('e, 'v) completion = "'e + 'v"

record 'e stdexec_api =
  sx_just :: "int \<Rightarrow> ('e, int) completion"
  sx_then :: "('e, int) completion \<Rightarrow> (int \<Rightarrow> int) \<Rightarrow> ('e, int) completion"
  sx_on :: "nat scheduler \<Rightarrow> ('e, int) completion \<Rightarrow> ('e, int) completion"
  sx_when_all :: "('e, int) completion \<Rightarrow> ('e, int) completion \<Rightarrow> ('e, int) completion \<Rightarrow> ('e, string) completion
    \<Rightarrow> ('e, int \<times> int \<times> int \<times> string) completion"
  sx_then_all :: "('e, int \<times> int \<times> int \<times> string) completion \<Rightarrow> (int \<Rightarrow> int \<Rightarrow> int \<Rightarrow> string \<Rightarrow> string)
    \<Rightarrow> ('e, string) completion"
  sx_let_value :: "('e, string) completion \<Rightarrow> (string \<Rightarrow> ('e, string) completion) \<Rightarrow> ('e, string) completion"
  sx_upon_error :: "('e, string) completion \<Rightarrow> ('e \<Rightarrow> string) \<Rightarrow> ('e, string) completion"

text \<open>
  \<open>int\<close> has 32 bits and its overflow is undefined; \<open>fun\<close> is called with 0, 1 and 2, where
  \<open>compute\<close> is defined.
\<close>

definition main_fun :: "int \<Rightarrow> int" where
  "main_fun i = (case compute i of Some j \<Rightarrow> j | None \<Rightarrow> undefined)"

text \<open>The work; \<open>say_hello\<close> is the completion of a sender that the client makes for a user.\<close>

definition main_work ::
  "'e stdexec_api \<Rightarrow> fmt_api \<Rightarrow> (int \<Rightarrow> string) \<Rightarrow> nat scheduler \<Rightarrow> ('e, string) completion
     \<Rightarrow> (string \<Rightarrow> ('e, string) completion) \<Rightarrow> ('e, string) completion" where
  "main_work sx format int_text sched hello say_hello =
     sx_upon_error sx
       (sx_let_value sx
         (sx_then_all sx
           (sx_when_all sx
             (sx_on sx sched (sx_then sx (sx_just sx 0) main_fun))
             (sx_on sx sched (sx_then sx (sx_just sx 1) main_fun))
             (sx_on sx sched (sx_then sx (sx_just sx 2) main_fun))
             hello)
           (sumit format int_text))
         say_hello)
       (\<lambda>arg. ''there was an error of some kind'')"

text \<open>
  How \<open>main\<close> ends: with the lines it printed, the context and the events after the
  destructors; by \<open>std::terminate\<close> (an exception leaves \<open>main\<close>, which \<open>sync_wait\<close> throws for a
  sender that completes with an error); by a crash; or it hangs in a destructor.
\<close>

datatype ('c, 'w) main_end =
    MainReturned "string list" 'c 'w
  | MainTerminated
  | MainCrashed
  | MainHangs

text \<open>The destructors of \<open>server\<close> and of \<open>ctx\<close>; the others do nothing here.\<close>

definition main_teardown ::
  "(('d, 'r) cq_event, 'cq) cq_api \<Rightarrow> ('t, 'd, 'r, 'cq) user_code \<Rightarrow> ('srv \<Rightarrow> 'w \<Rightarrow> 'w) \<Rightarrow> (u32 \<Rightarrow> bool)
     \<Rightarrow> ('srv, 'cq) greeting_server \<Rightarrow> string list \<Rightarrow> ('t, 'd, 'cq) exec_context \<Rightarrow> 'w
     \<Rightarrow> (('t, 'd, 'cq) exec_context, 'w) main_end" where
  "main_teardown cqs user shutdown_and_wait finished server lines ctx w =
     (case destroy_server shutdown_and_wait server w of
        Crashed \<Rightarrow> MainCrashed
      | ServerStopped w' \<Rightarrow>
          (case destroy_context cqs user None finished ctx of
             ContextGone ctx' \<Rightarrow> MainReturned lines ctx' w'
           | DestroyWaits \<Rightarrow> MainHangs
           | DestroyTerminates \<Rightarrow> MainTerminated))"

text \<open>
  \<open>main\<close>. \<open>activity\<close> is what the threads of the context do to it, and to the events, while
  \<open>main\<close> waits; \<open>say_hello k user\<close> is the completion of the sender of \<open>say_hello\<close> that is started
  as number \<open>k\<close>.
\<close>

definition example_main ::
  "(('d, 'r) cq_event, 'cq) cq_api \<Rightarrow> 'cq \<Rightarrow> ('t, 'd, 'r, 'cq) user_code \<Rightarrow> ('srv, 'cq) build_api \<Rightarrow> (u16 \<Rightarrow> string)
     \<Rightarrow> ('srv \<Rightarrow> 'w \<Rightarrow> 'w) \<Rightarrow> ('cq \<Rightarrow> 'w \<Rightarrow> 'w) \<Rightarrow> 'e stdexec_api \<Rightarrow> fmt_api \<Rightarrow> (int \<Rightarrow> string)
     \<Rightarrow> (nat \<Rightarrow> string \<Rightarrow> ('e, string) completion)
     \<Rightarrow> (('t, 'd, 'cq) exec_context \<times> 'w \<Rightarrow> ('t, 'd, 'cq) exec_context \<times> 'w) \<Rightarrow> (u32 \<Rightarrow> bool) \<Rightarrow> 'w
     \<Rightarrow> (('t, 'd, 'cq) exec_context, 'w) main_end" where
  "example_main cqs new_cq user builder address shutdown_and_wait wire_rpcs sx format int_text say_hello
     activity finished w =
     (case make_context_cqs new_cq 2 1 of
        Inl e \<Rightarrow> MainCrashed
      | Inr ctx \<Rightarrow>
          (case build_server builder address shutdown_and_wait wire_rpcs 1 0 ctx w of
             BuildCrashed \<Rightarrow> MainCrashed
           | BuildThrew e ctx1 w1 \<Rightarrow> MainTerminated
           | Built server ctx1 w1 \<Rightarrow>
               (let ctx2 = fst (run_context ctx1);
                    port_line = format (''server listening on port:{}'' @ [CHR 0x0A])
                      [int_text (uint (container_port (the (gs_container server))))];
                    (ctx3, w3) = activity (ctx2, w1)
                in case main_work sx format int_text \<lparr>sch_context = 0\<rparr> (say_hello 0 ''Tritarch'') (say_hello 1) of
                     Inl e \<Rightarrow> MainTerminated
                   | Inr result \<Rightarrow>
                       (case say_hello 2 ''Tritarch'' of
                          Inl e \<Rightarrow> MainTerminated
                        | Inr response \<Rightarrow>
                            main_teardown cqs user shutdown_and_wait finished server
                              [port_line, format (''result:   {}'' @ [CHR 0x0A]) [result],
                               format (''response: {}'' @ [CHR 0x0A]) [response]]
                              ctx3 w3))))"

section \<open>What is documented of the library\<close>

text \<open>
  \<open>when_all\<close> completes with all values, or with one of the errors; the others pass on what they
  do not handle.
\<close>

definition stdexec_laws :: "'e stdexec_api \<Rightarrow> bool" where
  "stdexec_laws sx \<longleftrightarrow>
     (\<forall>i. sx_just sx i = Inr i) \<and>
     (\<forall>i f. sx_then sx (Inr i) f = Inr (f i)) \<and>
     (\<forall>sched s. sx_on sx sched s = s) \<and>
     (\<forall>x y z u. sx_when_all sx (Inr x) (Inr y) (Inr z) (Inr u) = Inr (x, y, z, u)) \<and>
     (\<forall>x y z e. sx_when_all sx (Inr x) (Inr y) (Inr z) (Inl e) = Inl e) \<and>
     (\<forall>x y z u f. sx_then_all sx (Inr (x, y, z, u)) f = Inr (f x y z u)) \<and> (\<forall>e f. sx_then_all sx (Inl e) f = Inl e) \<and>
     (\<forall>v f. sx_let_value sx (Inr v) f = f v) \<and> (\<forall>e f. sx_let_value sx (Inl e) f = Inl e) \<and>
     (\<forall>v f. sx_upon_error sx (Inr v) f = Inr v) \<and> (\<forall>e f. sx_upon_error sx (Inl e) f = Inr (f e))"

text \<open>Senders whose work is done at once satisfy them.\<close>

definition eager_stdexec :: "'e stdexec_api" where
  "eager_stdexec =
     \<lparr>sx_just = Inr, sx_then = (\<lambda>s f. map_sum id f s), sx_on = (\<lambda>sched s. s),
      sx_when_all = (\<lambda>a b c d. case a of Inl e \<Rightarrow> Inl e | Inr x \<Rightarrow> (case b of Inl e \<Rightarrow> Inl e | Inr y \<Rightarrow>
        (case c of Inl e \<Rightarrow> Inl e | Inr z \<Rightarrow> (case d of Inl e \<Rightarrow> Inl e | Inr u \<Rightarrow> Inr (x, y, z, u))))),
      sx_then_all = (\<lambda>s f. map_sum id (\<lambda>(x, y, z, u). f x y z u) s),
      sx_let_value = (\<lambda>s f. case s of Inl e \<Rightarrow> Inl e | Inr v \<Rightarrow> f v),
      sx_upon_error = (\<lambda>s f. case s of Inl e \<Rightarrow> Inr (f e) | Inr v \<Rightarrow> Inr v)\<rparr>"

lemma eager_stdexec_laws: "stdexec_laws eager_stdexec"
  by (simp add: stdexec_laws_def eager_stdexec_def)

section \<open>Lemmas\<close>

lemma main_funs: "main_fun 0 = 1" "main_fun 1 = 2" "main_fun 2 = 3"
  by (simp_all add: main_fun_def compute_def)

text \<open>The work completes with a value whatever happens to its rpcs.\<close>

lemma main_work_cases:
  assumes "stdexec_laws sx"
  shows "main_work sx format int_text sched hello say_hello =
    Inr (case hello of
           Inl e \<Rightarrow> ''there was an error of some kind''
         | Inr s \<Rightarrow> (case say_hello (sumit format int_text 1 2 3 s) of
             Inl e \<Rightarrow> ''there was an error of some kind'' | Inr r \<Rightarrow> r))"
proof -
  note laws = assms [unfolded stdexec_laws_def]
  show ?thesis
  proof (cases hello)
    case (Inl e)
    then show ?thesis using laws by (simp add: main_work_def main_funs)
  next
    case (Inr s)
    then show ?thesis
      using laws by (cases "say_hello (sumit format int_text 1 2 3 s)") (simp_all add: main_work_def main_funs)
  qed
qed

lemma two_threads: "map of_nat [0..<2] = [0, 1 :: u32]"
  by (simp add: upt_rec)

text \<open>The setup: a running context of two threads, with one server attached before it runs.\<close>

lemma main_setup:
  assumes "build_and_start builder (address 0) [add_completion_queue builder 0] = (server, selected)"
  shows "\<exists>ctx ctx1 handle w1.
    make_context_cqs new_cq 2 1 = Inr ctx \<and>
    build_server builder address shutdown_and_wait wire_rpcs 1 0 ctx w = Built handle ctx1 w1 \<and>
    fst (run_context ctx1) = ctx1\<lparr>ec_state := Running, ec_threads := [0, 1]\<rparr> \<and>
    ec_state ctx1 = Ready \<and> ec_threads ctx1 = [] \<and> ec_within_cq_post ctx1 = 0 \<and>
    ec_notifications ctx1 = [] \<and> ec_cqs ctx1 = [new_cq] \<and> ec_servers ctx1 = [[add_completion_queue builder 0]] \<and>
    w1 = wire_rpcs (add_completion_queue builder 0) w \<and>
    gs_container handle = Some \<lparr>gc_grpc_server = server, gc_cqs = [add_completion_queue builder 0],
      gc_port = word_of_int selected\<rparr>"
  using assms
  by (simp add: make_context_cqs_def make_context_def build_server_def make_container_def init_fresh
      attach_server_cases new_server_container_def run_context_def run_while_def compare_exchange_def
      two_threads Let_def)

text \<open>\<open>fmt::format\<close> at the formats of the program, and the texts of the numbers it prints.\<close>

definition greeting_text :: "string \<Rightarrow> string" where
  "greeting_text user = ''Say, request='' @ [CHR 0x27] @ user @ [CHR 0x27]"

definition fmt_laws :: "fmt_api \<Rightarrow> (int \<Rightarrow> string) \<Rightarrow> bool" where
  "fmt_laws format int_text \<longleftrightarrow>
     (\<forall>x y z s. format (''({}, {}, {}), {}'' @ [CHR 0x0A]) [x, y, z, s] =
        ''('' @ x @ '', '' @ y @ '', '' @ z @ ''), '' @ s @ [CHR 0x0A]) \<and>
     (\<forall>x. format (''server listening on port:{}'' @ [CHR 0x0A]) [x] = ''server listening on port:'' @ x @ [CHR 0x0A]) \<and>
     (\<forall>x. format (''result:   {}'' @ [CHR 0x0A]) [x] = ''result:   '' @ x @ [CHR 0x0A]) \<and>
     (\<forall>x. format (''response: {}'' @ [CHR 0x0A]) [x] = ''response: '' @ x @ [CHR 0x0A]) \<and>
     int_text 1 = ''1'' \<and> int_text 2 = ''2'' \<and> int_text 3 = ''3''"

text \<open>While \<open>main\<close> waits nobody stops the context, waits in a post for ever, or asks to be notified.\<close>

definition undisturbed :: "(('t, 'd, 'cq) exec_context \<times> 'w \<Rightarrow> ('t, 'd, 'cq) exec_context \<times> 'w) \<Rightarrow> bool" where
  "undisturbed activity \<longleftrightarrow> (\<forall>c w c' w'. activity (c, w) = (c', w') \<longrightarrow>
     ec_state c' = ec_state c \<and> ec_threads c' = ec_threads c \<and> ec_within_cq_post c' = ec_within_cq_post c \<and>
     ec_notifications c' = ec_notifications c)"

lemma teardown_running:
  assumes "ec_state ctx = Running" and "ec_within_cq_post ctx = 0" and "ec_notifications ctx = []"
    and "\<forall>t. finished t" and "gs_container handle = Some ct"
  shows "main_teardown cqs user shutdown_and_wait finished handle lines ctx w =
    (case gc_grpc_server ct of
       None \<Rightarrow> MainCrashed
     | Some srv \<Rightarrow> MainReturned lines
         (ctx\<lparr>ec_cqs := map (cq_shutdown cqs) (ec_cqs ctx),
              ec_servers := map (map (cq_shutdown cqs)) (ec_servers ctx),
              ec_threads := [], ec_state := Stopped\<rparr>) (shutdown_and_wait srv w))"
  using assms(4,5) destroy_idle [OF assms(1,2) _ assms(3), of finished cqs user]
  by (auto simp: main_teardown_def destroy_server_def stop_server_def split: option.split)

text \<open>What \<open>main\<close> does, for every outcome of the three rpcs and of the start of the server.\<close>

lemma example_main_cases:
  fixes activity :: "('t, 'd, 'cq) exec_context \<times> 'w \<Rightarrow> ('t, 'd, 'cq) exec_context \<times> 'w"
  assumes "stdexec_laws sx" and "undisturbed activity" and "\<forall>t. finished t"
    and "build_and_start builder (address 0) [add_completion_queue builder 0] = (server, selected)"
  shows "\<exists>ctx w'. ec_state ctx = Stopped \<and> ec_threads ctx = [] \<and>
    set (concat (ec_cqs ctx # ec_servers ctx)) \<subseteq> range (cq_shutdown cqs) \<and>
    example_main cqs new_cq user builder address shutdown_and_wait wire_rpcs sx format int_text say_hello activity finished w =
    (case say_hello 2 ''Tritarch'' of
       Inl e \<Rightarrow> MainTerminated
     | Inr response \<Rightarrow>
         (case server of
            None \<Rightarrow> MainCrashed
          | Some srv \<Rightarrow> MainReturned
              [format (''server listening on port:{}'' @ [CHR 0x0A]) [int_text (uint (word_of_int selected :: u16))],
               format (''result:   {}'' @ [CHR 0x0A])
                 [case say_hello 0 ''Tritarch'' of
                    Inl e \<Rightarrow> ''there was an error of some kind''
                  | Inr s \<Rightarrow> (case say_hello 1 (sumit format int_text 1 2 3 s) of
                      Inl e \<Rightarrow> ''there was an error of some kind'' | Inr r \<Rightarrow> r)],
               format (''response: {}'' @ [CHR 0x0A]) [response]]
              ctx (shutdown_and_wait srv w')))"
proof -
  obtain ctx0 and ctx1 :: "('t, 'd, 'cq) exec_context" and handle w1 where built: "make_context_cqs new_cq 2 1 = Inr ctx0"
    "build_server builder address shutdown_and_wait wire_rpcs 1 0 ctx0 w = Built handle ctx1 w1"
    and ctx1: "fst (run_context ctx1) = ctx1\<lparr>ec_state := Running, ec_threads := [0, 1]\<rparr>"
      "ec_within_cq_post ctx1 = 0" "ec_notifications ctx1 = []"
    and handle: "gs_container handle = Some \<lparr>gc_grpc_server = server, gc_cqs = [add_completion_queue builder 0],
      gc_port = word_of_int selected\<rparr>"
    using main_setup [of builder address server selected new_cq shutdown_and_wait wire_rpcs w, OF assms(4)] by blast
  obtain ctx3 w3 where act: "activity (ctx1\<lparr>ec_state := Running, ec_threads := [0, 1]\<rparr>, w1) = (ctx3, w3)" by fastforce
  with assms(2) ctx1 have ctx3: "ec_state ctx3 = Running" "ec_within_cq_post ctx3 = 0" "ec_notifications ctx3 = []"
    by (simp_all add: assms(2) [unfolded undisturbed_def, rule_format, OF act])
  note down = teardown_running [OF ctx3 assms(3) handle, of cqs user shutdown_and_wait]
  show ?thesis
    by (rule exI [of _ "ctx3\<lparr>ec_cqs := map (cq_shutdown cqs) (ec_cqs ctx3),
          ec_servers := map (map (cq_shutdown cqs)) (ec_servers ctx3), ec_threads := [], ec_state := Stopped\<rparr>"],
        rule exI [of _ w3])
       (auto simp: example_main_def built ctx1 act handle down main_work_cases [OF assms(1)] container_port_def Let_def
          split: sum.split option.split)
qed

section \<open>Properties\<close>



text \<open>A concrete instance: \<open>format\<close> of these formats, grpc's server as the number 7.\<close>

definition demo_format :: fmt_api where
  "demo_format p xs =
     (if p = ''({}, {}, {}), {}'' @ [CHR 0x0A]
      then ''('' @ xs ! 0 @ '', '' @ xs ! 1 @ '', '' @ xs ! 2 @ ''), '' @ xs ! 3 @ [CHR 0x0A]
      else takeWhile (\<lambda>x. x \<noteq> CHR 0x7B) p @ hd xs @ [CHR 0x0A])"

definition demo_text :: "int \<Rightarrow> string" where
  "demo_text i =
     (case dropWhile (\<lambda>c. c = CHR ''0'') (map (\<lambda>k. ''0123456789'' ! nat (i div 10 ^ k mod 10)) [4, 3, 2, 1, 0]) of
        [] \<Rightarrow> ''0''
      | c # cs \<Rightarrow> c # cs)"

lemma demo_fmt_laws: "fmt_laws demo_format demo_text"
  by (simp add: fmt_laws_def demo_format_def demo_text_def)

type_synonym ev_queue = "bool \<times> (nat, nat) cq_event list"

abbreviation demo_builder :: "(nat, ev_queue) build_api" where
  "demo_builder \<equiv> \<lparr>add_completion_queue = (\<lambda>k. (False, [])), build_and_start = (\<lambda>a cqs. (Some 7, 8080))\<rparr>"

text \<open>Events whose completion, and thunks whose execution, leave the context alone.\<close>

abbreviation quiet_user :: "(nat, nat, nat, ev_queue) user_code" where
  "quiet_user \<equiv> \<lparr>complete_event = (\<lambda>e ok c. c), run_thunk = (\<lambda>th c. c)\<rparr>"

abbreviation demo_main :: "(nat \<Rightarrow> string \<Rightarrow> (unit, string) completion) \<Rightarrow> ((nat, nat, ev_queue) exec_context, nat list) main_end" where
  "demo_main say_hello \<equiv> example_main fifo_cq (False, []) quiet_user demo_builder (\<lambda>p. []) (\<lambda>srv w. w @ [srv]) (\<lambda>cq w. w)
     eager_stdexec demo_format demo_text say_hello id (\<lambda>t. True) []"

lemma undisturbed_id: "undisturbed id"
  by (simp add: undisturbed_def)



end
