(* ===== verification/Run_Loop.thy ===== *)
theory Run_Loop
  imports Prelude
begin

text \<open>
  \<open>examples/from-scratch.cpp\<close>: a small library of senders (\<open>just\<close>, \<open>then\<close>, \<open>sync_wait\<close>) and
  the execution context \<open>run_loop\<close>, an intrusive circular list of tasks.

  A receiver is what its three functions do to a state; a sender is what \<open>connect\<close> and
  \<open>start\<close> do for a receiver. The tasks of the loop are addresses with their \<open>next\<close> pointers
  in a store, address 0 being the loop's own \<open>head\<close>; the store knows which tasks are alive.
\<close>

section \<open>Senders and receivers\<close>

text \<open>What a call does to a state of type \<open>'w\<close>; it may throw.\<close>

type_synonym 'w act = "'w \<Rightarrow> exn option \<times> 'w"

record ('v, 'w) rcvr =
  on_value :: "'v \<Rightarrow> 'w act"
  on_error :: "exn \<Rightarrow> 'w act"
  on_stopped :: "'w act"

type_synonym ('v, 'w) sender = "('v, 'w) rcvr \<Rightarrow> 'w act"

definition just :: "'v \<Rightarrow> ('v, 'w) sender" where
  "just v receiver = on_value receiver v"

definition then_receiver :: "('b, 'w) rcvr \<Rightarrow> ('a \<Rightarrow> exn + 'b) \<Rightarrow> ('a, 'w) rcvr" where
  "then_receiver receiver function =
     \<lparr>on_value = (\<lambda>val w. case function val of
          Inl e \<Rightarrow> (Some e, w) | Inr v \<Rightarrow> on_value receiver v w),
      on_error = on_error receiver, on_stopped = on_stopped receiver\<rparr>"

definition then_sender :: "('a, 'w) sender \<Rightarrow> ('a \<Rightarrow> exn + 'b) \<Rightarrow> ('b, 'w) sender" where
  "then_sender sender function receiver = sender (then_receiver receiver function)"

record 'v control_block =
  cb_ex :: "exn option"
  cb_is_done :: bool
  cb_value :: "'v option"

definition empty_control :: "'v control_block" where
  "empty_control = \<lparr>cb_ex = None, cb_is_done = False, cb_value = None\<rparr>"

definition sync_wait_receiver :: "('v, 'v control_block) rcvr" where
  "sync_wait_receiver =
     \<lparr>on_value = (\<lambda>val c. (None, c\<lparr>cb_value := Some val, cb_is_done := True\<rparr>)),
      on_error = (\<lambda>ex c. (None, c\<lparr>cb_ex := Some ex, cb_is_done := True\<rparr>)),
      on_stopped = (\<lambda>c. (None, c\<lparr>cb_is_done := True\<rparr>))\<rparr>"

datatype 'v wait_result = WaitReturned "'v option" | WaitThrew exn | WaitsForever

text \<open>\<open>sync_wait\<close>; \<open>others\<close> is what other threads do to the control block during the wait.\<close>

definition sync_wait ::
  "('v, 'v control_block) sender \<Rightarrow> ('v control_block \<Rightarrow> 'v control_block) \<Rightarrow> 'v wait_result" where
  "sync_wait sender others =
     (case sender sync_wait_receiver empty_control of
        (Some e, c) \<Rightarrow> WaitThrew e
      | (None, c) \<Rightarrow>
          (let c' = (if cb_is_done c then c else others c)
           in if \<not> cb_is_done c' then WaitsForever
              else case cb_ex c' of Some ex \<Rightarrow> WaitThrew ex | None \<Rightarrow> WaitReturned (cb_value c')))"

section \<open>run_loop\<close>

definition head :: nat where
  "head = 0"

text \<open>A task is known by its address; \<open>rl_execute\<close> is its \<open>execute\<close>.\<close>

record 'w run_loop =
  rl_next :: "nat \<Rightarrow> nat"
  rl_tail :: nat
  rl_finishing :: bool
  rl_live :: "nat set"
  rl_execute :: "nat \<Rightarrow> 'w act"

definition new_loop :: "'w run_loop" where
  "new_loop = \<lparr>rl_next = id, rl_tail = head, rl_finishing = False, rl_live = {head},
     rl_execute = (\<lambda>t w. (None, w))\<rparr>"

text \<open>Making an operation state (\<open>connect\<close>) and destroying it.\<close>

definition new_operation :: "nat \<Rightarrow> 'w act \<Rightarrow> 'w run_loop \<Rightarrow> 'w run_loop" where
  "new_operation op body s =
     s\<lparr>rl_next := (rl_next s)(op := op), rl_live := insert op (rl_live s),
       rl_execute := (rl_execute s)(op := body)\<rparr>"

definition destroy_operation :: "nat \<Rightarrow> 'w run_loop \<Rightarrow> 'w run_loop" where
  "destroy_operation op s = s\<lparr>rl_live := rl_live s - {op}\<rparr>"

text \<open>\<open>push_back\<close> writes through \<open>op\<close> and \<open>tail\<close>; \<open>None\<close> if one of them is dead.\<close>

definition push_back :: "nat \<Rightarrow> 'w run_loop \<Rightarrow> 'w run_loop option" where
  "push_back op s =
     (if op \<in> rl_live s \<and> rl_tail s \<in> rl_live s
      then Some (s\<lparr>rl_next := (rl_next s)(op := head, rl_tail s := op), rl_tail := op\<rparr>)
      else None)"

datatype 'w pop_result = PopBlocks | PopNull | PopTask nat 'w | PopDangling

definition pop_front :: "'w run_loop \<Rightarrow> 'w run_loop pop_result" where
  "pop_front s =
     (if rl_next s head = head \<and> \<not> rl_finishing s then PopBlocks
      else if rl_next s head = head then PopNull
      else if rl_next s head \<notin> rl_live s then PopDangling
      else PopTask (rl_next s head) (s\<lparr>rl_next := (rl_next s)(head := rl_next s (rl_next s head))\<rparr>))"

definition finish_loop :: "'w run_loop \<Rightarrow> 'w run_loop" where
  "finish_loop s = s\<lparr>rl_finishing := True\<rparr>"

text \<open>
  \<open>run\<close>: \<open>None\<close> if it never ends. An exception of a task leaves \<open>run\<close>; a dead task ends the
  model.
\<close>

datatype 'w run_result =
    LoopReturned "nat list" 'w | LoopBlocked "nat list" 'w | LoopThrew "nat list" exn 'w | LoopDangling

partial_function (option) run_from ::
  "nat list \<Rightarrow> 'w run_loop \<Rightarrow> 'w \<Rightarrow> 'w run_result option" where
  "run_from past s w =
     (case pop_front s of
        PopBlocks \<Rightarrow> Some (LoopBlocked past w)
      | PopNull \<Rightarrow> Some (LoopReturned past w)
      | PopDangling \<Rightarrow> Some LoopDangling
      | PopTask op s' \<Rightarrow>
          (case rl_execute s op w of
             (Some e, w') \<Rightarrow> Some (LoopThrew (past @ [op]) e w')
           | (None, w') \<Rightarrow> run_from (past @ [op]) s' w'))"

definition run :: "'w run_loop \<Rightarrow> 'w \<Rightarrow> 'w run_result option" where
  "run s w = run_from [] s w"

text \<open>
  The scheduler of the loop: \<open>connect\<close> makes an operation at an address of its own, whose
  \<open>execute\<close> sets the value \<open>none\<close> on the receiver; \<open>start\<close> pushes it.
\<close>

definition connect_loop :: "nat \<Rightarrow> (unit, 'w) rcvr \<Rightarrow> 'w run_loop \<Rightarrow> 'w run_loop" where
  "connect_loop op receiver s = new_operation op (on_value receiver ()) s"

definition start_operation :: "nat \<Rightarrow> 'w run_loop \<Rightarrow> 'w run_loop option" where
  "start_operation op s = push_back op s"

section \<open>The examples\<close>

text \<open>What a receiver that prints has done so far.\<close>

datatype 'v printed = Printed 'v | ProgramTerminated

definition printing_receiver :: "('v, 'v printed list) rcvr" where
  "printing_receiver =
     \<lparr>on_value = (\<lambda>val w. (None, w @ [Printed val])),
      on_error = (\<lambda>err w. (None, w @ [ProgramTerminated])),
      on_stopped = (\<lambda>w. (None, w @ [ProgramTerminated]))\<rparr>"

definition add_one :: "int \<Rightarrow> exn + int" where
  "add_one i = Inr (i + 1)"

definition example_1_inline :: "int printed list \<times> int wait_result" where
  "example_1_inline =
     (let s1 = just 42;
          w1 = snd (s1 printing_receiver []);
          w2 = snd (then_sender s1 add_one printing_receiver w1)
      in (w2, sync_wait (then_sender (just 42) add_one) id))"

text \<open>Two operations, at the addresses 1 and 2, with \<open>then\<close> on the scheduler's sender.\<close>

definition example_2_scheduler :: "int printed list run_result option" where
  "example_2_scheduler =
     (let l1 = connect_loop 1 (then_receiver printing_receiver (\<lambda>u. Inr 42)) new_loop
      in case start_operation 1 l1 of
           None \<Rightarrow> None
         | Some l2 \<Rightarrow>
             (case start_operation 2 (connect_loop 2 (then_receiver printing_receiver (\<lambda>u. Inr 43)) l2) of
                None \<Rightarrow> None
              | Some l3 \<Rightarrow> run (finish_loop l3) []))"

text \<open>
  The state of the two threads of example 3 is the control block of \<open>sync_wait\<close>; the thread of
  \<open>thread_context\<close> runs the loop during the wait.
\<close>

definition example_3_threaded_execution :: "int control_block run_result option" where
  "example_3_threaded_execution =
     (case start_operation 1 (connect_loop 1
             (then_receiver (then_receiver sync_wait_receiver add_one) (\<lambda>u. Inr 42)) new_loop) of
        None \<Rightarrow> None
      | Some loop \<Rightarrow> run (finish_loop loop) empty_control)"

section \<open>Lemmas\<close>

fun push_all :: "nat list \<Rightarrow> 'w run_loop \<Rightarrow> 'w run_loop option" where
  "push_all [] s = Some s"
| "push_all (op # ops) s = (case push_back op s of None \<Rightarrow> None | Some s' \<Rightarrow> push_all ops s')"

text \<open>The list that hangs off a task, closed by the head.\<close>

fun chain :: "(nat \<Rightarrow> nat) \<Rightarrow> nat \<Rightarrow> nat list \<Rightarrow> bool" where
  "chain nxt a [] \<longleftrightarrow> nxt a = head"
| "chain nxt a (x # xs) \<longleftrightarrow> nxt a = x \<and> chain nxt x xs"

lemma chain_cong:
  "\<forall>x \<in> insert a (set xs). nxt x = nxt' x \<Longrightarrow> chain nxt a xs = chain nxt' a xs"
  by (induction xs arbitrary: a) auto

lemma chain_append:
  "chain nxt a (xs @ [y]) \<longleftrightarrow>
     (\<exists>l. l = last (a # xs) \<and> nxt l = y \<and> nxt y = head \<and> chain (nxt(l := head)) a xs)"
  if "distinct (a # xs @ [y])"
  using that
proof (induction xs arbitrary: a)
  case Nil
  then show ?case by auto
next
  case (Cons x xs)
  have ne: "a \<noteq> last (x # xs)" using Cons.prems by (metis distinct.simps(2) last_in_set list.distinct(1) append_Cons list.set_intros(2) Un_iff set_append)
  show ?case using Cons.IH [of x] Cons.prems ne by auto
qed

text \<open>The loop as a queue: the waiting tasks, all alive, and a tail that is the last of them.\<close>

definition holds :: "nat list \<Rightarrow> 'w run_loop \<Rightarrow> bool" where
  "holds xs s \<longleftrightarrow> chain (rl_next s) head xs \<and> distinct (head # xs) \<and>
     rl_tail s = last (head # xs) \<and> set (head # xs) \<subseteq> rl_live s"

lemma chain_last: "chain nxt a xs \<Longrightarrow> nxt (last (a # xs)) = head"
  by (induction xs arbitrary: a) auto

lemma holds_push:
  assumes "holds xs s" and "op \<in> rl_live s" and "op \<notin> set (head # xs)"
  shows "\<exists>s'. push_back op s = Some s' \<and> holds (xs @ [op]) s' \<and> rl_live s' = rl_live s \<and>
    rl_execute s' = rl_execute s \<and> rl_finishing s' = rl_finishing s"
proof -
  let ?l = "last (head # xs)"
  let ?nxt = "(rl_next s)(op := head, ?l := op)"
  have l: "?l \<in> set (head # xs)" "rl_tail s = ?l" using assms(1) last_in_set [of "head # xs"] by (simp_all add: holds_def)
  then have ne: "op \<noteq> ?l" using assms(3) by auto
  have dist: "distinct (head # xs @ [op])" using assms(1,3) by (auto simp: holds_def)
  have end1: "rl_next s ?l = head" using assms(1) chain_last by (auto simp: holds_def)
  have "chain (?nxt(?l := head)) head xs = chain (rl_next s) head xs"
    by (rule chain_cong) (use assms(3) end1 in auto)
  then have "chain ?nxt head (xs @ [op])"
    unfolding chain_append [OF dist] using assms(1) ne by (auto simp: holds_def)
  then show ?thesis
    using assms dist l by (auto simp: push_back_def holds_def)
qed

lemma chain_pop:
  assumes "chain nxt head (x # xs)" and "distinct (head # x # xs)"
  shows "chain (nxt(head := nxt x)) head xs"
proof (cases xs)
  case Nil
  with assms show ?thesis by simp
next
  case (Cons y ys)
  have "chain (nxt(head := nxt x)) y ys = chain nxt y ys"
    by (rule chain_cong) (use assms(2) Cons in auto)
  with assms Cons show ?thesis by simp
qed

text \<open>The reference: run the bodies of a list of tasks, up to the first that throws.\<close>

fun run_bodies :: "(nat \<times> 'w act) list \<Rightarrow> nat list \<Rightarrow> 'w \<Rightarrow> 'w run_result" where
  "run_bodies [] past w = LoopReturned past w"
| "run_bodies ((op, body) # tasks) past w =
     (case body w of
        (Some e, w') \<Rightarrow> LoopThrew (past @ [op]) e w'
      | (None, w') \<Rightarrow> run_bodies tasks (past @ [op]) w')"

lemma run_from_chain:
  assumes "chain (rl_next s) head xs" and "distinct (head # xs)" and "set xs \<subseteq> rl_live s" and "rl_finishing s"
  shows "run_from past s w = Some (run_bodies (map (\<lambda>op. (op, rl_execute s op)) xs) past w)"
  using assms
proof (induction xs arbitrary: s past w)
  case Nil
  then show ?case by (subst run_from.simps) (simp add: pop_front_def)
next
  case (Cons x xs)
  let ?s = "s\<lparr>rl_next := (rl_next s)(head := rl_next s x)\<rparr>"
  from Cons.prems have pop: "pop_front s = PopTask x ?s" by (auto simp: pop_front_def)
  have rest: "chain (rl_next ?s) head xs" using chain_pop [OF Cons.prems(1,2)] by simp
  have "run_from (past @ [x]) ?s w' = Some (run_bodies (map (\<lambda>op. (op, rl_execute ?s op)) xs) (past @ [x]) w')" for w'
    by (rule Cons.IH [OF rest]) (use Cons.prems in auto)
  then show ?case
    by (subst run_from.simps) (auto simp: pop split: prod.split option.split)
qed

lemma push_all_holds:
  assumes "holds xs s" and "distinct (head # xs @ ops)" and "set ops \<subseteq> rl_live s"
  shows "\<exists>s'. push_all ops s = Some s' \<and> holds (xs @ ops) s' \<and> rl_execute s' = rl_execute s"
  using assms
proof (induction ops arbitrary: xs s)
  case Nil
  then show ?case by simp
next
  case (Cons op ops)
  from holds_push [OF Cons.prems(1), of op] Cons.prems obtain s1 where
    s1: "push_back op s = Some s1" "holds (xs @ [op]) s1" "rl_live s1 = rl_live s" "rl_execute s1 = rl_execute s"
    by auto
  from Cons.IH [OF s1(2)] Cons.prems s1(3) obtain s' where
    "push_all ops s1 = Some s'" "holds (xs @ op # ops) s'" "rl_execute s' = rl_execute s1" by auto
  with s1 show ?case by auto
qed

definition new_operations :: "(nat \<times> 'w act) list \<Rightarrow> 'w run_loop \<Rightarrow> 'w run_loop" where
  "new_operations tasks s = fold (\<lambda>(op, body). new_operation op body) tasks s"

lemma holds_new_operations:
  "holds [] s \<Longrightarrow> head \<notin> fst ` set tasks \<Longrightarrow>
     holds [] (new_operations tasks s) \<and> rl_live (new_operations tasks s) = fst ` set tasks \<union> rl_live s"
proof (induction tasks arbitrary: s)
  case Nil
  then show ?case by (simp add: new_operations_def)
next
  case (Cons t tasks)
  obtain op body where t: "t = (op, body)" by fastforce
  have "holds [] (new_operation op body s)"
    using Cons.prems t by (auto simp: holds_def new_operation_def)
  from Cons.IH [OF this] Cons.prems t show ?case
    by (auto simp: new_operations_def new_operation_def)
qed

lemma new_operations_execute:
  "distinct (map fst tasks) \<Longrightarrow>
     rl_execute (new_operations tasks s) op = (case map_of tasks op of Some body \<Rightarrow> body | None \<Rightarrow> rl_execute s op)"
proof (induction tasks arbitrary: s)
  case Nil
  then show ?case by (simp add: new_operations_def)
next
  case (Cons t tasks)
  obtain a body where t: "t = (a, body)" by fastforce
  have "map_of tasks a = None" using Cons.prems t by (simp add: map_of_eq_None_iff)
  moreover have "rl_execute (new_operation a body s) op = (if op = a then body else rl_execute s op)"
    by (simp add: new_operation_def)
  ultimately show ?case
    using Cons.IH [of "new_operation a body s"] Cons.prems t by (auto simp: new_operations_def split: option.split)
qed

lemma holds_new_loop: "holds [] new_loop"
  by (simp add: holds_def new_loop_def)

lemma new_operations_bodies:
  assumes "distinct (map fst tasks)"
  shows "map (\<lambda>op. (op, rl_execute (new_operations tasks s) op)) (map fst tasks) = tasks"
  using assms by (auto simp: new_operations_execute comp_def intro!: map_idI)

text \<open>A pipeline of \<open>then\<close>s seen from the receiver.\<close>

definition then_chain :: "('v \<Rightarrow> exn + 'v) list \<Rightarrow> ('v, 'w) rcvr \<Rightarrow> ('v, 'w) rcvr" where
  "then_chain fs receiver = foldr (\<lambda>f r. then_receiver r f) fs receiver"

definition compose_all :: "('v \<Rightarrow> exn + 'v) list \<Rightarrow> exn + 'v \<Rightarrow> exn + 'v" where
  "compose_all fs r = fold (\<lambda>f r. case r of Inl e \<Rightarrow> Inl e | Inr x \<Rightarrow> f x) fs r"

lemma compose_all_throws: "compose_all fs (Inl e) = Inl e"
  by (induction fs) (simp_all add: compose_all_def)

lemma on_value_then_chain:
  "on_value (then_chain fs receiver) v w =
     (case compose_all fs (Inr v) of Inl e \<Rightarrow> (Some e, w) | Inr x \<Rightarrow> on_value receiver x w)"
proof (induction fs arbitrary: v)
  case Nil
  then show ?case by (simp add: then_chain_def compose_all_def)
next
  case (Cons f fs)
  have step: "then_chain (f # fs) receiver = then_receiver (then_chain fs receiver) f"
    and rest: "compose_all (f # fs) (Inr v) = compose_all fs (f v)"
    by (simp_all add: then_chain_def compose_all_def)
  show ?case
    using Cons by (cases "f v") (simp_all add: step rest then_receiver_def compose_all_throws)
qed

lemma fold_then_sender: "fold (\<lambda>f snd. then_sender snd f) fs snd0 receiver = snd0 (then_chain fs receiver)"
  by (induction fs arbitrary: snd0) (simp_all add: then_chain_def then_sender_def)

section \<open>Properties\<close>

text \<open>
  C38. Operations that are started on a new loop before it runs are executed once each, in
  the order of their start, and after \<open>finish\<close> the call of \<open>run\<close> ends: it returns when all
  have run, or with the exception of the first that throws.
\<close>

theorem run_loop_fifo:
  assumes "distinct (map fst tasks)" and "head \<notin> fst ` set tasks"
  shows "\<exists>s. push_all (map fst tasks) (new_operations tasks new_loop) = Some s \<and>
    run (finish_loop s) w = Some (run_bodies tasks [] w)"
proof -
  let ?s0 = "new_operations tasks new_loop"
  have h0: "holds [] ?s0" and live: "fst ` set tasks \<subseteq> rl_live ?s0"
    using holds_new_operations [OF holds_new_loop assms(2)] by auto
  have "distinct (head # [] @ map fst tasks)" using assms by auto
  from push_all_holds [OF h0 this] live obtain s where
    s: "push_all (map fst tasks) ?s0 = Some s" "holds (map fst tasks) s" "rl_execute s = rl_execute ?s0"
    by auto
  have "run (finish_loop s) w =
      Some (run_bodies (map (\<lambda>op. (op, rl_execute (finish_loop s) op)) (map fst tasks)) [] w)"
    unfolding run_def by (rule run_from_chain) (use s(2) in \<open>auto simp: finish_loop_def holds_def\<close>)
  also have "rl_execute (finish_loop s) = rl_execute ?s0" by (simp add: finish_loop_def s(3))
  also have "map (\<lambda>op. (op, rl_execute ?s0 op)) (map fst tasks) = tasks"
    by (rule new_operations_bodies [OF assms(1)])
  finally show ?thesis using s(1) by blast
qed

lemma run_loop_fifo_witness:
  "\<exists>s. push_all [4, 5] (new_operations [(4, \<lambda>w. (None, w @ [CHR ''a''])), (5, \<lambda>w. (None, w @ [CHR ''b'']))] new_loop) = Some s \<and>
     run (finish_loop s) [] = Some (LoopReturned [4, 5] [CHR ''a'', CHR ''b''])"
  using run_loop_fifo [of "[(4, \<lambda>w. (None, w @ [CHR ''a''])), (5, \<lambda>w. (None, w @ [CHR ''b'']))]" "[]"]
  by (simp add: head_def)

text \<open>
  A loop that was emptied once loses what is pushed next: \<open>pop_front\<close> does not reset
  \<open>tail\<close>, so the next \<open>push_back\<close> links the new task behind the one that has already run, where
  nothing finds it; and if that one was destroyed, it writes to freed memory.
\<close>

theorem run_loop_loses_task:
  assumes "holds [a] s" and "pop_front s = PopTask x s'" and "b \<in> rl_live s" and "b \<noteq> head" and "b \<noteq> a"
  shows "x = a \<and>
    (\<exists>s''. push_back b s' = Some s'' \<and> run (finish_loop s'') w = Some (LoopReturned [] w) \<and>
       (\<not> rl_finishing s \<longrightarrow> pop_front s'' = PopBlocks)) \<and>
    push_back b (destroy_operation a s') = None"
proof -
  from assms(1) have a: "rl_next s head = a" "rl_next s a = head" "rl_tail s = a" "a \<noteq> head" "a \<in> rl_live s"
    by (auto simp: holds_def)
  with assms(2) have s': "x = a" "s' = s\<lparr>rl_next := (rl_next s)(head := head)\<rparr>"
    by (auto simp: pop_front_def split: if_splits)
  let ?s = "s'\<lparr>rl_next := (rl_next s')(b := head, a := b), rl_tail := b\<rparr>"
  have push: "push_back b s' = Some ?s" using assms(3) a s'(2) by (simp add: push_back_def)
  have empty: "rl_next ?s head = head" using a(4) assms(4) s'(2) by simp
  then have "run (finish_loop ?s) w = Some (LoopReturned [] w)"
    unfolding run_def by (subst run_from.simps) (simp add: pop_front_def finish_loop_def)
  moreover have "\<not> rl_finishing s \<longrightarrow> pop_front ?s = PopBlocks"
    using empty s'(2) by (simp add: pop_front_def)
  moreover have "push_back b (destroy_operation a s') = None"
    using a(3) s'(2) by (simp add: push_back_def destroy_operation_def)
  ultimately show ?thesis using push s'(1) by blast
qed

lemma run_loop_loses_task_witness:
  "\<exists>(s :: nat run_loop) s' s''. holds [4] s \<and> pop_front s = PopTask 4 s' \<and>
     push_back 5 s' = Some s'' \<and> pop_front s'' = PopBlocks"
proof -
  let ?s0 = "new_operations [(4, \<lambda>w. (None, w)), (5, \<lambda>w. (None, w))] new_loop :: nat run_loop"
  have h: "holds [] ?s0 \<and> rl_live ?s0 = {4, 5} \<union> rl_live (new_loop :: nat run_loop)"
    using holds_new_operations [OF holds_new_loop, of "[(4, \<lambda>w. (None, w)), (5, \<lambda>w. (None, w))]"]
    by (auto simp: head_def)
  have "rl_finishing ?s0 = False" by (simp add: new_operations_def new_operation_def new_loop_def)
  moreover have "\<exists>s. push_back 4 ?s0 = Some s \<and> holds ([] @ [4]) s \<and> rl_live s = rl_live ?s0 \<and>
      rl_execute s = rl_execute ?s0 \<and> rl_finishing s = rl_finishing ?s0"
    by (rule holds_push) (use h in \<open>auto simp: head_def\<close>)
  ultimately obtain s :: "nat run_loop" where s: "holds [4] s" "5 \<in> rl_live s" "\<not> rl_finishing s"
    using h by auto
  then obtain s' where pop: "pop_front s = PopTask 4 s'" by (auto simp: holds_def pop_front_def)
  from run_loop_loses_task [OF s(1) pop, of 5 0] s obtain s'' where
    "push_back 5 s' = Some s''" "pop_front s'' = PopBlocks" by (auto simp: head_def)
  with s(1) pop show ?thesis by blast
qed

text \<open>
  \<open>sync_wait\<close> of a pipeline of \<open>then\<close>s on \<open>just\<close> computes the functions in order on the
  value and returns the result, or throws what the first function that throws has thrown;
  it never waits.
\<close>

theorem sync_wait_pipeline:
  "sync_wait (fold (\<lambda>f snd. then_sender snd f) fs (just v)) others =
     (case fold (\<lambda>f r. case r of Inl e \<Rightarrow> Inl e | Inr x \<Rightarrow> f x) fs (Inr v) of
        Inl e \<Rightarrow> WaitThrew e
      | Inr x \<Rightarrow> WaitReturned (Some x))"
  unfolding compose_all_def [symmetric]
  by (simp add: sync_wait_def fold_then_sender just_def on_value_then_chain sync_wait_receiver_def
      empty_control_def Let_def split: sum.split)

text \<open>
  A pipeline that starts on the loop of another thread: when that thread runs the loop
  the control block of the waiting thread gets the result. But if one of the functions throws,
  the exception leaves \<open>run\<close> and with it the thread function, and the control block stays as
  it was, so that the waiting thread would wait for ever.
\<close>

theorem threaded_pipeline:
  assumes "op \<noteq> head"
  shows "\<exists>s. start_operation op (connect_loop op
      (then_receiver (foldr (\<lambda>f r. then_receiver r f) fs sync_wait_receiver) first) new_loop) = Some s \<and>
    run (finish_loop s) empty_control = Some
      (case (case first () of Inl e \<Rightarrow> Inl e
             | Inr v \<Rightarrow> fold (\<lambda>f r. case r of Inl e \<Rightarrow> Inl e | Inr x \<Rightarrow> f x) fs (Inr v)) of
         Inl e \<Rightarrow> LoopThrew [op] e empty_control
       | Inr x \<Rightarrow> LoopReturned [op] (empty_control\<lparr>cb_value := Some x, cb_is_done := True\<rparr>))"
proof -
  let ?rcv = "then_receiver (then_chain fs sync_wait_receiver) first"
  let ?tasks = "[(op, on_value ?rcv ())]"
  have new: "new_operations ?tasks new_loop = connect_loop op ?rcv new_loop"
    by (simp add: new_operations_def connect_loop_def)
  from run_loop_fifo [of ?tasks empty_control] assms obtain s where
    s: "start_operation op (connect_loop op ?rcv new_loop) = Some s"
      "run (finish_loop s) empty_control = Some (run_bodies ?tasks [] empty_control)"
    by (auto simp: new start_operation_def split: option.splits)
  then show ?thesis
    unfolding then_chain_def [symmetric] compose_all_def [symmetric]
    by (auto simp: then_receiver_def on_value_then_chain sync_wait_receiver_def
        split: sum.split)
qed

lemma threaded_pipeline_witness:
  "\<exists>s. start_operation 1 (connect_loop 1
      (then_receiver (foldr (\<lambda>f r. then_receiver r f) [add_one] sync_wait_receiver) (\<lambda>u. Inr 42)) new_loop) = Some s \<and>
     run (finish_loop s) empty_control =
       Some (LoopReturned [1] (empty_control\<lparr>cb_value := Some 43, cb_is_done := True\<rparr>))"
  using threaded_pipeline [of 1 "[add_one]" "\<lambda>u. Inr 42"] by (simp add: head_def add_one_def)

text \<open>
  The three examples do what they say: the first prints 42 and 43 and gets 43, the second
  runs its two operations in order, prints 42 and 43 and returns, and the third leaves 43 in
  the control block of the waiting thread.
\<close>

theorem examples_results:
  "example_1_inline = ([Printed 42, Printed 43], WaitReturned (Some 43)) \<and>
   example_2_scheduler = Some (LoopReturned [1, 2] [Printed 42, Printed 43]) \<and>
   (\<exists>c. example_3_threaded_execution = Some (LoopReturned [1] c) \<and> cb_is_done c \<and> cb_value c = Some 43 \<and> cb_ex c = None)"
proof (intro conjI)
  show "example_1_inline = ([Printed 42, Printed 43], WaitReturned (Some 43))"
    by (simp add: example_1_inline_def just_def then_sender_def then_receiver_def printing_receiver_def
        add_one_def sync_wait_def sync_wait_receiver_def empty_control_def Let_def)
  show "example_2_scheduler = Some (LoopReturned [1, 2] [Printed 42, Printed 43])"
    by (simp add: example_2_scheduler_def connect_loop_def start_operation_def new_operation_def
        push_back_def new_loop_def finish_loop_def run_def run_from.simps pop_front_def head_def
        then_receiver_def printing_receiver_def Let_def)
  show "\<exists>c. example_3_threaded_execution = Some (LoopReturned [1] c) \<and> cb_is_done c \<and> cb_value c = Some 43 \<and> cb_ex c = None"
    by (simp add: example_3_threaded_execution_def connect_loop_def start_operation_def new_operation_def
        push_back_def new_loop_def finish_loop_def run_def run_from.simps pop_front_def head_def
        then_receiver_def sync_wait_receiver_def add_one_def empty_control_def Let_def)
qed

end
