(* ===== verification/Spec2Isabelle.thy ===== *)
theory Spec2Isabelle
  imports Rpc_Status Deadline Task_Queue_Order Task_Queue_Drain Execution_Objects Execution_Schedule
    Memory_Order Server_Shutdown Greeting_Program Run_Loop
begin

text \<open>
  \<^bold>\<open>The program.\<close> \<open>sgrpc\<close> (under \<open>src/src/sgrpc\<close>) runs asynchronous grpc calls as senders in the
  sense of P2300. An \<open>ExecutionContext\<close> owns worker threads, grpc completion queues and a task
  queue of thunks. Workers poll the completion queues, complete the events they yield (alarms,
  client rpcs in flight, server handlers), run thunks of the task queue, and stop in an orderly
  way. A \<open>Scheduler\<close> starts computations on a context, a \<open>ClientRpcStub\<close> makes senders whose
  operation posts an rpc to a context, a \<open>GenericServerContainer\<close> builds a grpc server, wires
  its handlers to its completion queues and attaches it to a context. \<open>src/src/greeting-grpc\<close>
  and \<open>main.cpp\<close> are a service on top of it, \<open>src/examples/from-scratch.cpp\<close> a small library
  of senders of its own. The definitions are shallow translations of the C++ code.

  \<^bold>\<open>The theories\<close>, from the bottom up, with the code they model.

  \<^item> \<open>Prelude\<close>: machine integers as words (\<open>unsigned\<close> and \<open>uint32_t\<close> 32 bits, \<open>size_t\<close> 64,
    \<open>uint16_t\<close> 16), exceptions as values, reachability, and the two contracts of concurrent
    components: the locales \<open>invariant_system\<close> (a predicate that holds initially and is kept
    by every step) and \<open>forward_simulation\<close> (every concrete step is an abstract one or none).
  \<^item> \<open>Rpc_Status\<close>: \<open>rpc_status_code.hpp\<close>, \<open>rpc_status.hpp\<close>, \<open>detail/utils.hpp\<close> (both
    translations), \<open>detail/rpc_status_code_category.hpp\<close>. An enumeration value is the
    enumerator or any other \<open>int\<close>; the lifetimes of category objects are explicit.
  \<^item> \<open>Deadline\<close>: \<open>duration_to_grp_timespec\<close> of \<open>detail/utils.hpp\<close> on 64-bit counts.
  \<^item> \<open>Optimistic_Queue\<close>: \<open>OptimisiticLockingQueue\<close> of \<open>detail/atomic_task_stealing_queue.hpp\<close>
    for any element type, and the locales \<open>task_bag\<close> and \<open>fifo_queue\<close>, both interpreted on it.
  \<^item> \<open>Task_Queue\<close>: \<open>AtomicTaskStealingQueue\<close> as one thread runs it, with its 32-bit indices.
    \<open>push\<close> and \<open>stop_and_eject\<close> may wait for ever, so they are partial functions and their
    return is a theorem; interprets \<open>task_bag\<close>. \<open>Task_Queue_Order\<close>: its order; interprets
    \<open>fifo_queue\<close> through the round-robin reading of the queues.
  \<^item> \<open>Task_Queue_Threads\<close>: the same operations of any number of threads, one access to a shared
    variable per step; \<open>run_pc\<close> is the step of one thread and \<open>qs_inv\<close> the invariant (mutexes
    and their owners, the push counter, the balance of thunks). \<open>Task_Queue_Drain\<close>: mutual
    exclusion, freedom from deadlock, conservation, completeness of \<open>stop_and_eject\<close>.
  \<^item> \<open>Execution_Context\<close>: \<open>execution_context.hpp\<close> and \<open>.cpp\<close>, the state machine, both
    constructors, \<open>attach_server\<close>, the four overloads of \<open>post\<close>, \<open>run_while\<close>, the parts of \<open>stop\<close>.
  \<^item> \<open>Execution_Worker\<close>: \<open>execute_cq_\<close>, the rounds of \<open>run_one_thread_\<close>, \<open>stop\<close> as one thread
    calls it. \<open>Execution_Stop\<close>: the whole thread function and its termination, and what
    \<open>stop\<close> does from outside and from a worker. \<open>Execution_Destroy\<close>: the destructor.
  \<^item> \<open>Execution_Lifecycle\<close>: the calls of a context by any number of threads, as the step relation
    \<open>estep\<close>; interprets both locales of the prelude, the simulation with a gate that is shut once.
  \<^item> \<open>Worker_Pool\<close>: all workers and posting threads on the task queue of a context, around
    the interleaved queue operations; it is a forward simulation of \<open>Task_Queue_Threads\<close>, so
    that the lemmas of the queue hold inside it.
  \<^item> \<open>Execution_Rounds\<close>: the rounds of the workers over the completion queues, one call of a queue
    per step, and the locale \<open>completion_queue\<close>, the contract of grpc's queues, interpreted on
    the queue of \<open>Execution_Context\<close>. \<open>Execution_System\<close>: the callers, the pool and the rounds
    together on the same threads, a forward simulation of the first two, with the starting and
    joining of the workers. \<open>Execution_Events\<close>: the contents of the queues in that system and
    its invariant, as a sublocale of \<open>invariant_system\<close> for every queue of the contract.
    \<open>Execution_Demo\<close>: the properties of the whole and a concrete run of it.
  \<^item> \<open>Memory_Order\<close>: \<open>state_\<close> and \<open>within_cq_post_\<close> as histories of messages that loads may read
    stale, with acquire and release as the code names them.
  \<^item> \<open>Completion_Events\<close>: \<open>detail/alarm.hpp\<close>, \<open>detail/inflight_rpc.hpp\<close>,
    \<open>server_rpc_handler.hpp\<close>: objects on a heap whose addresses are the tags of grpc's
    outstanding operations; \<open>owned\<close> says who may still be called back.
  \<^item> \<open>Posted_Objects\<close>: what becomes of one posted alarm or rpc among the others.
    \<open>Execution_Objects\<close>: the whole context together with its objects, a forward simulation of
    \<open>Execution_System\<close> and an \<open>invariant_system\<close>; every run of the context is such a run.
  \<^item> \<open>Server_Shutdown\<close>: a server's queue and handlers while the server and the context stop.
  \<^item> \<open>Scheduler\<close>: \<open>scheduler.hpp\<close> and \<open>scratch_sender.hpp\<close>. \<open>Execution_Schedule\<close>: its operations
    on a whole context. \<open>Rpc_Client\<close>: \<open>detail/rpc_sender_operation_states.hpp\<close>,
    \<open>rpc_sender.hpp\<close>, \<open>client_rpc_stub.hpp\<close>, \<open>detail/response_reader_factory.hpp\<close> and the
    constructor of \<open>InflightRpc\<close>, with the \<open>CallData\<close> that copies of a sender share.
  \<^item> \<open>Server_Container\<close>: \<open>generic_server_container.hpp\<close>, \<open>greeting-grpc/\<close>, \<open>bind_rpc\<close> and
    \<open>bind_logic\<close>. \<open>Greeting_Program\<close>: \<open>main.cpp\<close>, from the setup to the destructors.
  \<^item> \<open>Run_Loop\<close>: \<open>from-scratch.cpp\<close>, with the circular list of \<open>run_loop\<close> in a store.
\<close>

text \<open>
  \<^bold>\<open>What the properties show.\<close>

  \<^item> Shutdown: the state of a context moves forward only and every state is entered by one
    call; no event is attached to a completion queue after its shutdown, however posts and
    \<open>stop\<close> interleave; a worker leaves exactly when every queue reports its shutdown, and does
    leave; notifications run once, in order, after that; in the context as a whole every worker
    has returned and was joined before the context is \<open>Stopped\<close>, and by then every event that was
    attached has been taken and completed exactly once: every posted rpc has called its own
    completion, every posted alarm its thunk, through a live object. The code falls short of this where a
    worker stops its own context, where \<open>stop\<close> overtakes \<open>run_while\<close>, where a context is
    destroyed that does not run, where a server is still running, and where its fences do not
    order what their comments say.
  \<^item> Work: no thunk is lost, duplicated or invented by the task queue or by the workers; every
    accepted thunk is called once, unless a push slips between the last round of
    \<open>stop_and_eject\<close> and its look at \<open>in_push_\<close>, for which a run of the code is given. So the
    receiver of an operation of the scheduler is completed as often as its closure was accepted.
  \<^item> Objects: grpc never calls back a freed object or an empty completion, nothing is answered
    or completed twice, a server keeps listening; alarms are never freed.
  \<^item> Calls: starting an rpc completes its receiver exactly once, with the outcome given case by
    case; copies of a sender work one after the other, as in the example program, and exchange
    their completions when two are started at once.
  \<^item> The examples: a service whose greeting comes back, the outcomes of building its server,
    what the program prints and how it ends when something fails, and a run loop that is first
    in, first out but loses a task once it has been empty.

  \<^bold>\<open>Bounds and termination.\<close> No fuel is used. Loops that end are functions with a measure: the
  sweeps over the queues (the number of queues minus the 32-bit index, unsigned, hence at most
  the number of queues), \<open>run_completion_queues\<close> (the number of queues). Loops that may not end
  are partial functions with \<open>None\<close> for not returning: the retry of \<open>push\<close> and the drain of
  \<open>stop_and_eject\<close>, which wait for other threads, the loop of a worker, and the loop of
  \<open>run_loop\<close>; that they return is proved from a free queue, from queues that yield finitely many
  events after their shutdown, and from a finite list of tasks. Indices and counters keep their
  width, and where a wrap-around matters a theorem says so.

  \<^bold>\<open>Memory.\<close> The interleaved models are sequentially consistent, except \<open>Memory_Order\<close>. The code
  orders its atomics with acquire and release and with signal fences only, which is weaker;
  \<open>late_event_iff_signal_fence\<close> says what that costs, and that with thread fences the shutdown
  of the queues is again after all posts.

  \<^bold>\<open>Parameters.\<close> Code that is not in the repository is an argument of the definitions:
  \<open>cq_api\<close> (\<open>grpc::CompletionQueue\<close> and \<open>grpc::Alarm\<close>), \<open>status_api\<close> (\<open>grpc::Status\<close>),
  \<open>build_api\<close> (\<open>grpc::ServerBuilder\<close>), \<open>reader_api\<close> and the member function of a response reader
  factory (the generated stub), \<open>fmt_api\<close>, \<open>stdexec_api\<close> (the algorithms of stdexec that
  \<open>main\<close> uses), the code of the users in \<open>user_code\<close>, in receivers and in conversions. What is
  relied on of them is a locale (\<open>completion_queue\<close>) or a named hypothesis
  (\<open>halted_queue_drains\<close>, \<open>reports_shutdown\<close>, \<open>status_laws\<close>, \<open>calls_only\<close>, \<open>stdexec_laws\<close>,
  \<open>fmt_laws\<close>, \<open>undisturbed\<close>) or, for the delivery of
  operations by grpc, built into the steps and said there.

  \<^bold>\<open>Not modelled.\<close> Senders of stdexec that \<open>main\<close> composes are known by how they complete, with
  a value or an error; how they get there on the context is the \<open>activity\<close> of \<open>example_main\<close>.
  Of the scheduled branch of \<open>ServerRpcHandler::complete\<close> only the way the work can end is
  modelled; that branch pipes one sender into another and is not known to compile.
  Of \<open>scratch_sender.hpp\<close>, which is included nowhere, the parts that cannot be instantiated are
  left out, the test program tests nothing
  of the library, and \<open>sgrpc.hpp\<close>, \<open>base_inc.hpp\<close>, \<open>stdinc.hpp\<close> and \<open>cpo.hpp\<close> are includes. In
  the interleaved models the thunks of a thread are known by what they post; the sequential
  model of the worker has them in full.

  \<^bold>\<open>Open.\<close> The contents of the queues of the servers in the whole context, where the handlers
  act beside it; the memory orders of the task queue, whose mutexes order most of it.
\<close>

end
